(* ===== verification/Prelude.thy ===== *)
theory Prelude
  imports Main "HOL-Library.Word"
begin

text \<open>
  The types, errors and generic lemmas the components share.

  A Go \<^verbatim>\<open>uint64\<close> is a \<open>64 word\<close>, a byte an \<open>8 word\<close>, and a Go string a
  \<^typ>\<open>string\<close>, a list of bytes. A \<^verbatim>\<open>[16]byte\<close> identity is a \<open>128 word\<close> read
  big-endian, so that Go's \<^verbatim>\<open>==\<close> is equality and \<^verbatim>\<open>bytes.Compare\<close> is the order of
  the numbers.

  A Go error is the list of the sentinel errors it wraps: \<^verbatim>\<open>fmt.Errorf("%w: ...", e)\<close>
  wraps \<^verbatim>\<open>e\<close>'s, \<^verbatim>\<open>errors.Join(a, b)\<close> is the lists appended, and
  \<^verbatim>\<open>errors.Is(e, s)\<close> is membership. The text of a message is left out. A function
  that may fail returns \<^typ>\<open>'e + 'a\<close>, \<open>Inl\<close> the error.
\<close>

section \<open>Types\<close>

type_synonym u64 = "64 word"
type_synonym u32 = "32 word"
type_synonym byte = "8 word"
type_synonym bytes = "byte list"
type_synonym identity = "128 word"
type_synonym etag = string

section \<open>Errors\<close>

text \<open>
  The sentinel errors of the packages modelled. \<open>Other n\<close> is any error that is none of
  them: a transport failure, a cancelled context.
\<close>

datatype sentinel =
  \<comment> \<open>package platform\<close>
    NotFound | Precondition | InvalidObjectKey | Unavailable | InjectedFault
  \<comment> \<open>package control\<close>
  | InvalidConfig | Exists | Corrupt | Fenced | Closed | Moved | EpochExhausted | BadSequence
  | TooManyPins | NotPublished | TooManyKept | NotKept | Forked | TooManyJournals | Adopted
  \<comment> \<open>package journal\<close>
  | Version | NoSlot | Leased | WrongDisk | JournalClosed | TooLarge | NoEntry | Torn
  | JournalFenced | WrongGeneration | Trimmed
  \<comment> \<open>packages rank, stripe and membership\<close>
  | RankInvalid | TooFew | WrongStripes | Padding | MembershipInvalid | Unchanged | MembershipCorrupt
  | Other nat

type_synonym error = "sentinel list"

definition errors_Is :: "error \<Rightarrow> sentinel \<Rightarrow> bool" where
  [simp]: "errors_Is e s \<longleftrightarrow> s \<in> set e"

definition errors_Join :: "error \<Rightarrow> error \<Rightarrow> error" where
  [simp]: "errors_Join a b = a @ b"

section \<open>Integers\<close>

text \<open>Go's \<^verbatim>\<open>int\<close> and \<^verbatim>\<open>int64\<close> are integers taken into 64 bits after each operation that may leave them.\<close>

definition wrap64 :: "int \<Rightarrow> int" where
  "wrap64 i = (i + 2 ^ 63) mod 2 ^ 64 - 2 ^ 63"

lemma wrap64_id [simp]: "- (2 ^ 63) \<le> i \<Longrightarrow> i < 2 ^ 63 \<Longrightarrow> wrap64 i = i"
  by (simp add: wrap64_def)

text \<open>Go's \<^verbatim>\<open>/\<close> on integers truncates toward zero.\<close>

definition quotient_toward_zero :: "int \<Rightarrow> int \<Rightarrow> int" where
  "quotient_toward_zero a b = (if (a < 0) = (b < 0) then \<bar>a\<bar> div \<bar>b\<bar> else - (\<bar>a\<bar> div \<bar>b\<bar>))"

lemma quotient_toward_zero_pos [simp]: "0 \<le> a \<Longrightarrow> 0 < b \<Longrightarrow> quotient_toward_zero a b = a div b"
  by (simp add: quotient_toward_zero_def)

section \<open>Lists\<close>

text \<open>\<^verbatim>\<open>slices.Insert\<close>, \<^verbatim>\<open>slices.IndexFunc\<close> and the lemmas on strictly sorted lists.\<close>

definition insert_at :: "nat \<Rightarrow> 'a \<Rightarrow> 'a list \<Rightarrow> 'a list" where
  "insert_at i x xs = take i xs @ x # drop i xs"

fun index_func :: "('a \<Rightarrow> bool) \<Rightarrow> 'a list \<Rightarrow> nat option" where
  "index_func p [] = None"
| "index_func p (x # xs) = (if p x then Some 0 else map_option Suc (index_func p xs))"

lemma set_insert_at [simp]: "set (insert_at i x xs) = insert x (set xs)"
  unfolding insert_at_def by (metis Un_insert_right append_take_drop_id list.simps(15) set_append)

lemma length_insert_at [simp]: "length (insert_at i x xs) = Suc (length xs)"
  by (simp add: insert_at_def)

lemma map_insert_at: "map f (insert_at i x xs) = insert_at i (f x) (map f xs)"
  by (simp add: insert_at_def take_map drop_map)

lemma index_func_None: "index_func p xs = None \<longleftrightarrow> (\<forall>x \<in> set xs. \<not> p x)"
  by (induction xs) auto

lemma index_func_Some:
  "index_func p xs = Some i \<Longrightarrow> i < length xs \<and> p (xs ! i) \<and> (\<forall>x \<in> set (take i xs). \<not> p x)"
  by (induction xs arbitrary: i) (auto split: if_splits)

text \<open>Inserting a new element before the first larger one keeps a list strictly sorted.\<close>

definition insertion_point :: "('a \<Rightarrow> bool) \<Rightarrow> 'a list \<Rightarrow> nat" where
  "insertion_point p xs = (case index_func p xs of None \<Rightarrow> length xs | Some i \<Rightarrow> i)"

lemma strict_sorted_insert_at:
  fixes x :: "'a::linorder"
  assumes "sorted_wrt (<) xs" and "x \<notin> set xs"
  shows "sorted_wrt (<) (insert_at (insertion_point (\<lambda>y. y > x) xs) x xs)"
proof (cases "index_func (\<lambda>y. y > x) xs")
  case None
  with assms have "\<forall>y \<in> set xs. y < x"
    by (auto simp: index_func_None not_less order.strict_iff_order)
  with assms(1) None show ?thesis
    by (simp add: insertion_point_def insert_at_def sorted_wrt_append)
next
  case (Some i)
  from index_func_Some [OF Some] have i: "i < length xs" "x < xs ! i"
    and below: "\<forall>y \<in> set (take i xs). \<not> x < y"
    by auto
  from below assms(2) have less: "\<forall>y \<in> set (take i xs). y < x"
    by (metis antisym_conv3 in_set_takeD)
  have split_xs: "sorted_wrt (<) (take i xs @ drop i xs)" using assms(1) by simp
  have drop_i: "drop i xs = xs ! i # drop (Suc i) xs"
    by (rule Cons_nth_drop_Suc [OF i(1), symmetric])
  have above: "\<forall>y \<in> set (drop i xs). x < y"
    using split_xs i(2) unfolding drop_i by (auto simp: sorted_wrt_append)
  from split_xs less above Some show ?thesis
    by (force simp: insertion_point_def insert_at_def sorted_wrt_append)
qed

lemma index_func_map: "index_func p (map f xs) = index_func (p \<circ> f) xs"
  by (induction xs) auto

lemma insertion_point_map: "insertion_point p (map f xs) = insertion_point (p \<circ> f) xs"
  by (simp add: insertion_point_def index_func_map split: option.split)

text \<open>\<^verbatim>\<open>slices.Compact\<close> of a sorted list has no duplicates.\<close>

lemma strict_sorted_remdups_adj:
  fixes xs :: "'a::linorder list"
  shows "sorted xs \<Longrightarrow> sorted_wrt (<) (remdups_adj xs)"
  by (induction xs rule: remdups_adj.induct) (auto simp: order.strict_iff_order)

section \<open>Integers as bytes\<close>

text \<open>\<^verbatim>\<open>binary.LittleEndian\<close> over \<open>n\<close> bytes, and an identity's sixteen bytes.\<close>

lemma unat_bound: "unat (x :: 'a::len word) < 2 ^ LENGTH('a)"
  by (rule unsigned_less)

lemma unat_plus_one: "x < (y :: 'a::len word) \<Longrightarrow> unat (x + 1) = Suc (unat x)"
  using order.strict_trans1 [OF Suc_leI unat_bound [of y]]
  by (simp add: word_less_nat_alt unat_word_ariths)

lemma less_plus_one: "x < (y :: 'a::len word) \<Longrightarrow> x < x + 1"
  by (simp add: word_less_nat_alt unat_plus_one)

primrec le_bytes :: "nat \<Rightarrow> nat \<Rightarrow> bytes" where
  "le_bytes 0 x = []"
| "le_bytes (Suc n) x = word_of_nat x # le_bytes n (x div 256)"

primrec le_value :: "bytes \<Rightarrow> nat" where
  "le_value [] = 0"
| "le_value (b # bs) = unat b + 256 * le_value bs"

lemma length_le_bytes [simp]: "length (le_bytes n x) = n"
  by (induction n arbitrary: x) auto

lemma le_value_le_bytes: "le_value (le_bytes n x) = x mod 256 ^ n"
  by (induction n arbitrary: x) (simp_all add: unat_of_nat mod_mult2_eq)

lemma le_value_le_bytes_id [simp]: "x < 256 ^ n \<Longrightarrow> le_value (le_bytes n x) = x"
  by (simp add: le_value_le_bytes)

lemma le_value_bound: "le_value bs < 256 ^ length bs"
proof (induction bs)
  case (Cons b bs)
  have "unat b < 256" using unat_bound [of b] by simp
  with Cons show ?case by simp
qed simp

lemma le_bytes_le_value: "length bs = n \<Longrightarrow> le_bytes n (le_value bs) = bs"
proof (induction bs arbitrary: n)
  case (Cons b bs)
  have small: "unat b < 256" using unat_bound [of b] by simp
  have "word_of_nat (unat b + 256 * le_value bs) = b + 256 * (word_of_nat (le_value bs) :: byte)"
    by simp
  also have "(256 :: byte) = 0" by simp
  finally have "word_of_nat (unat b + 256 * le_value bs) = b" by simp
  moreover have "(unat b + 256 * le_value bs) div 256 = le_value bs" using small by simp
  ultimately show ?case using Cons by auto
qed simp

definition identity_bytes :: "identity \<Rightarrow> bytes" where
  "identity_bytes x = rev (le_bytes 16 (unat x))"

definition identity_of :: "bytes \<Rightarrow> identity" where
  "identity_of bs = word_of_nat (le_value (rev bs))"

lemma length_identity_bytes [simp]: "length (identity_bytes x) = 16"
  by (simp add: identity_bytes_def)

lemma identity_of_identity_bytes [simp]: "identity_of (identity_bytes x) = x"
proof -
  have "unat x < 256 ^ 16" using unat_bound [of x] by simp
  then show ?thesis by (simp add: identity_of_def identity_bytes_def)
qed

text \<open>The bytes of a Go string.\<close>

definition string_bytes :: "string \<Rightarrow> bytes" where
  "string_bytes s = map (\<lambda>c. word_of_nat (of_char c)) s"

definition bytes_string :: "bytes \<Rightarrow> string" where
  "bytes_string bs = map (\<lambda>b. char_of (unat b)) bs"

lemma length_string_bytes [simp]: "length (string_bytes s) = length s"
  by (simp add: string_bytes_def)

lemma bytes_string_bytes [simp]: "bytes_string (string_bytes s) = s"
proof -
  have "char_of (unat (word_of_nat (of_char c) :: byte)) = c" for c
    by (simp add: unat_of_nat)
  then show ?thesis by (simp add: bytes_string_def string_bytes_def comp_def)
qed

lemma of_nat_unat_u64 [simp]: "word_of_nat (le_value (le_bytes 8 (unat x))) = (x :: u64)"
proof -
  have "unat x < 256 ^ 8" using unat_bound [of x] by simp
  then show ?thesis by simp
qed

section \<open>Invariants of transition systems\<close>

text \<open>
  A predicate that holds where a system starts and that every step keeps holds wherever it
  gets to. A second predicate may use the first in its steps.
\<close>

locale invariant_system =
  fixes start :: "'s \<Rightarrow> bool" and step :: "'s \<Rightarrow> 's \<Rightarrow> bool" and inv :: "'s \<Rightarrow> bool"
  assumes inv_start: "start s \<Longrightarrow> inv s"
    and inv_step: "inv s \<Longrightarrow> step s s' \<Longrightarrow> inv s'"
begin

lemma inv_steps: "step\<^sup>*\<^sup>* s s' \<Longrightarrow> inv s \<Longrightarrow> inv s'"
  by (induction rule: rtranclp_induct) (auto intro: inv_step)

lemma inv_reached: "start s \<Longrightarrow> step\<^sup>*\<^sup>* s s' \<Longrightarrow> inv s'"
  using inv_steps inv_start by blast

end

locale relative_invariant = invariant_system +
  fixes inv_too :: "'s \<Rightarrow> bool"
  assumes too_start: "start s \<Longrightarrow> inv_too s"
    and too_step: "inv s \<Longrightarrow> inv_too s \<Longrightarrow> step s s' \<Longrightarrow> inv_too s'"

sublocale relative_invariant \<subseteq> both: invariant_system start step "\<lambda>s. inv s \<and> inv_too s"
  by unfold_locales (auto intro: inv_start inv_step too_start too_step)

end
