(* ===== verification/Object_Store.thy ===== *)
theory Object_Store
  imports Prelude
begin

text \<open>
  The object store seam of package platform (\<^verbatim>\<open>platform/object_store.go\<close>): keys, conditions,
  the certified whole-object read, and the programs that issue requests against a store.

  A client call is a \<open>prog\<close>: a tree of the requests it makes, each with what it does with
  the reply. The value of an object is of any type \<^typ>\<open>'b\<close>. A loop of the source carries
  fuel; the tree is \<open>Cut\<close> where the fuel ends, which says that the loop is still running
  there, not that the call returned.

  The store itself is modelled twice. The locale \<open>object_store\<close> is the contract of the
  Go interface, and \<open>sim_get\<close>, \<open>sim_put\<close> and \<open>sim_delete\<close> are the store of
  \<^verbatim>\<open>platform/sim/object_store.go\<close>, which is shown to keep it.
\<close>

section \<open>Keys\<close>

text \<open>Go's \<^verbatim>\<open>utf8.ValidString\<close>, over the bytes of a string.\<close>

abbreviation continuation :: "nat \<Rightarrow> bool" where
  "continuation b \<equiv> 128 \<le> b \<and> b < 192"

fun valid_utf8 :: "nat list \<Rightarrow> bool" where
  "valid_utf8 [] = True"
| "valid_utf8 (a # xs) =
     (if a < 128 then valid_utf8 xs
      else if a < 194 then False
      else if a < 224 then
        (case xs of b # ys \<Rightarrow> continuation b \<and> valid_utf8 ys | _ \<Rightarrow> False)
      else if a < 240 then
        (case xs of b # c # ys \<Rightarrow>
           (if a = 224 then 160 \<le> b \<and> b < 192 else if a = 237 then 128 \<le> b \<and> b < 160
            else continuation b) \<and> continuation c \<and> valid_utf8 ys
         | _ \<Rightarrow> False)
      else if a < 245 then
        (case xs of b # c # d # ys \<Rightarrow>
           (if a = 240 then 144 \<le> b \<and> b < 192 else if a = 244 then 128 \<le> b \<and> b < 144
            else continuation b) \<and> continuation c \<and> continuation d \<and> valid_utf8 ys
         | _ \<Rightarrow> False)
      else False)"

definition ValidString :: "string \<Rightarrow> bool" where
  "ValidString s = valid_utf8 (map of_char s)"

definition NewObjectKey :: "string \<Rightarrow> error + string" where
  "NewObjectKey key =
     (if key = [] \<or> length key > 1024 \<or> \<not> ValidString key \<or> CHR 0x00 \<in> set key
      then Inl [InvalidObjectKey] else Inr key)"

lemma NewObjectKey_Inr: "NewObjectKey k = Inr k' \<longleftrightarrow> k' = k \<and> NewObjectKey k = Inr k"
  by (auto simp: NewObjectKey_def)

section \<open>Requests and programs\<close>

record put_conditions =
  if_match :: "etag option"
  if_none_match :: bool

abbreviation matching :: "etag \<Rightarrow> put_conditions" where
  "matching e \<equiv> \<lparr>if_match = Some e, if_none_match = False\<rparr>"

abbreviation absent :: put_conditions where
  "absent \<equiv> \<lparr>if_match = None, if_none_match = True\<rparr>"

text \<open>A reply to a whole-object Get: its metadata, the length its headers state, its body.\<close>

record 'b get_result =
  result_key :: string
  result_etag :: etag
  result_size :: int
  result_length :: int
  result_body :: 'b

datatype ('b, 'a) prog =
    Return 'a
  | Cut
  | Get string "error + 'b get_result \<Rightarrow> ('b, 'a) prog"
  | Put string 'b put_conditions "error + etag \<Rightarrow> ('b, 'a) prog"
  | Delete string "etag option" "error + unit \<Rightarrow> ('b, 'a) prog"

primrec bind :: "('b, 'a) prog \<Rightarrow> ('a \<Rightarrow> ('b, 'c) prog) \<Rightarrow> ('b, 'c) prog" where
  "bind (Return a) f = f a"
| "bind Cut f = Cut"
| "bind (Get k g) f = Get k (\<lambda>r. bind (g r) f)"
| "bind (Put k b c g) f = Put k b c (\<lambda>r. bind (g r) f)"
| "bind (Delete k m g) f = Delete k m (\<lambda>r. bind (g r) f)"

text \<open>
  \<^verbatim>\<open>ReadObjectBody\<close> certifies a reply before it is used. Reading one byte past the maximum
  tells a body longer than the length stated, so the body must be exactly as long.
\<close>

definition ReadObjectBody ::
  "('b \<Rightarrow> nat) \<Rightarrow> 'b get_result \<Rightarrow> string \<Rightarrow> int \<Rightarrow> int \<Rightarrow> error \<Rightarrow> error + 'b" where
  "ReadObjectBody size_of result key minimum maximum corrupt =
     (if result_key result \<noteq> key \<or> result_etag result = [] \<or>
         result_size result \<noteq> result_length result \<or>
         result_length result < minimum \<or> result_length result > maximum
      then Inl corrupt
      else if int (size_of (result_body result)) \<noteq> result_length result then Inl corrupt
      else Inr (result_body result))"

definition ReadObject ::
  "('b \<Rightarrow> nat) \<Rightarrow> string \<Rightarrow> int \<Rightarrow> int \<Rightarrow> error \<Rightarrow> ('b, error + 'b \<times> etag) prog" where
  "ReadObject size_of key minimum maximum corrupt =
     Get key (\<lambda>reply. Return
       (case reply of
          Inl e \<Rightarrow> Inl e
        | Inr result \<Rightarrow>
            (case ReadObjectBody size_of result key minimum maximum corrupt of
               Inl e \<Rightarrow> Inl e
             | Inr data \<Rightarrow> Inr (data, result_etag result))))"

section \<open>The simulated store\<close>

text \<open>
  The store's own effect on its objects (\<^verbatim>\<open>platform/sim/object_store.go\<close>), without the
  latencies and the injected faults around it: an injected fault is a reply of an error,
  before or after the effect, and the systems below allow any.
\<close>

type_synonym 'b objects = "string \<Rightarrow> ('b \<times> etag) option"

definition conditionsMatch :: "put_conditions \<Rightarrow> etag option \<Rightarrow> bool" where
  "conditionsMatch c current =
     (if if_none_match c then current = None
      else case if_match c of Some e \<Rightarrow> current = Some e | None \<Rightarrow> True)"

definition current_etag :: "'b objects \<Rightarrow> string \<Rightarrow> etag option" where
  "current_etag s k = map_option snd (s k)"

definition metadataFor :: "('b \<Rightarrow> nat) \<Rightarrow> string \<Rightarrow> 'b \<Rightarrow> etag \<Rightarrow> 'b get_result" where
  "metadataFor size_of k b e =
     \<lparr>result_key = k, result_etag = e, result_size = int (size_of b),
      result_length = int (size_of b), result_body = b\<rparr>"

definition sim_get :: "('b \<Rightarrow> nat) \<Rightarrow> string \<Rightarrow> 'b objects \<Rightarrow> error + 'b get_result" where
  "sim_get size_of k s =
     (case s k of None \<Rightarrow> Inl [NotFound] | Some (b, e) \<Rightarrow> Inr (metadataFor size_of k b e))"

definition sim_put ::
  "('b \<Rightarrow> etag) \<Rightarrow> string \<Rightarrow> 'b \<Rightarrow> put_conditions \<Rightarrow> 'b objects \<Rightarrow> error + 'b objects \<times> etag" where
  "sim_put etagOf k b c s =
     (if \<not> conditionsMatch c (current_etag s k) then Inl [Precondition]
      else Inr (s(k \<mapsto> (b, etagOf b)), etagOf b))"

definition sim_delete :: "string \<Rightarrow> etag option \<Rightarrow> 'b objects \<Rightarrow> error + 'b objects" where
  "sim_delete k m s =
     (if m \<noteq> None \<and> current_etag s k \<noteq> m then Inl [Precondition] else Inr (s(k := None)))"

text \<open>A program run alone against the store, with no fault and nobody else writing.\<close>

primrec exec ::
  "('b \<Rightarrow> nat) \<Rightarrow> ('b \<Rightarrow> etag) \<Rightarrow> ('b, 'a) prog \<Rightarrow> 'b objects \<Rightarrow> 'a option \<times> 'b objects" where
  "exec size_of etagOf (Return a) s = (Some a, s)"
| "exec size_of etagOf Cut s = (None, s)"
| "exec size_of etagOf (Get k f) s = exec size_of etagOf (f (sim_get size_of k s)) s"
| "exec size_of etagOf (Put k b c f) s =
     (case sim_put etagOf k b c s of
        Inl e \<Rightarrow> exec size_of etagOf (f (Inl e)) s
      | Inr (s', e) \<Rightarrow> exec size_of etagOf (f (Inr e)) s')"
| "exec size_of etagOf (Delete k m f) s =
     (case sim_delete k m s of
        Inl e \<Rightarrow> exec size_of etagOf (f (Inl e)) s
      | Inr s' \<Rightarrow> exec size_of etagOf (f (Inr ())) s')"

lemma exec_bind:
  "exec size_of etagOf (bind p f) s =
     (case exec size_of etagOf p s of
        (None, s') \<Rightarrow> (None, s')
      | (Some a, s') \<Rightarrow> exec size_of etagOf (f a) s')"
  by (induction p arbitrary: s) (auto split: sum.splits prod.splits)

section \<open>The contract of an object store\<close>

text \<open>
  What a client may rely on: a write lands only while its condition holds, and is then what
  a read finds, under the validator the write was given; a refusal changes nothing; and no
  write touches another key.
\<close>

locale object_store =
  fixes lookup :: "'s \<Rightarrow> string \<Rightarrow> ('b \<times> etag) option"
    and put :: "string \<Rightarrow> 'b \<Rightarrow> put_conditions \<Rightarrow> 's \<Rightarrow> error + 's \<times> etag"
    and remove :: "string \<Rightarrow> etag option \<Rightarrow> 's \<Rightarrow> error + 's"
  assumes put_lands: "put k b c s = Inr (s', e) \<Longrightarrow> lookup s' = (lookup s)(k \<mapsto> (b, e))"
    and put_admits: "put k b c s = Inr (s', e) \<Longrightarrow> conditionsMatch c (current_etag (lookup s) k)"
    and put_refuses: "\<not> conditionsMatch c (current_etag (lookup s) k) \<Longrightarrow> put k b c s = Inl [Precondition]"
    and remove_lands: "remove k m s = Inr s' \<Longrightarrow> lookup s' = (lookup s)(k := None)"
    and remove_admits: "remove k (Some e) s = Inr s' \<Longrightarrow> current_etag (lookup s) k = Some e"
begin

lemma put_create_once:
  assumes "put k b absent s = Inr (s', e)"
  shows "put k b' absent s' = Inl [Precondition]"
  using put_lands [OF assms]
  by (intro put_refuses) (simp add: conditionsMatch_def current_etag_def)

lemma put_swap_once:
  assumes "put k b (matching e0) s = Inr (s', e)" and "e \<noteq> e0"
  shows "put k b' (matching e0) s' = Inl [Precondition]"
  using put_lands [OF assms(1)] assms(2)
  by (intro put_refuses) (simp add: conditionsMatch_def current_etag_def)

lemma put_reads_back:
  assumes "put k b c s = Inr (s', e)"
  shows "lookup s' k = Some (b, e)" and "k' \<noteq> k \<Longrightarrow> lookup s' k' = lookup s k'"
  using put_lands [OF assms] by simp_all

end

interpretation sim_store: object_store "\<lambda>s. s" "sim_put etagOf" sim_delete
  by unfold_locales
    (auto simp: sim_put_def sim_delete_def split: if_splits)

end
