(* ===== verification/Cas_System.thy ===== *)
theory Cas_System
  imports Object_Store
begin

text \<open>
  Any number of clients that change objects by compare-and-set, in any interleaving, over a
  store that may answer any request with an error, lose any reply, and apply a write late
  or more than once.

  The one thing the clients rely on is what a validator is: an ETag the store issued for a
  key names one value of that key, and no other value ever after. It holds for a store
  whose validators are content hashes, and for one that numbers its writes. The ghost field
  \<open>issued\<close> records every validator given out and the value it names.

  A host that crashes is an agent that takes no further step.
\<close>

section \<open>What a program guarantees\<close>

type_synonym 'b world = "string \<Rightarrow> etag \<Rightarrow> 'b option"

definition extends :: "'b world \<Rightarrow> 'b world \<Rightarrow> bool" where
  "extends w w' \<longleftrightarrow> (\<forall>k e b. w k e = Some b \<longrightarrow> w' k e = Some b)"

lemma extends_refl [simp]: "extends w w"
  by (simp add: extends_def)

lemma extends_trans: "extends w w' \<Longrightarrow> extends w' w'' \<Longrightarrow> extends w w''"
  by (simp add: extends_def)

lemma extendsD: "extends w w' \<Longrightarrow> w k e = Some b \<Longrightarrow> w' k e = Some b"
  by (simp add: extends_def)

text \<open>
  A write is justified when the change it would make, from the value its condition names to
  the value it writes, is allowed.
\<close>

definition justified ::
  "(string \<Rightarrow> 'b option \<Rightarrow> 'b option \<Rightarrow> bool) \<Rightarrow> 'b world \<Rightarrow> string \<Rightarrow> 'b \<Rightarrow> put_conditions \<Rightarrow> bool" where
  "justified allowed w k b c =
     (if if_none_match c then allowed k None (Some b)
      else case if_match c of
        Some e \<Rightarrow> (\<forall>w' b0. extends w w' \<longrightarrow> w' k e = Some b0 \<longrightarrow> allowed k (Some b0) (Some b))
      | None \<Rightarrow> (\<forall>old. allowed k old (Some b)))"

definition removal_justified ::
  "(string \<Rightarrow> 'b option \<Rightarrow> 'b option \<Rightarrow> bool) \<Rightarrow> 'b world \<Rightarrow> string \<Rightarrow> etag option \<Rightarrow> bool" where
  "removal_justified allowed w k m =
     (case m of
        Some e \<Rightarrow> (\<forall>w' b0. extends w w' \<longrightarrow> w' k e = Some b0 \<longrightarrow> allowed k (Some b0) None)
      | None \<Rightarrow> (\<forall>old. allowed k old None))"

text \<open>
  Every request the program may make, whatever it is answered, is justified, and what it
  returns satisfies the postcondition. A read finds a value under its own validator.
\<close>

primrec guarantees ::
  "(string \<Rightarrow> 'b option \<Rightarrow> 'b option \<Rightarrow> bool) \<Rightarrow> ('a \<Rightarrow> 'b world \<Rightarrow> bool) \<Rightarrow> ('b, 'a) prog \<Rightarrow> 'b world \<Rightarrow> bool" where
  "guarantees allowed post (Return a) w = post a w"
| "guarantees allowed post Cut w = True"
| "guarantees allowed post (Get k f) w =
     (\<forall>w' r. extends w w' \<longrightarrow>
        (\<forall>g. r = Inr g \<longrightarrow> w' k (result_etag g) = Some (result_body g)) \<longrightarrow>
        guarantees allowed post (f r) w')"
| "guarantees allowed post (Put k b c f) w =
     (justified allowed w k b c \<and>
      (\<forall>w' r. extends w w' \<longrightarrow> (\<forall>e. r = Inr e \<longrightarrow> w' k e = Some b) \<longrightarrow>
        guarantees allowed post (f r) w'))"
| "guarantees allowed post (Delete k m f) w =
     (removal_justified allowed w k m \<and>
      (\<forall>w' r. extends w w' \<longrightarrow> guarantees allowed post (f r) w'))"

definition stable :: "('a \<Rightarrow> 'b world \<Rightarrow> bool) \<Rightarrow> bool" where
  "stable post \<longleftrightarrow> (\<forall>a w w'. post a w \<longrightarrow> extends w w' \<longrightarrow> post a w')"

lemma justified_extends: "justified allowed w k b c \<Longrightarrow> extends w w' \<Longrightarrow> justified allowed w' k b c"
  by (auto simp: justified_def split: option.splits if_splits intro: extends_trans)

lemma removal_justified_extends:
  "removal_justified allowed w k m \<Longrightarrow> extends w w' \<Longrightarrow> removal_justified allowed w' k m"
  by (auto simp: removal_justified_def split: option.splits intro: extends_trans)

lemma guarantees_extends:
  assumes "stable post" and "guarantees allowed post p w" and "extends w w'"
  shows "guarantees allowed post p w'"
  using assms(2,3)
proof (induction p arbitrary: w w')
  case (Return a)
  then show ?case using assms(1) by (simp add: stable_def)
next
  case Cut
  then show ?case by simp
next
  case (Get k f)
  then show ?case by (simp) (meson extends_trans)
next
  case (Put k b c f)
  then show ?case by (simp) (meson extends_trans justified_extends)
next
  case (Delete k m f)
  then show ?case by (simp) (meson extends_trans removal_justified_extends)
qed

lemma guarantees_bind:
  fixes p :: "('b, 'a) prog"
  assumes "guarantees allowed mid p w"
    and "\<And>a w'. extends w w' \<Longrightarrow> mid a w' \<Longrightarrow> guarantees allowed post (f a) w'"
  shows "guarantees allowed post (bind p f) w"
  using assms
proof (induction p arbitrary: w)
  case (Return a)
  then show ?case by simp
next
  case Cut
  then show ?case by simp
next
  case (Get k g)
  show ?case
  proof (simp, intro allI impI)
    fix w' and r :: "error + 'b get_result"
    assume w': "extends w w'" and r: "\<forall>v. r = Inr v \<longrightarrow> w' k (result_etag v) = Some (result_body v)"
    have "guarantees allowed mid (g r) w'" using Get.prems(1) w' r by simp
    then show "guarantees allowed post (bind (g r) f) w'"
      by (rule Get.IH [OF rangeI]) (blast intro: Get.prems(2) extends_trans [OF w'])
  qed
next
  case (Put k b c g)
  have "justified allowed w k b c" using Put.prems(1) by simp
  moreover {
    fix w' and r :: "error + etag"
    assume w': "extends w w'" and r: "\<forall>e. r = Inr e \<longrightarrow> w' k e = Some b"
    have "guarantees allowed mid (g r) w'" using Put.prems(1) w' r by simp
    then have "guarantees allowed post (bind (g r) f) w'"
      by (rule Put.IH [OF rangeI]) (blast intro: Put.prems(2) extends_trans [OF w']) }
  ultimately show ?case by simp
next
  case (Delete k m g)
  have "removal_justified allowed w k m" using Delete.prems(1) by simp
  moreover {
    fix w' and r :: "error + unit"
    assume w': "extends w w'"
    have "guarantees allowed mid (g r) w'" using Delete.prems(1) w' by simp
    then have "guarantees allowed post (bind (g r) f) w'"
      by (rule Delete.IH [OF rangeI]) (blast intro: Delete.prems(2) extends_trans [OF w']) }
  ultimately show ?case by simp
qed

lemma guarantees_result:
  assumes "guarantees allowed mid p w" and "\<And>a w'. mid a w' \<Longrightarrow> post (g a) w'"
  shows "guarantees allowed post (bind p (\<lambda>a. Return (g a))) w"
  using assms by (auto intro: guarantees_bind)

lemma guarantees_mono:
  assumes "guarantees allowed post p w"
    and "\<And>a w'. extends w w' \<Longrightarrow> post a w' \<Longrightarrow> post' a w'"
  shows "guarantees allowed post' p w"
proof -
  have bind_Return: "bind p Return = p" by (induction p) auto
  have "guarantees allowed post' (bind p Return) w"
    using assms by (intro guarantees_bind [where mid = post]) auto
  then show ?thesis by (simp add: bind_Return)
qed

text \<open>The value a condition names, when it is known.\<close>

lemma justified_matching:
  assumes "w k e = Some b0" and "allowed k (Some b0) (Some b)"
  shows "justified allowed w k b (matching e)"
  using assms by (auto simp: justified_def dest: extendsD)

lemma justified_absent: "allowed k None (Some b) \<Longrightarrow> justified allowed w k b absent"
  by (simp add: justified_def)

lemma removal_justified_matching:
  assumes "w k e = Some b0" and "allowed k (Some b0) None"
  shows "removal_justified allowed w k (Some e)"
  using assms by (auto simp: removal_justified_def dest: extendsD)

text \<open>A program guarantees anything of a relation that allows every change.\<close>

lemma guarantees_unrestricted:
  assumes "\<And>k b b'. allowed k b b'" and "\<And>a w. post a w"
  shows "guarantees allowed post p w"
proof (induction p arbitrary: w)
  case (Return a)
  then show ?case using assms(2) by simp
next
  case (Put k b c f)
  then show ?case using assms(1) by (simp add: justified_def split: option.splits)
next
  case (Delete k m f)
  then show ?case using assms(1) by (simp add: removal_justified_def split: option.splits)
qed simp_all

section \<open>A system of clients\<close>

text \<open>
  An agent rests with its local state, or runs one call. \<open>sent\<close> is every write and removal
  any agent ever issued; each may be applied at any time after it was sent, any number of
  times, while its condition holds.
\<close>

datatype ('b, 'a, 'c, 'l) agent = Rest 'l | Busy 'c 'l "('b, 'a) prog"

datatype 'b request = Write string 'b put_conditions | Removal string "etag option"

record ('b, 'a, 'c, 'l) sys =
  objects :: "'b objects"
  issued :: "'b world"
  sent :: "'b request set"
  agents :: "nat \<Rightarrow> ('b, 'a, 'c, 'l) agent"

primrec local :: "('b, 'a, 'c, 'l) agent \<Rightarrow> 'l" where
  "local (Rest l) = l"
| "local (Busy c l p) = l"

definition set_agent ::
  "nat \<Rightarrow> ('b, 'a, 'c, 'l) agent \<Rightarrow> ('b, 'a, 'c, 'l) sys \<Rightarrow> ('b, 'a, 'c, 'l) sys" where
  "set_agent i x s = s\<lparr>agents := (agents s)(i := x)\<rparr>"

text \<open>A write applied: the object is the value written, under a validator the store issues.\<close>

definition apply_write ::
  "string \<Rightarrow> 'b \<Rightarrow> etag \<Rightarrow> ('b, 'a, 'c, 'l) sys \<Rightarrow> ('b, 'a, 'c, 'l) sys" where
  "apply_write k b e s =
     s\<lparr>objects := (objects s)(k \<mapsto> (b, e)), issued := (issued s)(k := (issued s k)(e \<mapsto> b))\<rparr>"

definition apply_removal :: "string \<Rightarrow> ('b, 'a, 'c, 'l) sys \<Rightarrow> ('b, 'a, 'c, 'l) sys" where
  "apply_removal k s = s\<lparr>objects := (objects s)(k := None)\<rparr>"

definition send :: "'b request \<Rightarrow> ('b, 'a, 'c, 'l) sys \<Rightarrow> ('b, 'a, 'c, 'l) sys" where
  "send r s = s\<lparr>sent := insert r (sent s)\<rparr>"

definition issuable :: "('b, 'a, 'c, 'l) sys \<Rightarrow> string \<Rightarrow> 'b \<Rightarrow> etag \<Rightarrow> bool" where
  "issuable s k b e \<longleftrightarrow> issued s k e \<in> {None, Some b}"

text \<open>
  The steps. \<open>admit\<close> is what the environment grants of a call, over every agent's local
  state; \<open>enter\<close> is the caller's local state once it has started the call, \<open>start\<close> the
  call's program, and \<open>finish\<close> the local state its result leaves.
\<close>

inductive sys_step ::
  "((nat \<Rightarrow> 'l) \<Rightarrow> nat \<Rightarrow> 'c \<Rightarrow> bool) \<Rightarrow> ('c \<Rightarrow> 'l \<Rightarrow> 'l) \<Rightarrow> ('c \<Rightarrow> 'l \<Rightarrow> ('b, 'a) prog) \<Rightarrow> ('c \<Rightarrow> 'l \<Rightarrow> 'a \<Rightarrow> 'l)
   \<Rightarrow> ('b, 'a, 'c, 'l) sys \<Rightarrow> ('b, 'a, 'c, 'l) sys \<Rightarrow> bool"
  for admit enter start finish where
  call: "agents s i = Rest l \<Longrightarrow> admit (local \<circ> agents s) i c \<Longrightarrow>
    sys_step admit enter start finish s (set_agent i (Busy c (enter c l) (start c (enter c l))) s)"
| returned: "agents s i = Busy c l (Return a) \<Longrightarrow>
    sys_step admit enter start finish s (set_agent i (Rest (finish c l a)) s)"
| get_found: "agents s i = Busy c l (Get k f) \<Longrightarrow> objects s k = Some (result_body g, result_etag g) \<Longrightarrow>
    sys_step admit enter start finish s (set_agent i (Busy c l (f (Inr g))) s)"
| get_failed: "agents s i = Busy c l (Get k f) \<Longrightarrow> (NotFound \<in> set e \<Longrightarrow> objects s k = None) \<Longrightarrow>
    sys_step admit enter start finish s (set_agent i (Busy c l (f (Inl e))) s)"
| put_landed: "agents s i = Busy c l (Put k b cond f) \<Longrightarrow>
    conditionsMatch cond (current_etag (objects s) k) \<Longrightarrow> issuable s k b e \<Longrightarrow>
    sys_step admit enter start finish s
      (set_agent i (Busy c l (f (Inr e))) (apply_write k b e (send (Write k b cond) s)))"
| put_failed: "agents s i = Busy c l (Put k b cond f) \<Longrightarrow>
    sys_step admit enter start finish s
      (set_agent i (Busy c l (f (Inl e))) (send (Write k b cond) s))"
| put_late: "Write k b cond \<in> sent s \<Longrightarrow>
    conditionsMatch cond (current_etag (objects s) k) \<Longrightarrow> issuable s k b e \<Longrightarrow>
    sys_step admit enter start finish s (apply_write k b e s)"
| delete_landed: "agents s i = Busy c l (Delete k m f) \<Longrightarrow>
    (m \<noteq> None \<Longrightarrow> current_etag (objects s) k = m) \<Longrightarrow>
    sys_step admit enter start finish s
      (set_agent i (Busy c l (f (Inr ()))) (apply_removal k (send (Removal k m) s)))"
| delete_failed: "agents s i = Busy c l (Delete k m f) \<Longrightarrow>
    sys_step admit enter start finish s
      (set_agent i (Busy c l (f (Inl e))) (send (Removal k m) s))"
| delete_late: "Removal k m \<in> sent s \<Longrightarrow> (m \<noteq> None \<Longrightarrow> current_etag (objects s) k = m) \<Longrightarrow>
    sys_step admit enter start finish s (apply_removal k s)"

text \<open>
  The system before anything has happened: no object, no validator, and every agent at
  rest with its initial local state.
\<close>

definition sys_init :: "(nat \<Rightarrow> 'l) \<Rightarrow> ('b, 'a, 'c, 'l) sys" where
  "sys_init l0 = \<lparr>objects = (\<lambda>_. None), issued = (\<lambda>_ _. None), sent = {}, agents = (\<lambda>i. Rest (l0 i))\<rparr>"

inductive reachable ::
  "(('b, 'a, 'c, 'l) sys \<Rightarrow> ('b, 'a, 'c, 'l) sys \<Rightarrow> bool) \<Rightarrow> ('b, 'a, 'c, 'l) sys \<Rightarrow> ('b, 'a, 'c, 'l) sys \<Rightarrow> bool"
  for step s0 where
  reach_init: "reachable step s0 s0"
| reach_step: "reachable step s0 s \<Longrightarrow> step s t \<Longrightarrow> reachable step s0 t"

text \<open>A run in which one object is there throughout.\<close>

inductive run_with ::
  "(('b, 'a, 'c, 'l) sys \<Rightarrow> ('b, 'a, 'c, 'l) sys \<Rightarrow> bool) \<Rightarrow> string \<Rightarrow> ('b, 'a, 'c, 'l) sys \<Rightarrow> ('b, 'a, 'c, 'l) sys \<Rightarrow> bool"
  for step k s where
  run_here: "objects s k \<noteq> None \<Longrightarrow> run_with step k s s"
| run_on: "run_with step k s t \<Longrightarrow> step t u \<Longrightarrow> objects u k \<noteq> None \<Longrightarrow> run_with step k s u"

section \<open>Clients that keep their guarantee\<close>

text \<open>
  The contract of a client of the store: every call that is admitted, started in a local state
  that is in order, makes only allowed changes and leaves a local state that is in order.
\<close>

locale cas_clients =
  fixes admit :: "(nat \<Rightarrow> 'l) \<Rightarrow> nat \<Rightarrow> 'c \<Rightarrow> bool"
    and enter :: "'c \<Rightarrow> 'l \<Rightarrow> 'l"
    and start :: "'c \<Rightarrow> 'l \<Rightarrow> ('b, 'a) prog"
    and finish :: "'c \<Rightarrow> 'l \<Rightarrow> 'a \<Rightarrow> 'l"
    and allowed :: "string \<Rightarrow> 'b option \<Rightarrow> 'b option \<Rightarrow> bool"
    and good :: "'l \<Rightarrow> 'b world \<Rightarrow> bool"
    and answer :: "'c \<Rightarrow> 'l \<Rightarrow> 'a \<Rightarrow> 'b world \<Rightarrow> bool"
  assumes good_stable: "stable good"
    and answer_stable: "stable (answer c l)"
    and enter_good: "good l w \<Longrightarrow> good (enter c l) w"
    and start_good: "good l w \<Longrightarrow> admit ls i c \<Longrightarrow> ls i = l \<Longrightarrow>
      guarantees allowed (answer c (enter c l)) (start c (enter c l)) w"
    and finish_good: "good l w \<Longrightarrow> answer c l a w \<Longrightarrow> good (finish c l a) w"
begin

abbreviation client_step where
  "client_step \<equiv> sys_step admit enter start finish"

primrec agent_good :: "('b, 'a, 'c, 'l) agent \<Rightarrow> 'b world \<Rightarrow> bool" where
  "agent_good (Rest l) w = good l w"
| "agent_good (Busy c l p) w = (good l w \<and> guarantees allowed (answer c l) p w)"

definition request_good :: "'b request \<Rightarrow> 'b world \<Rightarrow> bool" where
  "request_good r w =
     (case r of Write k b c \<Rightarrow> justified allowed w k b c | Removal k m \<Rightarrow> removal_justified allowed w k m)"

definition system_good :: "('b, 'a, 'c, 'l) sys \<Rightarrow> bool" where
  "system_good s \<longleftrightarrow>
     (\<forall>k b e. objects s k = Some (b, e) \<longrightarrow> issued s k e = Some b) \<and>
     (\<forall>i. agent_good (agents s i) (issued s)) \<and>
     (\<forall>r \<in> sent s. request_good r (issued s))"

lemma agent_good_extends: "agent_good x w \<Longrightarrow> extends w w' \<Longrightarrow> agent_good x w'"
  using good_stable answer_stable
  by (cases x) (auto simp: stable_def intro: guarantees_extends)

lemma request_good_extends: "request_good r w \<Longrightarrow> extends w w' \<Longrightarrow> request_good r w'"
  by (auto simp: request_good_def split: request.splits
      intro: justified_extends removal_justified_extends)

lemma agent_of: "system_good s \<Longrightarrow> agents s i = x \<Longrightarrow> agent_good x (issued s)"
  by (auto simp: system_good_def)

lemma set_agent_good:
  "system_good s \<Longrightarrow> agent_good x (issued s) \<Longrightarrow> system_good (set_agent i x s)"
  by (auto simp: system_good_def set_agent_def)

lemma send_good: "system_good s \<Longrightarrow> request_good r (issued s) \<Longrightarrow> system_good (send r s)"
  by (auto simp: system_good_def send_def)

lemma apply_write_extends: "issuable s k b e \<Longrightarrow> extends (issued s) (issued (apply_write k b e s))"
  by (auto simp: extends_def issuable_def apply_write_def)

lemma apply_write_good:
  assumes "system_good s" and "issuable s k b e"
  shows "system_good (apply_write k b e s)"
proof -
  let ?t = "apply_write k b e s"
  have grows: "extends (issued s) (issued ?t)"
    using assms(2) by (rule apply_write_extends)
  have "\<forall>k' b' e'. objects ?t k' = Some (b', e') \<longrightarrow> issued ?t k' e' = Some b'"
    using assms by (auto simp: apply_write_def system_good_def issuable_def)
  moreover have "agents ?t = agents s" and "sent ?t = sent s" by (simp_all add: apply_write_def)
  then have "\<forall>i. agent_good (agents ?t i) (issued ?t)" "\<forall>r \<in> sent ?t. request_good r (issued ?t)"
    using assms(1) agent_good_extends [OF _ grows] request_good_extends [OF _ grows]
    by (simp_all add: system_good_def)
  ultimately show ?thesis by (simp add: system_good_def)
qed

lemma apply_removal_good: "system_good s \<Longrightarrow> system_good (apply_removal k s)"
  by (auto simp: system_good_def apply_removal_def)

lemma write_allowed:
  assumes "system_good s" and "justified allowed (issued s) k b cond"
    and "conditionsMatch cond (current_etag (objects s) k)"
  shows "allowed k (map_option fst (objects s k)) (Some b)"
proof (cases "objects s k")
  case None
  with assms(2,3) show ?thesis
    by (auto simp: conditionsMatch_def justified_def current_etag_def split: if_splits option.splits)
next
  case (Some v)
  then obtain b0 e0 where v: "objects s k = Some (b0, e0)" by (cases v) auto
  with assms(1) have "issued s k e0 = Some b0" by (auto simp: system_good_def)
  with assms(2,3) v show ?thesis
    by (auto simp: conditionsMatch_def justified_def current_etag_def split: if_splits option.splits
        dest: spec [where x = "issued s"])
qed

lemma removal_allowed:
  assumes "system_good s" and "removal_justified allowed (issued s) k m"
    and "m \<noteq> None \<Longrightarrow> current_etag (objects s) k = m"
  shows "allowed k (map_option fst (objects s k)) None"
proof (cases m)
  case None
  with assms(2) show ?thesis by (simp add: removal_justified_def)
next
  case (Some e)
  with assms(3) obtain b0 where v: "objects s k = Some (b0, e)"
    by (auto simp: current_etag_def)
  with assms(1) have "issued s k e = Some b0" by (auto simp: system_good_def)
  with assms(2) v Some show ?thesis
    by (auto simp: removal_justified_def dest: spec [where x = "issued s"])
qed

text \<open>
  One step keeps the system in order, only adds validators, and changes an object only as
  its clients are allowed to.
\<close>

definition step_summary :: "('b, 'a, 'c, 'l) sys \<Rightarrow> ('b, 'a, 'c, 'l) sys \<Rightarrow> bool" where
  "step_summary s t \<longleftrightarrow> system_good t \<and> extends (issued s) (issued t) \<and>
     (\<forall>k. objects t k = objects s k \<or>
          allowed k (map_option fst (objects s k)) (map_option fst (objects t k)))"

lemma set_agent_summary:
  "step_summary s t \<Longrightarrow> agent_good x (issued t) \<Longrightarrow> step_summary s (set_agent i x t)"
  using set_agent_good by (auto simp: step_summary_def set_agent_def)

lemma send_summary:
  "system_good s \<Longrightarrow> request_good r (issued s) \<Longrightarrow> step_summary s (send r s)"
  using send_good by (auto simp: step_summary_def send_def)

lemma same_summary: "system_good s \<Longrightarrow> step_summary s s"
  by (simp add: step_summary_def)

lemma write_summary:
  assumes "step_summary s s'" and "objects s' = objects s" and "issued s' = issued s"
    and "system_good s" and "request_good (Write k b cond) (issued s)"
    and "conditionsMatch cond (current_etag (objects s) k)" and "issuable s k b e"
  shows "step_summary s (apply_write k b e s')"
proof -
  have s': "system_good s'" using assms(1) by (simp add: step_summary_def)
  have e: "issuable s' k b e" using assms(3,7) by (simp add: issuable_def)
  have change: "allowed k (map_option fst (objects s k)) (Some b)"
    using assms(4-6) by (intro write_allowed) (auto simp: request_good_def)
  have grows: "extends (issued s) (issued (apply_write k b e s'))"
    using apply_write_extends [OF e] assms(3) by simp
  have after: "objects (apply_write k b e s') = (objects s)(k \<mapsto> (b, e))"
    using assms(2) by (simp add: apply_write_def)
  show ?thesis
    unfolding step_summary_def
    using apply_write_good [OF s' e] grows change by (auto simp: after)
qed

lemma removal_summary:
  assumes "step_summary s s'" and "objects s' = objects s" and "issued s' = issued s"
    and "system_good s" and "request_good (Removal k m) (issued s)"
    and "m \<noteq> None \<Longrightarrow> current_etag (objects s) k = m"
  shows "step_summary s (apply_removal k s')"
proof -
  have s': "system_good s'" using assms(1) by (simp add: step_summary_def)
  have change: "allowed k (map_option fst (objects s k)) None"
    using assms(4-6) by (intro removal_allowed [where m = m]) (auto simp: request_good_def)
  have after: "objects (apply_removal k s') = (objects s)(k := None)"
    "issued (apply_removal k s') = issued s"
    using assms(2,3) by (simp_all add: apply_removal_def)
  show ?thesis
    unfolding step_summary_def
    using apply_removal_good [OF s'] change by (auto simp: after)
qed

lemma send_same [simp]: "objects (send r s) = objects s" "issued (send r s) = issued s"
  by (simp_all add: send_def)

lemma put_landed_summary:
  assumes good: "system_good s" and agent: "agents s i = Busy c l (Put k b cond f)"
    and "conditionsMatch cond (current_etag (objects s) k)" and "issuable s k b e"
  shows "step_summary s
    (set_agent i (Busy c l (f (Inr e))) (apply_write k b e (send (Write k b cond) s)))"
proof -
  let ?u = "apply_write k b e (send (Write k b cond) s)"
  have ag: "agent_good (Busy c l (Put k b cond f)) (issued s)"
    using good agent by (rule agent_of)
  then have req: "request_good (Write k b cond) (issued s)" by (simp add: request_good_def)
  have sum: "step_summary s ?u"
    using assms req by (intro write_summary send_summary) auto
  have "issued ?u k e = Some b" and "extends (issued s) (issued ?u)"
    using sum by (auto simp: apply_write_def step_summary_def)
  with ag have "agent_good (Busy c l (f (Inr e))) (issued ?u)"
    using good_stable by (auto simp: stable_def)
  with sum show ?thesis by (rule set_agent_summary)
qed

lemma put_failed_summary:
  assumes good: "system_good s" and agent: "agents s i = Busy c l (Put k b cond f)"
  shows "step_summary s (set_agent i (Busy c l (f (Inl e))) (send (Write k b cond) s))"
proof -
  have ag: "agent_good (Busy c l (Put k b cond f)) (issued s)"
    using good agent by (rule agent_of)
  then have "request_good (Write k b cond) (issued s)" by (simp add: request_good_def)
  then have sum: "step_summary s (send (Write k b cond) s)" using good by (simp add: send_summary)
  have "agent_good (Busy c l (f (Inl e))) (issued (send (Write k b cond) s))"
    using ag by (auto dest!: spec [where x = "issued s"])
  with sum show ?thesis by (rule set_agent_summary)
qed

lemma delete_landed_summary:
  assumes good: "system_good s" and agent: "agents s i = Busy c l (Delete k m f)"
    and "m \<noteq> None \<Longrightarrow> current_etag (objects s) k = m"
  shows "step_summary s
    (set_agent i (Busy c l (f (Inr ()))) (apply_removal k (send (Removal k m) s)))"
proof -
  let ?u = "apply_removal k (send (Removal k m) s)"
  have ag: "agent_good (Busy c l (Delete k m f)) (issued s)"
    using good agent by (rule agent_of)
  then have req: "request_good (Removal k m) (issued s)" by (simp add: request_good_def)
  have sum: "step_summary s ?u"
    using assms req by (intro removal_summary [where m = m] send_summary) auto
  have "agent_good (Busy c l (f (Inr ()))) (issued ?u)"
    using ag by (auto simp: apply_removal_def dest!: spec [where x = "issued s"])
  with sum show ?thesis by (rule set_agent_summary)
qed

lemma delete_failed_summary:
  assumes good: "system_good s" and agent: "agents s i = Busy c l (Delete k m f)"
  shows "step_summary s (set_agent i (Busy c l (f (Inl e))) (send (Removal k m) s))"
proof -
  have ag: "agent_good (Busy c l (Delete k m f)) (issued s)"
    using good agent by (rule agent_of)
  then have "request_good (Removal k m) (issued s)" by (simp add: request_good_def)
  then have sum: "step_summary s (send (Removal k m) s)" using good by (simp add: send_summary)
  have "agent_good (Busy c l (f (Inl e))) (issued (send (Removal k m) s))"
    using ag by (auto dest!: spec [where x = "issued s"])
  with sum show ?thesis by (rule set_agent_summary)
qed

lemma get_found_summary:
  assumes good: "system_good s" and agent: "agents s i = Busy c l (Get k f)"
    and "objects s k = Some (result_body g, result_etag g)"
  shows "step_summary s (set_agent i (Busy c l (f (Inr g))) s)"
proof (rule set_agent_summary [OF same_summary [OF good]])
  have "agent_good (Busy c l (Get k f)) (issued s)" using good agent by (rule agent_of)
  moreover have "issued s k (result_etag g) = Some (result_body g)"
    using assms(3) good by (auto simp: system_good_def)
  ultimately show "agent_good (Busy c l (f (Inr g))) (issued s)"
    by (auto dest!: spec [where x = "issued s"])
qed

lemma get_failed_summary:
  assumes good: "system_good s" and agent: "agents s i = Busy c l (Get k f)"
  shows "step_summary s (set_agent i (Busy c l (f (Inl e))) s)"
proof (rule set_agent_summary [OF same_summary [OF good]])
  have "agent_good (Busy c l (Get k f)) (issued s)" using good agent by (rule agent_of)
  then show "agent_good (Busy c l (f (Inl e))) (issued s)"
    by (auto dest!: spec [where x = "issued s"])
qed

lemma step_keeps:
  assumes "client_step s t" and good: "system_good s"
  shows "step_summary s t"
  using assms(1)
proof cases
  case (call i l c)
  with good have "agent_good (Rest l) (issued s)" by (metis agent_of)
  then have "agent_good (Busy c (enter c l) (start c (enter c l))) (issued s)"
    using start_good [OF _ call(3), of l] call(2) by (simp add: enter_good)
  with call good show ?thesis by (auto intro: set_agent_summary same_summary)
next
  case (returned i c l a)
  with good have "agent_good (Busy c l (Return a)) (issued s)" by (metis agent_of)
  then have "agent_good (Rest (finish c l a)) (issued s)" by (auto intro: finish_good)
  with returned good show ?thesis by (auto intro: set_agent_summary same_summary)
next
  case (put_late k b cond e)
  with good have "request_good (Write k b cond) (issued s)" by (auto simp: system_good_def)
  with put_late good show ?thesis by (auto intro: write_summary same_summary)
next
  case (delete_late k m)
  with good have "request_good (Removal k m) (issued s)" by (auto simp: system_good_def)
  with delete_late good show ?thesis by (auto intro: removal_summary same_summary)
qed (use good in \<open>auto intro: get_found_summary get_failed_summary put_landed_summary
       put_failed_summary delete_landed_summary delete_failed_summary\<close>)

lemma reachable_good:
  assumes "reachable client_step s0 s" and "system_good s0"
  shows "system_good s"
  using assms by (induction rule: reachable.induct) (auto dest: step_keeps simp: step_summary_def)

lemma run_with_good:
  assumes "run_with client_step k s t" and "system_good s"
  shows "system_good t"
  using assms by (induction rule: run_with.induct) (auto dest: step_keeps simp: step_summary_def)

end

section \<open>Runs\<close>

text \<open>A validator that was issued named an object that was stored at some point of the run.\<close>

lemma step_issues:
  assumes "sys_step admit enter start finish s t" and "issued t k e = Some b"
  shows "issued s k e = Some b \<or> objects t k = Some (b, e)"
  using assms
  by (induction rule: sys_step.induct)
    (auto simp: set_agent_def apply_write_def apply_removal_def send_def split: if_splits)

lemma issued_was_stored:
  fixes start :: "'c \<Rightarrow> 'l \<Rightarrow> ('b, 'a) prog"
  assumes "reachable (sys_step admit enter start finish) (sys_init l0) s" and "issued s k e = Some b"
  shows "\<exists>u. reachable (sys_step admit enter start finish) (sys_init l0) u \<and>
    (sys_step admit enter start finish)\<^sup>*\<^sup>* u s \<and> objects u k = Some (b, e)"
  using assms
proof (induction arbitrary: rule: reachable.induct)
  case reach_init
  then show ?case by (simp add: sys_init_def)
next
  case (reach_step s t)
  from step_issues [OF reach_step.hyps(2) reach_step.prems] show ?case
  proof
    assume "issued s k e = Some b"
    with reach_step.IH reach_step.hyps(2) show ?thesis by (meson rtranclp.rtrancl_into_rtrancl)
  next
    assume "objects t k = Some (b, e)"
    with reach_step.hyps show ?thesis by (blast intro: reachable.reach_step)
  qed
qed

lemma run_with_present: "run_with step k s t \<Longrightarrow> objects s k \<noteq> None \<and> objects t k \<noteq> None"
  by (induction rule: run_with.induct) auto

lemma run_with_trans: "run_with step k t u \<Longrightarrow> run_with step k s t \<Longrightarrow> run_with step k s u"
  by (induction rule: run_with.induct) (auto intro: run_with.intros)

lemma reachable_run: "run_with step k s t \<Longrightarrow> reachable step s0 s \<Longrightarrow> reachable step s0 t"
  by (induction rule: run_with.induct) (auto intro: reachable.intros)

text \<open>
  Every run of one program alone against the simulated store is a run of the system, in
  which the objects are at each point those the program had left.
\<close>

primrec exec_trace ::
  "('b \<Rightarrow> nat) \<Rightarrow> ('b \<Rightarrow> etag) \<Rightarrow> ('b, 'a) prog \<Rightarrow> 'b objects \<Rightarrow> 'b objects list" where
  "exec_trace size_of etagOf (Return a) s = []"
| "exec_trace size_of etagOf Cut s = []"
| "exec_trace size_of etagOf (Get k f) s = exec_trace size_of etagOf (f (sim_get size_of k s)) s"
| "exec_trace size_of etagOf (Put k b c f) s =
     (case sim_put etagOf k b c s of
        Inl e \<Rightarrow> exec_trace size_of etagOf (f (Inl e)) s
      | Inr (s', e) \<Rightarrow> s' # exec_trace size_of etagOf (f (Inr e)) s')"
| "exec_trace size_of etagOf (Delete k m f) s =
     (case sim_delete k m s of
        Inl e \<Rightarrow> exec_trace size_of etagOf (f (Inl e)) s
      | Inr s' \<Rightarrow> s' # exec_trace size_of etagOf (f (Inr ())) s')"

definition content_tags :: "('b \<Rightarrow> etag) \<Rightarrow> ('b, 'a, 'c, 'l) sys \<Rightarrow> bool" where
  "content_tags etagOf s \<longleftrightarrow> (\<forall>k e b. issued s k e = Some b \<longrightarrow> e = etagOf b)"

text \<open>One request of a program run alone: what is left of the run is the rest of the program's.\<close>

definition solo_step ::
  "('b \<Rightarrow> nat) \<Rightarrow> ('b \<Rightarrow> etag) \<Rightarrow> nat \<Rightarrow> 'c \<Rightarrow> 'l \<Rightarrow> ('b, 'a) prog \<Rightarrow> ('b, 'a) prog
   \<Rightarrow> ('b, 'a, 'c, 'l) sys \<Rightarrow> ('b, 'a, 'c, 'l) sys \<Rightarrow> bool" where
  "solo_step size_of etagOf i c l p q s t \<longleftrightarrow>
     agents t = (agents s)(i := Busy c l q) \<and> content_tags etagOf t \<and>
     exec size_of etagOf p (objects s) = exec size_of etagOf q (objects t) \<and>
     insert (objects t) (set (exec_trace size_of etagOf q (objects t)))
       \<subseteq> insert (objects s) (set (exec_trace size_of etagOf p (objects s)))"

lemma solo_get:
  fixes start :: "'c \<Rightarrow> 'l \<Rightarrow> ('b, 'a) prog"
  assumes "content_tags etagOf s" and "agents s i = Busy c l (Get k f)"
  shows "\<exists>r u. sys_step admit enter start finish s u \<and> solo_step size_of etagOf i c l (Get k f) (f r) s u"
proof -
  let ?r = "sim_get size_of k (objects s)"
  let ?u = "set_agent i (Busy c l (f ?r)) s"
  have "sys_step admit enter start finish s ?u"
  proof (cases "objects s k")
    case None
    then show ?thesis using assms(2) by (auto simp: sim_get_def intro: sys_step.get_failed)
  next
    case (Some v)
    then obtain b e where "objects s k = Some (b, e)" by (cases v) auto
    then show ?thesis
      using sys_step.get_found [OF assms(2), of "metadataFor size_of k b e"]
      by (simp add: sim_get_def metadataFor_def)
  qed
  moreover have "solo_step size_of etagOf i c l (Get k f) (f ?r) s ?u"
    using assms(1) by (auto simp: solo_step_def set_agent_def content_tags_def)
  ultimately show ?thesis by blast
qed

lemma solo_put:
  fixes start :: "'c \<Rightarrow> 'l \<Rightarrow> ('b, 'a) prog"
  assumes "inj etagOf" and "content_tags etagOf s" and "agents s i = Busy c l (Put k b cond f)"
  shows "\<exists>r u. sys_step admit enter start finish s u \<and> solo_step size_of etagOf i c l (Put k b cond f) (f r) s u"
proof (cases "conditionsMatch cond (current_etag (objects s) k)")
  case True
  let ?u = "set_agent i (Busy c l (f (Inr (etagOf b)))) (apply_write k b (etagOf b) (send (Write k b cond) s))"
  have "issuable s k b (etagOf b)"
    using assms(1,2)
    by (cases "issued s k (etagOf b)") (auto simp: issuable_def content_tags_def dest: injD)
  then have "sys_step admit enter start finish s ?u"
    using assms(3) True by (intro sys_step.put_landed)
  moreover have "solo_step size_of etagOf i c l (Put k b cond f) (f (Inr (etagOf b))) s ?u"
    using assms(2) True
    by (auto simp: solo_step_def set_agent_def content_tags_def apply_write_def send_def sim_put_def)
  ultimately show ?thesis by blast
next
  case False
  let ?u = "set_agent i (Busy c l (f (Inl [Precondition]))) (send (Write k b cond) s)"
  have "sys_step admit enter start finish s ?u"
    using assms(3) by (rule sys_step.put_failed)
  moreover have "solo_step size_of etagOf i c l (Put k b cond f) (f (Inl [Precondition])) s ?u"
    using assms(2) False
    by (auto simp: solo_step_def set_agent_def content_tags_def send_def sim_put_def)
  ultimately show ?thesis by blast
qed

lemma solo_delete:
  fixes start :: "'c \<Rightarrow> 'l \<Rightarrow> ('b, 'a) prog"
  assumes "content_tags etagOf s" and "agents s i = Busy c l (Delete k m f)"
  shows "\<exists>r u. sys_step admit enter start finish s u \<and> solo_step size_of etagOf i c l (Delete k m f) (f r) s u"
proof (cases "m \<noteq> None \<and> current_etag (objects s) k \<noteq> m")
  case True
  let ?u = "set_agent i (Busy c l (f (Inl [Precondition]))) (send (Removal k m) s)"
  have "sys_step admit enter start finish s ?u"
    using assms(2) by (rule sys_step.delete_failed)
  moreover have "solo_step size_of etagOf i c l (Delete k m f) (f (Inl [Precondition])) s ?u"
    using assms(1) True
    by (auto simp: solo_step_def set_agent_def content_tags_def send_def sim_delete_def)
  ultimately show ?thesis by blast
next
  case False
  let ?u = "set_agent i (Busy c l (f (Inr ()))) (apply_removal k (send (Removal k m) s))"
  have "sys_step admit enter start finish s ?u"
    using assms(2) False by (intro sys_step.delete_landed) auto
  moreover have "solo_step size_of etagOf i c l (Delete k m f) (f (Inr ())) s ?u"
    using assms(1) False
    by (auto simp: solo_step_def set_agent_def content_tags_def apply_removal_def send_def sim_delete_def)
  ultimately show ?thesis by blast
qed

definition after_run ::
  "('b \<Rightarrow> etag) \<Rightarrow> ('b objects \<Rightarrow> bool) \<Rightarrow> (('b, 'a, 'c, 'l) sys \<Rightarrow> ('b, 'a, 'c, 'l) sys \<Rightarrow> bool) \<Rightarrow> nat
   \<Rightarrow> ('b, 'a, 'c, 'l) agent \<Rightarrow> 'b objects \<Rightarrow> ('b, 'a, 'c, 'l) sys \<Rightarrow> bool" where
  "after_run etagOf P step i x st s \<longleftrightarrow>
     (\<exists>t. (\<lambda>u v. step u v \<and> P (objects v))\<^sup>*\<^sup>* s t \<and> objects t = st \<and>
        agents t = (agents s)(i := x) \<and> content_tags etagOf t)"

lemma after_run_step:
  assumes "step s u" and "P (objects u)" and "agents u = (agents s)(i := y)"
    and "after_run etagOf P step i x st u"
  shows "after_run etagOf P step i x st s"
proof -
  from assms(4) obtain t where t: "(\<lambda>u v. step u v \<and> P (objects v))\<^sup>*\<^sup>* u t" "objects t = st"
      "agents t = (agents u)(i := x)" "content_tags etagOf t"
    by (auto simp: after_run_def)
  moreover have "(\<lambda>u v. step u v \<and> P (objects v))\<^sup>*\<^sup>* s t"
    using assms(1,2) t(1) by (simp add: converse_rtranclp_into_rtranclp)
  ultimately show ?thesis using assms(3) by (auto simp: after_run_def)
qed

lemma solo_step_then:
  assumes "step s u" and "solo_step size_of etagOf i c l p q s u"
    and "exec size_of etagOf p (objects s) = (Some a, st)"
    and "\<forall>st' \<in> insert (objects s) (set (exec_trace size_of etagOf p (objects s))). P st'"
    and "content_tags etagOf u \<Longrightarrow> agents u i = Busy c l q \<Longrightarrow>
      exec size_of etagOf q (objects u) = (Some a, st) \<Longrightarrow>
      \<forall>st' \<in> insert (objects u) (set (exec_trace size_of etagOf q (objects u))). P st' \<Longrightarrow>
      after_run etagOf P step i x st u"
  shows "after_run etagOf P step i x st s"
proof (rule after_run_step [where u = u])
  have agents: "agents u = (agents s)(i := Busy c l q)" and tags: "content_tags etagOf u"
    and exec: "exec size_of etagOf p (objects s) = exec size_of etagOf q (objects u)"
    and P: "\<forall>st' \<in> insert (objects u) (set (exec_trace size_of etagOf q (objects u))). P st'"
    using assms(2,4) unfolding solo_step_def by blast+
  show "agents u = (agents s)(i := Busy c l q)" by (rule agents)
  show "P (objects u)" using P by simp
  show "after_run etagOf P step i x st u"
    using assms(3,5) agents tags exec P by simp
qed (rule assms(1))

lemma solo_run:
  fixes start :: "'c \<Rightarrow> 'l \<Rightarrow> ('b, 'a) prog"
  assumes "inj etagOf" and "content_tags etagOf s" and "agents s i = Busy c l p"
    and "exec size_of etagOf p (objects s) = (Some a, st)"
    and "\<forall>st' \<in> insert (objects s) (set (exec_trace size_of etagOf p (objects s))). P st'"
  shows "after_run etagOf P (sys_step admit enter start finish) i (Busy c l (Return a)) st s"
  using assms(2-5)
proof (induction p arbitrary: s)
  case (Return x)
  then show ?case by (auto simp: after_run_def intro!: exI [of _ s])
next
  case (Get k f)
  obtain r u where "sys_step admit enter start finish s u" "solo_step size_of etagOf i c l (Get k f) (f r) s u"
    using solo_get [OF Get.prems(1,2)] by blast
  then show ?case using Get.prems(3,4) by (rule solo_step_then) (rule Get.IH [OF rangeI])
next
  case (Put k b cond f)
  obtain r u where "sys_step admit enter start finish s u" "solo_step size_of etagOf i c l (Put k b cond f) (f r) s u"
    using solo_put [OF assms(1) Put.prems(1,2)] by blast
  then show ?case using Put.prems(3,4) by (rule solo_step_then) (rule Put.IH [OF rangeI])
next
  case (Delete k m f)
  obtain r u where "sys_step admit enter start finish s u" "solo_step size_of etagOf i c l (Delete k m f) (f r) s u"
    using solo_delete [OF Delete.prems(1,2)] by blast
  then show ?case using Delete.prems(3,4) by (rule solo_step_then) (rule Delete.IH [OF rangeI])
qed simp

lemma run_with_path:
  assumes "(\<lambda>u v. step u v \<and> objects v k \<noteq> None)\<^sup>*\<^sup>* s t" and "objects s k \<noteq> None"
  shows "run_with step k s t"
  using assms by (induction rule: rtranclp_induct) (auto intro: run_with.intros)

lemma reachable_path:
  assumes "(\<lambda>u v. step u v \<and> P (objects v))\<^sup>*\<^sup>* s t" and "reachable step s0 s"
  shows "reachable step s0 t"
  using assms by (induction rule: rtranclp_induct) (auto intro: reachable.intros)

text \<open>A whole call: from rest to its answer, and on to rest.\<close>

lemma solo_answer:
  fixes start :: "'c \<Rightarrow> 'l \<Rightarrow> ('b, 'a) prog"
  assumes "inj etagOf" and "content_tags etagOf s" and "agents s i = Rest l"
    and "admit (local \<circ> agents s) i c"
    and "exec size_of etagOf (start c (enter c l)) (objects s) = (Some a, st)"
    and "\<forall>st' \<in> insert (objects s) (set (exec_trace size_of etagOf (start c (enter c l)) (objects s))). P st'"
  shows "after_run etagOf P (sys_step admit enter start finish) i (Busy c (enter c l) (Return a)) st s"
proof (rule after_run_step)
  let ?p = "start c (enter c l)"
  let ?u = "set_agent i (Busy c (enter c l) ?p) s"
  show "sys_step admit enter start finish s ?u" using assms(3,4) by (rule sys_step.call)
  show "P (objects ?u)" "agents ?u = (agents s)(i := Busy c (enter c l) ?p)"
    using assms(6) by (simp_all add: set_agent_def)
  show "after_run etagOf P (sys_step admit enter start finish) i (Busy c (enter c l) (Return a)) st ?u"
    using assms by (intro solo_run) (auto simp: set_agent_def content_tags_def)
qed

lemma answer_then_rest:
  assumes "after_run etagOf P (sys_step admit enter start finish) i (Busy c l (Return a)) st s"
    and "P (objects s)"
  shows "after_run etagOf P (sys_step admit enter start finish) i (Rest (finish c l a)) st s"
proof -
  from assms(1) obtain v where v: "(\<lambda>u v. sys_step admit enter start finish u v \<and> P (objects v))\<^sup>*\<^sup>* s v"
      "objects v = st" "agents v = (agents s)(i := Busy c l (Return a))" "content_tags etagOf v"
    by (auto simp: after_run_def)
  let ?t = "set_agent i (Rest (finish c l a)) v"
  have "P (objects v)" using v(1) assms(2) by (induction rule: rtranclp_induct) auto
  moreover have "sys_step admit enter start finish v ?t"
    using v(3) by (intro sys_step.returned) simp
  ultimately have "(\<lambda>u v. sys_step admit enter start finish u v \<and> P (objects v))\<^sup>*\<^sup>* s ?t"
    using v(1) by (auto intro: rtranclp.rtrancl_into_rtrancl simp: set_agent_def)
  then show ?thesis
    using v(2-4) by (auto simp: after_run_def set_agent_def content_tags_def intro!: exI [of _ ?t])
qed

lemma after_run_here:
  assumes "after_run etagOf (\<lambda>st. st k \<noteq> None) step i x st s" and "objects s k \<noteq> None"
  shows "\<exists>t. run_with step k s t \<and> objects t = st \<and> agents t = (agents s)(i := x) \<and> content_tags etagOf t"
  using assms run_with_path unfolding after_run_def by blast

lemma after_run_reachable:
  assumes "after_run etagOf P step i x st s" and "reachable step s0 s"
  shows "\<exists>t. reachable step s0 t \<and> objects t = st \<and> agents t = (agents s)(i := x) \<and> content_tags etagOf t"
  using assms reachable_path unfolding after_run_def by blast

text \<open>A program that removes nothing leaves every object in place.\<close>

primrec removes_nothing :: "('b, 'a) prog \<Rightarrow> bool" where
  "removes_nothing (Return a) = True"
| "removes_nothing Cut = True"
| "removes_nothing (Get k f) = (\<forall>r. removes_nothing (f r))"
| "removes_nothing (Put k b c f) = (\<forall>r. removes_nothing (f r))"
| "removes_nothing (Delete k m f) = False"

lemma removes_nothing_bind:
  "removes_nothing p \<Longrightarrow> (\<And>a. removes_nothing (f a)) \<Longrightarrow> removes_nothing (bind p f)"
  by (induction p) auto

lemma removes_nothing_trace:
  "removes_nothing p \<Longrightarrow> s k \<noteq> None \<Longrightarrow> st \<in> set (exec_trace size_of etagOf p s) \<Longrightarrow> st k \<noteq> None"
proof (induction p arbitrary: s)
  case (Get k' f)
  then show ?case by simp (metis rangeI)
next
  case (Put k' b c f)
  show ?case
  proof (cases "conditionsMatch c (current_etag s k')")
    case True
    let ?s = "s(k' \<mapsto> (b, etagOf b))"
    have here: "?s k \<noteq> None" using Put.prems(2) by simp
    from Put.prems(3) True have "st = ?s \<or> st \<in> set (exec_trace size_of etagOf (f (Inr (etagOf b))) ?s)"
      by (simp add: sim_put_def)
    then show ?thesis
    proof
      assume later: "st \<in> set (exec_trace size_of etagOf (f (Inr (etagOf b))) ?s)"
      have "removes_nothing (f (Inr (etagOf b)))" using Put.prems(1) by simp
      then show ?thesis using here later by (rule Put.IH [OF rangeI])
    qed (use here in simp)
  next
    case False
    with Put.prems show ?thesis using Put.IH [OF rangeI, of "Inl [Precondition]" s] by (simp add: sim_put_def)
  qed
qed simp_all

end
