(* ===== verification/Control_Identity.thy ===== *)
theory Control_Identity
  imports Object_Store
begin

text \<open>
  Checkpoint sequences and VM identities: \<^verbatim>\<open>control/control.go\<close>, \<^verbatim>\<open>control/tenant.go\<close> and
  \<^verbatim>\<open>control/lineage.go\<close>.

  A sequence is an epoch and a counter in one \<^verbatim>\<open>uint64\<close>, epoch-major. An identity is a
  name, or a tenant and a name, and is part of every object key its VM has.
\<close>

unbundle bit_operations_syntax

section \<open>Sequences\<close>

definition MinimumEpoch :: u64 where [simp]: "MinimumEpoch = 1"
definition MaximumCreateEpoch :: u64 where [simp]: "MaximumCreateEpoch = 0x7FFFFFFF"
definition MaximumEpoch :: u64 where [simp]: "MaximumEpoch = 0xFFFFFFFF"
definition MaximumCounter :: u64 where [simp]: "MaximumCounter = 0xFFFFFFFF"

definition Sequence :: "u64 \<Rightarrow> u64 \<Rightarrow> u64" where
  "Sequence epoch counter = push_bit 32 epoch OR counter"

definition EpochOf :: "u64 \<Rightarrow> u64" where
  "EpochOf sequence = drop_bit 32 sequence"

definition CounterOf :: "u64 \<Rightarrow> u64" where
  "CounterOf sequence = sequence AND 0xFFFFFFFF"

definition ValidSequence :: "u64 \<Rightarrow> u64 \<Rightarrow> bool" where
  "ValidSequence epoch sequence \<longleftrightarrow>
     epoch \<ge> MinimumEpoch \<and> epoch \<le> MaximumEpoch \<and> EpochOf sequence = epoch \<and> CounterOf sequence \<ge> 1"

definition ValidCreateSequence :: "u64 \<Rightarrow> bool" where
  "ValidCreateSequence sequence \<longleftrightarrow>
     EpochOf sequence \<le> MaximumCreateEpoch \<and> ValidSequence (EpochOf sequence) sequence"

text \<open>\<^verbatim>\<open>Client.NewEpoch\<close>, from the number its entropy gives.\<close>

definition NewEpoch :: "u64 \<Rightarrow> u64" where
  "NewEpoch entropy = MinimumEpoch + entropy mod (MaximumCreateEpoch - MinimumEpoch + 1)"

lemma low_half: "(x :: u64) \<le> 0xFFFFFFFF \<Longrightarrow> take_bit 32 x = x"
proof -
  assume "x \<le> 0xFFFFFFFF"
  then have "x < 2 ^ 32" by (rule order.strict_trans1) simp
  then show ?thesis by (simp only: take_bit_eq_mask less_mask_eq)
qed

lemma Sequence_add: "counter \<le> MaximumCounter \<Longrightarrow> Sequence epoch counter = push_bit 32 epoch + counter"
  unfolding Sequence_def
  by (rule disjunctive_add [symmetric]) (metis MaximumCounter_def bit_push_bit_iff bit_take_bit_iff linorder_not_less low_half)

lemma EpochOf_mono: "s \<le> s' \<Longrightarrow> EpochOf s \<le> EpochOf s'"
  unfolding EpochOf_def word_le_nat_alt unat_drop_bit_eq drop_bit_nat_def by (rule div_le_mono)

lemma EpochOf_less: "EpochOf s < EpochOf s' \<Longrightarrow> s < s'"
  using EpochOf_mono by (meson linorder_not_le)

lemma Sequence_nonzero: "ValidSequence epoch s \<Longrightarrow> s \<noteq> 0"
  by (auto simp: ValidSequence_def CounterOf_def)


text \<open>A sequence composed from an epoch and a counter in range gives both back.\<close>

lemma EpochOf_Sequence:
  assumes "epoch \<le> MaximumEpoch" and "counter \<le> MaximumCounter"
  shows "EpochOf (Sequence epoch counter) = epoch"
proof (rule bit_word_eqI)
  fix n assume "n < LENGTH(64)"
  have e: "epoch = take_bit 32 epoch" and c: "counter = take_bit 32 counter"
    using assms low_half by simp_all
  have "\<not> bit counter (32 + n)" by (subst c) (simp add: bit_take_bit_iff)
  moreover have "bit epoch n \<Longrightarrow> n < 32" by (subst (asm) e) (simp add: bit_take_bit_iff)
  ultimately show "bit (EpochOf (Sequence epoch counter)) n \<longleftrightarrow> bit epoch n"
    by (auto simp: EpochOf_def Sequence_def bit_simps)
qed

lemma CounterOf_Sequence:
  assumes "counter \<le> MaximumCounter"
  shows "CounterOf (Sequence epoch counter) = counter"
proof (rule bit_word_eqI)
  fix n assume "n < LENGTH(64)"
  have m: "(0xFFFFFFFF :: u64) = mask 32" by (simp add: mask_eq_exp_minus_1)
  have c: "counter = take_bit 32 counter" using assms low_half by simp
  have "bit counter n \<Longrightarrow> n < 32" by (subst (asm) c) (simp add: bit_take_bit_iff)
  then show "bit (CounterOf (Sequence epoch counter)) n \<longleftrightarrow> bit counter n"
    unfolding CounterOf_def Sequence_def m by (auto simp: bit_simps)
qed

section \<open>Identities and keys\<close>

text \<open>\<^verbatim>\<open>strings.Cut(s, "/")\<close>, \<open>None\<close> when there is no slash.\<close>

abbreviation slash :: char where
  "slash \<equiv> CHR ''/''"

definition cut_slash :: "string \<Rightarrow> (string \<times> string) option" where
  "cut_slash s =
     (if slash \<in> set s
      then Some (takeWhile (\<lambda>c. c \<noteq> slash) s, tl (dropWhile (\<lambda>c. c \<noteq> slash) s)) else None)"

definition TemplatePrefix :: string where "TemplatePrefix = ''template-''"
definition TenantPrefix :: string where "TenantPrefix = ''tenants/''"
definition RecordPrefix :: string where "RecordPrefix = ''control/''"

definition SplitID :: "string \<Rightarrow> string \<times> string" where
  "SplitID ident = (case cut_slash ident of None \<Rightarrow> ([], ident) | Some (tenant, name) \<Rightarrow> (tenant, name))"

definition TenantOf :: "string \<Rightarrow> string" where
  "TenantOf ident = fst (SplitID ident)"

definition IsTemplate :: "string \<Rightarrow> bool" where
  "IsTemplate ident \<longleftrightarrow> take (length TemplatePrefix) (snd (SplitID ident)) = TemplatePrefix"

definition Public :: "string \<Rightarrow> bool" where
  "Public ident \<longleftrightarrow> TenantOf ident = [] \<and> IsTemplate ident"

definition InTenant :: "string \<Rightarrow> string \<Rightarrow> string" where
  "InTenant tenant name = (if tenant = [] then name else tenant @ slash # name)"

definition TenantNamespace :: "string \<Rightarrow> string" where
  "TenantNamespace tenant = (if tenant = [] then [] else TenantPrefix @ tenant @ ''/'')"

definition Namespace :: "string \<Rightarrow> string" where
  "Namespace ident = TenantNamespace (TenantOf ident)"

definition RecordName :: "string \<Rightarrow> string" where
  "RecordName ident = Namespace ident @ RecordPrefix @ snd (SplitID ident)"

definition tenant_char :: "char \<Rightarrow> bool" where
  "tenant_char c \<longleftrightarrow>
     (let b = of_char c :: nat in (97 \<le> b \<and> b \<le> 122) \<or> (48 \<le> b \<and> b \<le> 57) \<or> b = 45)"

definition ValidTenant :: "string \<Rightarrow> bool" where
  "ValidTenant tenant \<longleftrightarrow>
     \<not> (tenant = [] \<or> length tenant > 63 \<or> hd tenant = CHR ''-'') \<and> (\<forall>c \<in> set tenant. tenant_char c)"

text \<open>
  \<^verbatim>\<open>ContainsFunc\<close> looks at runes. Each rune it looks for is one byte below 0x80, which is no
  part of a longer rune, so it is the same to look at bytes.
\<close>

definition validName :: "string \<Rightarrow> bool" where
  "validName name \<longleftrightarrow>
     \<not> (name = [] \<or> length name > 256 \<or> name = ''.'' \<or> name = ''..'') \<and>
     \<not> (\<exists>c \<in> set name. c = slash \<or> (of_char c :: nat) < 0x20 \<or> (of_char c :: nat) = 0x7f)"

definition ValidID :: "string \<Rightarrow> bool" where
  "ValidID ident \<longleftrightarrow>
     \<not> (length ident > 256 \<or> \<not> ValidString ident) \<and>
     (case cut_slash ident of
        None \<Rightarrow> validName ident
      | Some (tenant, name) \<Rightarrow> ValidTenant tenant \<and> validName name)"

definition CutNamespace :: "string \<Rightarrow> (string \<times> string) option" where
  "CutNamespace key =
     (if take (length TenantPrefix) key = TenantPrefix
      then (case cut_slash (drop (length TenantPrefix) key) of
              None \<Rightarrow> None
            | Some (tenant, rest) \<Rightarrow> if ValidTenant tenant then Some (tenant, rest) else None)
      else Some ([], key))"

lemma cut_slash_append [simp]: "slash \<notin> set t \<Longrightarrow> cut_slash (t @ slash # n) = Some (t, n)"
  by (simp add: cut_slash_def takeWhile_append dropWhile_append)

lemma cut_slash_None: "cut_slash s = None \<longleftrightarrow> slash \<notin> set s"
  by (simp add: cut_slash_def)

lemma cut_slash_Some:
  assumes "cut_slash s = Some (t, n)"
  shows "s = t @ slash # n" and "slash \<notin> set t"
proof -
  from assms have "slash \<in> set s" and t: "t = takeWhile (\<lambda>c. c \<noteq> slash) s"
    and n: "n = tl (dropWhile (\<lambda>c. c \<noteq> slash) s)"
    by (auto simp: cut_slash_def split: if_splits)
  then have d: "dropWhile (\<lambda>c. c \<noteq> slash) s \<noteq> []" by (simp add: dropWhile_eq_Nil_conv)
  then have "dropWhile (\<lambda>c. c \<noteq> slash) s = slash # n"
    unfolding n using hd_dropWhile [OF d] by (metis list.collapse)
  then show "s = t @ slash # n" unfolding t by (metis takeWhile_dropWhile_id)
  show "slash \<notin> set t" unfolding t by (auto dest: set_takeWhileD)
qed

lemma ValidTenant_nonempty: "ValidTenant t \<Longrightarrow> t \<noteq> []"
  by (simp add: ValidTenant_def)

text \<open>A valid identity is a name, or a tenant's name and a name, with no further slash.\<close>

lemma ValidID_cases:
  assumes "ValidID ident"
  obtains (plain) "SplitID ident = ([], ident)" "slash \<notin> set ident"
  | (tenanted) t n where "ident = t @ slash # n" "SplitID ident = (t, n)" "ValidTenant t" "slash \<notin> set t"
proof (cases "cut_slash ident")
  case None
  moreover from this have "slash \<notin> set ident" by (simp add: cut_slash_None)
  ultimately show ?thesis by (intro plain) (simp_all add: SplitID_def)
next
  case (Some p)
  then obtain t n where tn: "cut_slash ident = Some (t, n)" by (cases p) auto
  with assms show ?thesis
    by (intro tenanted [of t n]) (auto simp: SplitID_def ValidID_def dest: cut_slash_Some)
qed

lemma CutNamespace_RecordName:
  assumes "ValidID ident"
  shows "CutNamespace (RecordName ident) = Some (TenantOf ident, RecordPrefix @ snd (SplitID ident))"
  using assms
proof (cases rule: ValidID_cases)
  case plain
  then show ?thesis
    by (simp add: CutNamespace_def RecordName_def Namespace_def TenantNamespace_def TenantOf_def
        TenantPrefix_def RecordPrefix_def)
next
  case (tenanted t n)
  then have "t \<noteq> []" by (auto dest: ValidTenant_nonempty)
  with tenanted show ?thesis
    by (simp add: CutNamespace_def RecordName_def Namespace_def TenantNamespace_def TenantOf_def
        TenantPrefix_def)
qed

lemma InTenant_SplitID: "ValidID ident \<Longrightarrow> InTenant (TenantOf ident) (snd (SplitID ident)) = ident"
  by (erule ValidID_cases) (auto simp: InTenant_def TenantOf_def dest: ValidTenant_nonempty)

lemma RecordName_inject:
  assumes "ValidID a" and "ValidID b" and "RecordName a = RecordName b"
  shows "a = b"
proof -
  have "(TenantOf a, RecordPrefix @ snd (SplitID a)) = (TenantOf b, RecordPrefix @ snd (SplitID b))"
    using CutNamespace_RecordName [OF assms(1)] CutNamespace_RecordName [OF assms(2)] assms(3) by simp
  then have same: "TenantOf a = TenantOf b" "snd (SplitID a) = snd (SplitID b)" by auto
  have "a = InTenant (TenantOf a) (snd (SplitID a))" by (rule InTenant_SplitID [OF assms(1), symmetric])
  also have "\<dots> = b" unfolding same by (rule InTenant_SplitID [OF assms(2)])
  finally show ?thesis .
qed

end
