(* ===== verification/Control_Record.thy ===== *)
theory Control_Record
  imports Control_Identity
begin

text \<open>
  A VM's control record and its wire format: \<^verbatim>\<open>control/record.go\<close>.

  The generated protobuf code is a parameter, \<open>wire\<close>: what \<^verbatim>\<open>proto.Marshal\<close> and
  \<^verbatim>\<open>proto.Unmarshal\<close> do with a message, and the size of the bytes. \<open>wire_ok\<close> is the law
  the code relies on, that a message read back is the message written. A message has its
  fields as options, because the source asks for the presence of each, and the bytes of the
  unknown fields the parser found.

  A \<^verbatim>\<open>time.Time\<close> is the \<^verbatim>\<open>int64\<close> its \<^verbatim>\<open>UnixNano\<close> is, which is all of it
  that a record holds.
\<close>

section \<open>Records\<close>

record Journal =
  journal_disk :: identity
  journal_generation :: u64
  journal_epoch :: u64
  journal_covered :: u64

record Kept =
  kept_sequence :: u64
  kept_time :: "64 word"
  kept_state :: bool

record Record =
  rec_vm :: string
  rec_epoch :: u64
  rec_nonce :: bytes
  rec_selected :: u64
  rec_created :: bool
  rec_pinned :: "u64 list"
  rec_kept :: "Kept list"
  rec_journals :: "Journal list"

record Ref =
  ref_vm :: string
  ref_sequence :: u64

definition formatVersion :: u32 where [simp]: "formatVersion = 6"
definition nonceSize :: nat where [simp]: "nonceSize = 16"
definition maximumRecordSize :: int where [simp]: "maximumRecordSize = 1048576"
definition MaximumPins :: nat where [simp]: "MaximumPins = 4096"
definition MaximumKept :: nat where [simp]: "MaximumKept = 4096"
definition MaximumJournals :: nat where [simp]: "MaximumJournals = 2"

definition IsPinned :: "Record \<Rightarrow> u64 \<Rightarrow> bool" where
  "IsPinned r sequence \<longleftrightarrow> sequence \<in> set (rec_pinned r)"

definition IsKept :: "Record \<Rightarrow> u64 \<Rightarrow> bool" where
  "IsKept r sequence \<longleftrightarrow> (\<exists>kept \<in> set (rec_kept r). kept_sequence kept = sequence)"

definition keptSequences :: "Record \<Rightarrow> u64 list" where
  "keptSequences r = map kept_sequence (rec_kept r)"

definition Protected :: "Record \<Rightarrow> u64 list" where
  "Protected r = remdups_adj (sort (rec_pinned r @ keptSequences r))"

definition admits :: "Record \<Rightarrow> u64 \<Rightarrow> error + unit" where
  "admits r sequence =
     (if \<not> IsPinned r sequence \<and> length (rec_pinned r) \<ge> MaximumPins then Inl [TooManyPins] else Inr ())"

definition withPin :: "Record \<Rightarrow> u64 \<Rightarrow> u64 list" where
  "withPin r sequence =
     (if IsPinned r sequence then rec_pinned r
      else insert_at (insertion_point (\<lambda>existing. existing > sequence) (rec_pinned r)) sequence (rec_pinned r))"

definition withKept :: "Record \<Rightarrow> Kept \<Rightarrow> error + Kept list" where
  "withKept r kept =
     (if IsKept r (kept_sequence kept) then Inr (rec_kept r)
      else if length (rec_kept r) \<ge> MaximumKept then Inl [TooManyKept]
      else Inr (insert_at
        (insertion_point (\<lambda>existing. kept_sequence existing > kept_sequence kept) (rec_kept r)) kept (rec_kept r)))"

definition withoutKept :: "Record \<Rightarrow> u64 \<Rightarrow> Kept list" where
  "withoutKept r sequence = filter (\<lambda>kept. kept_sequence kept \<noteq> sequence) (rec_kept r)"

definition Record_equal :: "Record \<Rightarrow> Record \<Rightarrow> bool" where
  "Record_equal r other \<longleftrightarrow>
     rec_vm r = rec_vm other \<and> rec_epoch r = rec_epoch other \<and> rec_nonce r = rec_nonce other \<and>
     rec_selected r = rec_selected other \<and> rec_created r = rec_created other \<and>
     rec_pinned r = rec_pinned other \<and>
     list_all2 (\<lambda>a b. kept_sequence a = kept_sequence b \<and> kept_time a = kept_time b \<and>
       kept_state a = kept_state b) (rec_kept r) (rec_kept other) \<and>
     rec_journals r = rec_journals other"

definition mine :: "Record \<Rightarrow> u64 \<Rightarrow> bytes \<Rightarrow> bool" where
  "mine r epoch nonce \<longleftrightarrow> rec_epoch r = epoch \<and> rec_nonce r = nonce"

fun ascending :: "u64 list \<Rightarrow> bool" where
  "ascending [] = True"
| "ascending [s] = (s \<noteq> 0)"
| "ascending (s # t # rest) = (s \<noteq> 0 \<and> s < t \<and> ascending (t # rest))"

fun journals_ascending :: "u64 \<Rightarrow> Journal list \<Rightarrow> bool" where
  "journals_ascending epoch [] = True"
| "journals_ascending epoch (j # rest) =
     (\<not> (journal_disk j = 0 \<or> journal_epoch j < MinimumEpoch \<or> journal_epoch j > epoch) \<and>
      (case rest of [] \<Rightarrow> True | k # _ \<Rightarrow> journal_epoch j < journal_epoch k) \<and>
      journals_ascending epoch rest)"

definition validJournals :: "Record \<Rightarrow> bool" where
  "validJournals r \<longleftrightarrow>
     length (rec_journals r) \<le> MaximumJournals \<and> journals_ascending (rec_epoch r) (rec_journals r)"

definition Record_valid :: "Record \<Rightarrow> bool" where
  "Record_valid r \<longleftrightarrow>
     ValidID (rec_vm r) \<and> length (rec_nonce r) = nonceSize \<and>
     rec_epoch r \<ge> MinimumEpoch \<and> rec_epoch r \<le> MaximumEpoch \<and> rec_selected r \<noteq> 0 \<and>
     length (rec_pinned r) \<le> MaximumPins \<and> length (rec_kept r) \<le> MaximumKept \<and>
     ascending (rec_pinned r) \<and> ascending (keptSequences r) \<and> validJournals r"

section \<open>The wire format\<close>

text \<open>The messages of \<^verbatim>\<open>control/proto/sproutfs/control/v1/control.proto\<close>.\<close>

record kept_msg =
  km_sequence :: "u64 option"
  km_time :: "64 word option"
  km_state :: "bool option"
  km_unknown :: bytes

record journal_msg =
  jm_disk :: bytes
  jm_generation :: "u64 option"
  jm_epoch :: "u64 option"
  jm_covered :: "u64 option"
  jm_unknown :: bytes

record control_msg =
  msg_format_version :: "u32 option"
  msg_vm_id :: "string option"
  msg_epoch :: "u64 option"
  msg_writer_nonce :: "bytes option"
  msg_selected :: "u64 option"
  msg_created :: "bool option"
  msg_pinned :: "u64 list"
  msg_kept :: "kept_msg list"
  msg_journals :: "journal_msg list"
  msg_unknown :: bytes

record ('m, 'b) wire =
  marshal_msg :: "'m \<Rightarrow> 'b option"
  unmarshal_msg :: "'b \<Rightarrow> 'm option"
  blob_size :: "'b \<Rightarrow> nat"

definition wire_ok :: "('m, 'b) wire \<Rightarrow> bool" where
  "wire_ok w \<longleftrightarrow> (\<forall>m b. marshal_msg w m = Some b \<longrightarrow> unmarshal_msg w b = Some m)"

definition build_kept :: "Kept \<Rightarrow> kept_msg" where
  "build_kept k =
     \<lparr>km_sequence = Some (kept_sequence k), km_time = Some (kept_time k),
      km_state = Some (kept_state k), km_unknown = []\<rparr>"

definition build_journal :: "Journal \<Rightarrow> journal_msg" where
  "build_journal j =
     \<lparr>jm_disk = identity_bytes (journal_disk j), jm_generation = Some (journal_generation j),
      jm_epoch = Some (journal_epoch j), jm_covered = Some (journal_covered j), jm_unknown = []\<rparr>"

definition build_record :: "Record \<Rightarrow> control_msg" where
  "build_record r =
     \<lparr>msg_format_version = Some formatVersion, msg_vm_id = Some (rec_vm r),
      msg_epoch = Some (rec_epoch r), msg_writer_nonce = Some (rec_nonce r),
      msg_selected = Some (rec_selected r), msg_created = Some (rec_created r),
      msg_pinned = rec_pinned r, msg_kept = map build_kept (rec_kept r),
      msg_journals = map build_journal (rec_journals r), msg_unknown = []\<rparr>"

definition Record_marshal :: "(control_msg, 'b) wire \<Rightarrow> Record \<Rightarrow> error + 'b" where
  "Record_marshal w r =
     (if \<not> Record_valid r then Inl [InvalidConfig]
      else case marshal_msg w (build_record r) of
        None \<Rightarrow> Inl [Other 0]
      | Some data \<Rightarrow>
          if int (blob_size w data) > maximumRecordSize then Inl [InvalidConfig] else Inr data)"

definition read_kept :: "kept_msg \<Rightarrow> Kept option" where
  "read_kept m =
     (if km_unknown m \<noteq> [] then None
      else case (km_sequence m, km_time m, km_state m) of
        (Some s, Some t, Some v) \<Rightarrow> Some \<lparr>kept_sequence = s, kept_time = t, kept_state = v\<rparr>
      | _ \<Rightarrow> None)"

definition read_journal :: "journal_msg \<Rightarrow> Journal option" where
  "read_journal m =
     (if jm_unknown m \<noteq> [] \<or> length (jm_disk m) \<noteq> 16 then None
      else case (jm_generation m, jm_epoch m, jm_covered m) of
        (Some g, Some e, Some c) \<Rightarrow>
          Some \<lparr>journal_disk = identity_of (jm_disk m), journal_generation = g,
                journal_epoch = e, journal_covered = c\<rparr>
      | _ \<Rightarrow> None)"

definition read_record :: "control_msg \<Rightarrow> Record option" where
  "read_record m =
     (case (msg_vm_id m, msg_epoch m, msg_writer_nonce m, msg_selected m, msg_created m,
            those (map read_kept (msg_kept m)), those (map read_journal (msg_journals m))) of
        (Some vm, Some epoch, Some nonce, Some selected, Some created, Some kept, Some journals) \<Rightarrow>
          Some \<lparr>rec_vm = vm, rec_epoch = epoch, rec_nonce = nonce, rec_selected = selected,
                rec_created = created, rec_pinned = msg_pinned m, rec_kept = kept, rec_journals = journals\<rparr>
      | _ \<Rightarrow> None)"

definition unmarshalRecord :: "(control_msg, 'b) wire \<Rightarrow> string \<Rightarrow> 'b \<Rightarrow> error + Record" where
  "unmarshalRecord w vm data =
     (case unmarshal_msg w data of
        None \<Rightarrow> Inl (errors_Join [Corrupt] [Other 0])
      | Some m \<Rightarrow>
          if msg_format_version m \<noteq> Some formatVersion then Inl [Corrupt]
          else if msg_unknown m \<noteq> [] then Inl [Corrupt]
          else case read_record m of
            None \<Rightarrow> Inl [Corrupt]
          | Some r \<Rightarrow> if rec_vm r \<noteq> vm \<or> \<not> Record_valid r then Inl [Corrupt] else Inr r)"

section \<open>What a record keeps\<close>

lemma Record_equal_iff: "Record_equal r other \<longleftrightarrow> r = other"
proof -
  have "(\<lambda>a b. kept_sequence a = kept_sequence b \<and> kept_time a = kept_time b \<and>
      kept_state a = kept_state b) = ((=) :: Kept \<Rightarrow> Kept \<Rightarrow> bool)"
    by (auto simp: fun_eq_iff)
  then show ?thesis by (auto simp: Record_equal_def list.rel_eq)
qed

lemma ascending_iff: "ascending xs \<longleftrightarrow> 0 \<notin> set xs \<and> sorted_wrt (<) xs"
  by (induction xs rule: ascending.induct) (auto dest: order.strict_trans)

lemma journals_ascending_iff:
  "journals_ascending epoch js \<longleftrightarrow>
     sorted_wrt (<) (map journal_epoch js) \<and>
     (\<forall>j \<in> set js. journal_disk j \<noteq> 0 \<and> MinimumEpoch \<le> journal_epoch j \<and> journal_epoch j \<le> epoch)"
proof (induction js)
  case (Cons j js)
  then show ?case by (cases js) (auto simp del: MinimumEpoch_def simp: not_less dest: order.strict_trans)
qed simp

lemma IsKept_keptSequences: "IsKept r s \<longleftrightarrow> s \<in> set (keptSequences r)"
  by (auto simp: IsKept_def keptSequences_def)

lemma set_withPin: "set (withPin r s) = insert s (set (rec_pinned r))"
  by (auto simp: withPin_def IsPinned_def)

lemma length_withPin:
  "length (withPin r s) = (if IsPinned r s then length (rec_pinned r) else Suc (length (rec_pinned r)))"
  by (simp add: withPin_def)

lemma ascending_withPin:
  assumes "ascending (rec_pinned r)" and "s \<noteq> 0"
  shows "ascending (withPin r s)"
proof (cases "IsPinned r s")
  case True
  with assms(1) show ?thesis by (simp add: withPin_def)
next
  case False
  then have "sorted_wrt (<) (withPin r s)"
    using assms(1) strict_sorted_insert_at [of "rec_pinned r" s]
    by (simp add: withPin_def IsPinned_def ascending_iff)
  moreover have "0 \<notin> set (withPin r s)" using assms by (auto simp: set_withPin ascending_iff)
  ultimately show ?thesis by (simp add: ascending_iff)
qed

lemma withKept_Inr:
  assumes "withKept r k = Inr ks"
  shows "IsKept r (kept_sequence k) \<and> ks = rec_kept r \<or>
    \<not> IsKept r (kept_sequence k) \<and> length (rec_kept r) < MaximumKept \<and>
    map kept_sequence ks = insert_at (insertion_point (\<lambda>s. s > kept_sequence k) (keptSequences r))
      (kept_sequence k) (keptSequences r) \<and> set ks = insert k (set (rec_kept r)) \<and>
    length ks = Suc (length (rec_kept r))"
  using assms
  by (auto simp: withKept_def map_insert_at keptSequences_def insertion_point_map comp_def split: if_splits)

lemma ascending_withKept:
  assumes "withKept r k = Inr ks" and "ascending (keptSequences r)" and "kept_sequence k \<noteq> 0"
  shows "ascending (map kept_sequence ks)"
proof (cases "IsKept r (kept_sequence k)")
  case True
  with assms(1,2) show ?thesis by (simp add: withKept_def keptSequences_def)
next
  case False
  then have ks: "map kept_sequence ks =
      insert_at (insertion_point (\<lambda>s. s > kept_sequence k) (keptSequences r)) (kept_sequence k) (keptSequences r)"
    using withKept_Inr [OF assms(1)] by blast
  have "kept_sequence k \<notin> set (keptSequences r)" using False by (simp add: IsKept_keptSequences)
  then show ?thesis
    unfolding ks ascending_iff
    using assms(2,3) strict_sorted_insert_at [of "keptSequences r" "kept_sequence k"]
    by (simp add: ascending_iff)
qed

lemma length_withKept:
  "withKept r k = Inr ks \<Longrightarrow> length (rec_kept r) \<le> MaximumKept \<Longrightarrow> length ks \<le> MaximumKept"
  by (auto simp: withKept_def split: if_splits)

lemma ascending_withoutKept:
  "ascending (keptSequences r) \<Longrightarrow> ascending (map kept_sequence (withoutKept r s))"
  by (auto simp: ascending_iff keptSequences_def withoutKept_def sorted_wrt_map sorted_wrt_filter)

lemma withoutKept_IsKept:
  "(\<exists>k \<in> set (withoutKept r s). kept_sequence k = t) \<longleftrightarrow> t \<noteq> s \<and> IsKept r t"
  by (auto simp: withoutKept_def IsKept_def)

lemma set_Protected: "set (Protected r) = {s. IsPinned r s \<or> IsKept r s}"
  by (auto simp: Protected_def IsPinned_def IsKept_keptSequences)

lemma Protected_ascending: "sorted_wrt (<) (Protected r)"
  unfolding Protected_def by (intro strict_sorted_remdups_adj) simp

section \<open>What is written is what is read\<close>

lemma those_map_Some: "(\<And>x. f (g x) = Some x) \<Longrightarrow> those (map f (map g xs)) = Some xs"
  by (induction xs) auto

lemma read_kept_build: "read_kept (build_kept k) = Some k"
  by (simp add: read_kept_def build_kept_def)

lemma read_journal_build: "read_journal (build_journal j) = Some j"
  by (simp add: read_journal_def build_journal_def)

lemma read_record_build: "read_record (build_record r) = Some r"
  using those_map_Some [of read_kept build_kept, OF read_kept_build, of "rec_kept r"]
    those_map_Some [of read_journal build_journal, OF read_journal_build, of "rec_journals r"]
  by (simp add: read_record_def build_record_def)

lemma marshal_valid: "Record_marshal w r = Inr b \<Longrightarrow> Record_valid r"
  by (simp add: Record_marshal_def split: if_splits)

lemma marshal_size: "Record_marshal w r = Inr b \<Longrightarrow> int (blob_size w b) \<le> maximumRecordSize"
  by (auto simp: Record_marshal_def split: if_splits option.splits)

lemma unmarshal_marshal:
  assumes "wire_ok w" and "Record_marshal w r = Inr b"
  shows "unmarshalRecord w (rec_vm r) b = Inr r"
proof -
  from assms(2) have m: "marshal_msg w (build_record r) = Some b" and v: "Record_valid r"
    by (auto simp: Record_marshal_def split: if_splits option.splits)
  with assms(1) have "unmarshal_msg w b = Some (build_record r)" by (simp add: wire_ok_def)
  with v show ?thesis
    by (simp add: unmarshalRecord_def read_record_build) (simp add: build_record_def)
qed

lemma unmarshal_valid: "unmarshalRecord w vm b = Inr r \<Longrightarrow> rec_vm r = vm \<and> Record_valid r"
  by (auto simp: unmarshalRecord_def split: option.splits if_splits)

end
