(* ===== verification/Control_Client.thy ===== *)
theory Control_Client
  imports Control_Record
begin

text \<open>
  The operations on control records: \<^verbatim>\<open>control/client.go\<close>, each as the program of the
  requests it makes.

  A loop carries fuel, the number of times it may still go round; every finite piece of its
  run is the piece of a run with enough of it. The random nonce, and the time a kept
  checkpoint is dated with, are arguments. The delay and the probes of the simulator are
  left out: a delay that fails is a write that was answered with an error and never landed.

  A handle is its record of state, passed in and returned. \<^verbatim>\<open>Handle.write\<close> admits one
  control-record write of a handle at a time, so a handle belongs to one agent below, which
  makes one call after another.
\<close>

section \<open>Requests on one record\<close>

record 'b client =
  client_prefix :: string
  client_wire :: "(control_msg, 'b) wire"

definition client_key :: "'b client \<Rightarrow> string \<Rightarrow> error + string" where
  "client_key c vm =
     (if \<not> ValidID vm then Inl [InvalidConfig] else NewObjectKey (client_prefix c @ RecordName vm))"

definition NewClient :: "'s option \<Rightarrow> string \<Rightarrow> (control_msg, 'b) wire \<Rightarrow> error + 'b client" where
  "NewClient store objectPrefix w =
     (if store = None then Inl [InvalidConfig]
      else let prefix = (if objectPrefix \<noteq> [] \<and> last objectPrefix \<noteq> slash
                         then objectPrefix @ [slash] else objectPrefix);
               c = \<lparr>client_prefix = prefix, client_wire = w\<rparr>
           in case client_key c ''vm'' of Inl _ \<Rightarrow> Inl [InvalidConfig] | Inr _ \<Rightarrow> Inr c)"

definition client_read :: "'b client \<Rightarrow> string \<Rightarrow> ('b, error + Record \<times> etag) prog" where
  "client_read c vm =
     (case client_key c vm of
        Inl e \<Rightarrow> Return (Inl e)
      | Inr key \<Rightarrow>
          bind (ReadObject (blob_size (client_wire c)) key 1 maximumRecordSize [Corrupt]) (\<lambda>reply. Return
            (case reply of
               Inl e \<Rightarrow> Inl e
             | Inr (data, etag) \<Rightarrow>
                 (case unmarshalRecord (client_wire c) vm data of
                    Inl e \<Rightarrow> Inl e
                  | Inr r \<Rightarrow> Inr (r, etag)))))"

definition Read :: "'b client \<Rightarrow> string \<Rightarrow> ('b, error + Record) prog" where
  "Read c vm = bind (client_read c vm) (\<lambda>reply. Return (map_sum id fst reply))"

definition client_put :: "'b client \<Rightarrow> Record \<Rightarrow> put_conditions \<Rightarrow> ('b, error + etag) prog" where
  "client_put c r conditions =
     (case client_key c (rec_vm r) of
        Inl e \<Rightarrow> Return (Inl e)
      | Inr key \<Rightarrow>
          (case Record_marshal (client_wire c) r of
             Inl e \<Rightarrow> Return (Inl e)
           | Inr data \<Rightarrow> Put key data conditions Return))"

section \<open>Taking a VM\<close>

record Handle =
  h_vm :: string
  h_epoch :: u64
  h_record :: Record
  h_etag :: etag
  h_fenced :: bool
  h_closed :: bool

definition newHandle :: "Record \<Rightarrow> etag \<Rightarrow> Handle" where
  "newHandle r etag =
     \<lparr>h_vm = rec_vm r, h_epoch = rec_epoch r, h_record = r, h_etag = etag,
      h_fenced = False, h_closed = False\<rparr>"

definition Create ::
  "'b client \<Rightarrow> string \<Rightarrow> u64 \<Rightarrow> bool \<Rightarrow> bytes \<Rightarrow> ('b, error + Handle) prog" where
  "Create c vm selected published nonce =
     (if \<not> ValidID vm \<or> \<not> ValidCreateSequence selected then Return (Inl [InvalidConfig])
      else
        let epoch = EpochOf selected;
            r = \<lparr>rec_vm = vm, rec_epoch = epoch, rec_nonce = nonce, rec_selected = selected,
                 rec_created = published, rec_pinned = [], rec_kept = [], rec_journals = []\<rparr>
        in bind (client_put c r absent) (\<lambda>reply.
             case reply of
               Inr etag \<Rightarrow> Return (Inr (newHandle r etag))
             | Inl err \<Rightarrow>
                 bind (client_read c vm) (\<lambda>reread. Return
                   (case reread of
                      Inl readErr \<Rightarrow>
                        if errors_Is err Precondition
                        then Inl (errors_Join [Exists] (errors_Join err readErr))
                        else Inl (errors_Join err readErr)
                    | Inr (observed, observedETag) \<Rightarrow>
                        if mine observed epoch nonce then Inr (newHandle observed observedETag)
                        else Inl [Exists]))))"

text \<open>The record an open writes over the one it read.\<close>

definition open_next :: "Record \<Rightarrow> Journal option \<Rightarrow> bytes \<Rightarrow> error + Record" where
  "open_next current joining nonce =
     (let next = current\<lparr>rec_epoch := rec_epoch current + 1, rec_nonce := nonce\<rparr>
      in case joining of
           None \<Rightarrow> Inr next
         | Some journal \<Rightarrow>
             if length (rec_journals current) \<ge> MaximumJournals then Inl [TooManyJournals]
             else Inr (next\<lparr>rec_journals := rec_journals next @ [journal\<lparr>journal_epoch := rec_epoch next\<rparr>]\<rparr>))"

primrec open_loop ::
  "'b client \<Rightarrow> string \<Rightarrow> u64 \<Rightarrow> Journal option \<Rightarrow> bytes \<Rightarrow> nat \<Rightarrow> ('b, error + Handle) prog" where
  "open_loop c vm epoch joining nonce 0 = Cut"
| "open_loop c vm epoch joining nonce (Suc n) =
     bind (client_read c vm) (\<lambda>reply.
       case reply of
         Inl e \<Rightarrow> Return (Inl e)
       | Inr (current, etag) \<Rightarrow>
           if epoch \<noteq> 0 \<and> rec_epoch current \<noteq> epoch then Return (Inl [Moved])
           else if rec_epoch current \<ge> MaximumEpoch then Return (Inl [EpochExhausted])
           else (case open_next current joining nonce of
             Inl e \<Rightarrow> Return (Inl e)
           | Inr next \<Rightarrow>
               bind (client_put c next (matching etag)) (\<lambda>written.
                 case written of
                   Inr nextETag \<Rightarrow> Return (Inr (newHandle next nextETag))
                 | Inl err \<Rightarrow>
                     if errors_Is err Precondition then open_loop c vm epoch joining nonce n
                     else bind (client_read c vm) (\<lambda>reread.
                       case reread of
                         Inl readErr \<Rightarrow> Return (Inl (errors_Join err readErr))
                       | Inr (observed, observedETag) \<Rightarrow>
                           if mine observed (rec_epoch next) nonce
                           then Return (Inr (newHandle observed observedETag))
                           else if rec_epoch observed \<ge> rec_epoch next
                           then open_loop c vm epoch joining nonce n
                           else Return (Inl err)))))"

definition client_open ::
  "'b client \<Rightarrow> string \<Rightarrow> u64 \<Rightarrow> Journal option \<Rightarrow> bytes \<Rightarrow> nat \<Rightarrow> ('b, error + Handle) prog" where
  "client_open c vm epoch joining nonce fuel =
     (if \<not> ValidID vm then Return (Inl [InvalidConfig])
      else open_loop c vm epoch joining nonce fuel)"

definition OpenAfter ::
  "'b client \<Rightarrow> string \<Rightarrow> u64 \<Rightarrow> bytes \<Rightarrow> nat \<Rightarrow> ('b, error + Handle) prog" where
  "OpenAfter c vm epoch nonce fuel = client_open c vm epoch None nonce fuel"

definition Open :: "'b client \<Rightarrow> string \<Rightarrow> bytes \<Rightarrow> nat \<Rightarrow> ('b, error + Handle) prog" where
  "Open c vm nonce fuel = OpenAfter c vm 0 nonce fuel"

definition OpenMigration ::
  "'b client \<Rightarrow> string \<Rightarrow> Journal \<Rightarrow> bytes \<Rightarrow> nat \<Rightarrow> ('b, error + Handle) prog" where
  "OpenMigration c vm journal nonce fuel =
     (if journal_disk journal = 0 \<or> journal_epoch journal \<noteq> 0 then Return (Inl [InvalidConfig])
      else client_open c vm 0 (Some journal) nonce fuel)"

section \<open>Removing, pinning and releasing without the epoch\<close>

definition client_Delete :: "'b client \<Rightarrow> string \<Rightarrow> ('b, error + unit) prog" where
  "client_Delete c vm =
     (case client_key c vm of
        Inl e \<Rightarrow> Return (Inl e)
      | Inr key \<Rightarrow> Delete key None Return)"

primrec Remove_loop :: "'b client \<Rightarrow> string \<Rightarrow> string \<Rightarrow> nat \<Rightarrow> ('b, error + Record) prog" where
  "Remove_loop c vm key 0 = Cut"
| "Remove_loop c vm key (Suc n) =
     bind (client_read c vm) (\<lambda>reply.
       case reply of
         Inl e \<Rightarrow> Return (Inl e)
       | Inr (current, etag) \<Rightarrow>
           Delete key (Some etag) (\<lambda>deleted.
             case deleted of
               Inr _ \<Rightarrow> Return (Inr current)
             | Inl err \<Rightarrow>
                 if errors_Is err Precondition then Remove_loop c vm key n
                 else bind (client_read c vm) (\<lambda>reread.
                   case reread of
                     Inl readErr \<Rightarrow>
                       if errors_Is readErr NotFound then Return (Inr current)
                       else Return (Inl (errors_Join err readErr))
                   | Inr (_, observedETag) \<Rightarrow>
                       if observedETag = etag then Return (Inl err) else Remove_loop c vm key n)))"

definition Remove :: "'b client \<Rightarrow> string \<Rightarrow> nat \<Rightarrow> ('b, error + Record) prog" where
  "Remove c vm fuel =
     (case client_key c vm of
        Inl e \<Rightarrow> Return (Inl e)
      | Inr key \<Rightarrow> Remove_loop c vm key fuel)"

text \<open>The checks a pin without the epoch makes of the record it read.\<close>

definition pin_check :: "Record \<Rightarrow> u64 \<Rightarrow> error + unit" where
  "pin_check current wanted =
     (if (wanted \<noteq> rec_selected current \<or> \<not> rec_created current) \<and> \<not> IsKept current wanted
      then Inl [NotPublished] else admits current wanted)"

primrec Pin_loop :: "'b client \<Rightarrow> string \<Rightarrow> u64 \<Rightarrow> nat \<Rightarrow> ('b, error + Ref) prog" where
  "Pin_loop c vm sequence 0 = Cut"
| "Pin_loop c vm sequence (Suc n) =
     bind (client_read c vm) (\<lambda>reply.
       case reply of
         Inl e \<Rightarrow> Return (Inl e)
       | Inr (current, etag) \<Rightarrow>
           let wanted = (if sequence = 0 then rec_selected current else sequence);
               pinned = \<lparr>ref_vm = vm, ref_sequence = wanted\<rparr>
           in if IsPinned current wanted then Return (Inr pinned)
              else (case pin_check current wanted of
                Inl e \<Rightarrow> Return (Inl e)
              | Inr _ \<Rightarrow>
                  bind (client_put c (current\<lparr>rec_pinned := withPin current wanted\<rparr>) (matching etag)) (\<lambda>written.
                    case written of
                      Inr _ \<Rightarrow> Return (Inr pinned)
                    | Inl err \<Rightarrow>
                        if errors_Is err Precondition then Pin_loop c vm sequence n
                        else bind (client_read c vm) (\<lambda>reread.
                          case reread of
                            Inl readErr \<Rightarrow> Return (Inl (errors_Join err readErr))
                          | Inr (observed, _) \<Rightarrow>
                              if IsPinned observed wanted then Return (Inr pinned)
                              else if Record_equal observed current then Return (Inl err)
                              else Pin_loop c vm sequence n))))"

definition Pin :: "'b client \<Rightarrow> string \<Rightarrow> u64 \<Rightarrow> nat \<Rightarrow> ('b, error + Ref) prog" where
  "Pin c vm sequence fuel =
     (if \<not> ValidID vm then Return (Inl [InvalidConfig]) else Pin_loop c vm sequence fuel)"

primrec Release_loop :: "'b client \<Rightarrow> string \<Rightarrow> u64 \<Rightarrow> nat \<Rightarrow> ('b, error + Record) prog" where
  "Release_loop c vm sequence 0 = Cut"
| "Release_loop c vm sequence (Suc n) =
     bind (client_read c vm) (\<lambda>reply.
       case reply of
         Inl e \<Rightarrow> Return (Inl e)
       | Inr (current, etag) \<Rightarrow>
           if \<not> IsKept current sequence then Return (Inl [NotKept])
           else if IsPinned current sequence then Return (Inl [Forked])
           else let next = current\<lparr>rec_kept := withoutKept current sequence\<rparr>
             in bind (client_put c next (matching etag)) (\<lambda>written.
                  case written of
                    Inr _ \<Rightarrow> Return (Inr next)
                  | Inl err \<Rightarrow>
                      if errors_Is err Precondition then Release_loop c vm sequence n
                      else bind (client_read c vm) (\<lambda>reread.
                        case reread of
                          Inl readErr \<Rightarrow> Return (Inl (errors_Join err readErr))
                        | Inr (observed, _) \<Rightarrow>
                            if \<not> IsKept observed sequence then Return (Inr observed)
                            else if Record_equal observed current then Return (Inl err)
                            else Release_loop c vm sequence n)))"

definition Release :: "'b client \<Rightarrow> string \<Rightarrow> u64 \<Rightarrow> nat \<Rightarrow> ('b, error + Record) prog" where
  "Release c vm sequence fuel =
     (if \<not> ValidID vm \<or> sequence = 0 then Return (Inl [InvalidConfig])
      else Release_loop c vm sequence fuel)"

section \<open>Handles\<close>

text \<open>
  The source's Close takes only the handle's inner lock and may run while a write of the handle is
  under way. Here the calls of one handle come one after the other: a close that would make the next
  try of a write under way answer ErrClosed comes after that write instead.
\<close>

definition Handle_Close :: "Handle \<Rightarrow> Handle" where
  "Handle_Close h = h\<lparr>h_closed := True\<rparr>"

definition Handle_begin :: "Handle \<Rightarrow> error + Record" where
  "Handle_begin h =
     (if h_fenced h then Inl [Fenced] else if h_closed h then Inl [Closed] else Inr (h_record h))"

definition settle :: "Handle \<Rightarrow> Record option \<Rightarrow> etag \<Rightarrow> Handle" where
  "settle h outcome etag =
     (case outcome of
        None \<Rightarrow> h\<lparr>h_fenced := True, h_etag := etag\<rparr>
      | Some r \<Rightarrow> h\<lparr>h_etag := etag, h_record := r\<rparr>)"

definition replace :: "'b client \<Rightarrow> Handle \<Rightarrow> Record \<Rightarrow> ('b, Handle \<times> (error + Record)) prog" where
  "replace c h next =
     bind (client_put c next (matching (h_etag h))) (\<lambda>written.
       case written of
         Inr etag \<Rightarrow> Return (settle h (Some next) etag, Inr next)
       | Inl err \<Rightarrow>
           bind (client_read c (rec_vm next)) (\<lambda>reread. Return
             (case reread of
                Inl readErr \<Rightarrow> (h, Inl (errors_Join err readErr))
              | Inr (observed, observedETag) \<Rightarrow>
                  if Record_equal observed next
                  then (settle h (Some observed) observedETag, Inr observed)
                  else if Record_equal observed (h_record h)
                  then (settle h (Some (h_record h)) observedETag, Inl err)
                  else if mine observed (h_epoch h) (rec_nonce next)
                  then (settle h (Some observed) observedETag, Inl (errors_Join [Adopted] err))
                  else (settle h None observedETag, Inl (errors_Join [Fenced] err)))))"

primrec update ::
  "'b client \<Rightarrow> (Record \<Rightarrow> error + Record) \<Rightarrow> nat \<Rightarrow> Handle \<Rightarrow> ('b, Handle \<times> (error + Record)) prog" where
  "update c mutate 0 h = Cut"
| "update c mutate (Suc n) h =
     (case Handle_begin h of
        Inl e \<Rightarrow> Return (h, Inl e)
      | Inr current \<Rightarrow>
          (case mutate current of
             Inl e \<Rightarrow> Return (h, Inl e)
           | Inr next \<Rightarrow>
               if Record_equal next current then Return (h, Inr current)
               else bind (replace c h next) (\<lambda>(h', r).
                 case r of
                   Inr written \<Rightarrow> Return (h', Inr written)
                 | Inl e \<Rightarrow> if errors_Is e Adopted then update c mutate n h' else Return (h', Inl e))))"

definition selecting :: "u64 \<Rightarrow> u64 \<Rightarrow> Kept option \<Rightarrow> Journal list \<Rightarrow> Record \<Rightarrow> error + Record" where
  "selecting epoch sequence kept journals current =
     (if \<not> ValidSequence epoch sequence \<and> sequence \<noteq> rec_selected current then Inl [BadSequence]
      else if sequence < rec_selected current then Inl [BadSequence]
      else
        let next = current\<lparr>rec_selected := sequence, rec_created := True\<rparr>
        in case (case kept of None \<Rightarrow> Inr (rec_kept next) | Some k \<Rightarrow> withKept current k) of
             Inl e \<Rightarrow> Inl e
           | Inr ks \<Rightarrow>
               let chosen = next\<lparr>rec_kept := ks, rec_journals := journals\<rparr>
               in if \<not> validJournals chosen then Inl [InvalidConfig] else Inr chosen)"

definition pinning :: "u64 \<Rightarrow> Record \<Rightarrow> error + Record" where
  "pinning sequence current =
     (if sequence = 0 then Inl [BadSequence]
      else case admits current sequence of
        Inl e \<Rightarrow> Inl e
      | Inr _ \<Rightarrow> Inr (current\<lparr>rec_pinned := withPin current sequence\<rparr>))"

definition Select ::
  "'b client \<Rightarrow> Handle \<Rightarrow> u64 \<Rightarrow> Journal list \<Rightarrow> nat \<Rightarrow> ('b, Handle \<times> (error + Record)) prog" where
  "Select c h sequence journals fuel = update c (selecting (h_epoch h) sequence None journals) fuel h"

definition SelectKept ::
  "'b client \<Rightarrow> Handle \<Rightarrow> u64 \<Rightarrow> bool \<Rightarrow> 64 word \<Rightarrow> Journal list \<Rightarrow> nat \<Rightarrow> ('b, Handle \<times> (error + Record)) prog" where
  "SelectKept c h sequence state now journals fuel =
     update c (selecting (h_epoch h) sequence
       (Some \<lparr>kept_sequence = sequence, kept_time = now, kept_state = state\<rparr>) journals) fuel h"

definition Handle_Pin ::
  "'b client \<Rightarrow> Handle \<Rightarrow> u64 \<Rightarrow> nat \<Rightarrow> ('b, Handle \<times> (error + Record)) prog" where
  "Handle_Pin c h sequence fuel = update c (pinning sequence) fuel h"

end
