(* ===== verification/Control_System.thy ===== *)
theory Control_System
  imports Cas_System Control_Client
begin

text \<open>
  Any number of clients of one deployment's control records, in any interleaving, over the
  store of \<open>Cas_System\<close>: what may ever happen to a VM's record, and what an answer means.

  \<open>record_change\<close> is the abstract specification, the changes a record may go through. Every
  operation of \<open>Control_Client\<close> is shown to write only such a change, whatever the store
  answers, and the system of clients is an interpretation of \<open>cas_clients\<close>.
\<close>

section \<open>The changes of a record\<close>

definition created_record :: "Record \<Rightarrow> bool" where
  "created_record r \<longleftrightarrow>
     ValidCreateSequence (rec_selected r) \<and> rec_epoch r = EpochOf (rec_selected r) \<and>
     rec_pinned r = [] \<and> rec_kept r = [] \<and> rec_journals r = []"

inductive record_change :: "Record \<Rightarrow> Record \<Rightarrow> bool" for r where
  opened: "rec_epoch r < MaximumEpoch \<Longrightarrow>
    js = rec_journals r \<or> (\<exists>j. journal_epoch j = rec_epoch r + 1 \<and> js = rec_journals r @ [j]) \<Longrightarrow>
    record_change r (r\<lparr>rec_epoch := rec_epoch r + 1, rec_nonce := nonce, rec_journals := js\<rparr>)"
| selected: "rec_selected r \<le> s \<Longrightarrow> s = rec_selected r \<or> ValidSequence (rec_epoch r) s \<Longrightarrow>
    ks = rec_kept r \<or> (\<exists>k. kept_sequence k = s \<and> withKept r k = Inr ks) \<Longrightarrow>
    record_change r (r\<lparr>rec_selected := s, rec_created := True, rec_kept := ks, rec_journals := js\<rparr>)"
| pinned: "s \<noteq> 0 \<Longrightarrow> record_change r (r\<lparr>rec_pinned := withPin r s\<rparr>)"
| released: "IsKept r s \<Longrightarrow> \<not> IsPinned r s \<Longrightarrow> record_change r (r\<lparr>rec_kept := withoutKept r s\<rparr>)"

text \<open>What every change keeps of a record.\<close>

definition record_later :: "Record \<Rightarrow> Record \<Rightarrow> bool" where
  "record_later r r' \<longleftrightarrow>
     rec_vm r' = rec_vm r \<and> rec_epoch r \<le> rec_epoch r' \<and> rec_selected r \<le> rec_selected r' \<and>
     (rec_epoch r' = rec_epoch r \<longrightarrow> rec_nonce r' = rec_nonce r) \<and>
     set (rec_pinned r) \<subseteq> set (rec_pinned r') \<and> (rec_created r \<longrightarrow> rec_created r') \<and>
     (\<forall>s. IsKept r s \<and> IsPinned r s \<longrightarrow> IsKept r' s) \<and>
     (rec_selected r' = rec_selected r \<or>
        rec_epoch r \<le> EpochOf (rec_selected r') \<and> EpochOf (rec_selected r') \<le> rec_epoch r')"

lemma record_later_refl: "record_later r r"
  by (simp add: record_later_def)

lemma record_later_trans:
  assumes "record_later r r'" and "record_later r' r''"
  shows "record_later r r''"
proof -
  have epochs: "rec_epoch r \<le> rec_epoch r'" "rec_epoch r' \<le> rec_epoch r''"
    using assms by (simp_all add: record_later_def)
  have "rec_epoch r'' = rec_epoch r \<longrightarrow> rec_nonce r'' = rec_nonce r"
    using assms epochs unfolding record_later_def by (metis order.antisym)
  moreover have "\<forall>s. IsKept r s \<and> IsPinned r s \<longrightarrow> IsKept r'' s"
    using assms unfolding record_later_def IsPinned_def by blast
  moreover have "rec_selected r'' = rec_selected r \<or>
      rec_epoch r \<le> EpochOf (rec_selected r'') \<and> EpochOf (rec_selected r'') \<le> rec_epoch r''"
    using assms epochs unfolding record_later_def by (metis order.trans)
  ultimately show ?thesis
    using assms epochs unfolding record_later_def by (auto intro: order.trans)
qed

lemma record_change_later: "record_change r r' \<Longrightarrow> record_later r r'"
proof (induction rule: record_change.induct)
  case (opened js nonce)
  then show ?case using less_plus_one [of "rec_epoch r" MaximumEpoch]
    by (auto simp: record_later_def IsKept_def IsPinned_def)
next
  case (selected s ks js)
  then show ?case
    by (auto simp: record_later_def ValidSequence_def IsKept_def IsPinned_def dest!: withKept_Inr)
next
  case (pinned s)
  then show ?case by (auto simp: record_later_def set_withPin IsKept_def)
next
  case (released s)
  then show ?case
    using withoutKept_IsKept [of r s] by (auto simp: record_later_def IsKept_def IsPinned_def)
qed

section \<open>What the programs guarantee\<close>

text \<open>A validator of a VM's key that names the record.\<close>

definition stored :: "'b client \<Rightarrow> string \<Rightarrow> etag \<Rightarrow> Record \<Rightarrow> 'b world \<Rightarrow> bool" where
  "stored c vm e r w \<longleftrightarrow>
     (\<exists>k b. client_key c vm = Inr k \<and> w k e = Some b \<and> unmarshalRecord (client_wire c) vm b = Inr r)"

definition record_allowed :: "'b client \<Rightarrow> string \<Rightarrow> 'b option \<Rightarrow> 'b option \<Rightarrow> bool" where
  "record_allowed c k old new \<longleftrightarrow>
     (case new of
        None \<Rightarrow> True
      | Some b' \<Rightarrow> (\<exists>vm r'. client_key c vm = Inr k \<and> unmarshalRecord (client_wire c) vm b' = Inr r' \<and>
          (case old of
             None \<Rightarrow> created_record r'
           | Some b \<Rightarrow> (\<exists>r. unmarshalRecord (client_wire c) vm b = Inr r \<and> record_change r r'))))"

lemma stored_extends: "stored c vm e r w \<Longrightarrow> extends w w' \<Longrightarrow> stored c vm e r w'"
  by (auto simp: stored_def dest: extendsD)

lemma stored_vm: "stored c vm e r w \<Longrightarrow> rec_vm r = vm"
  by (auto simp: stored_def dest: unmarshal_valid)

lemma guarantees_read:
  assumes "\<And>w' e. extends w w' \<Longrightarrow> guarantees allowed post (f (Inl e)) w'"
    and "\<And>w' r e. extends w w' \<Longrightarrow> stored c vm e r w' \<Longrightarrow> guarantees allowed post (f (Inr (r, e))) w'"
  shows "guarantees allowed post (bind (client_read c vm) f) w"
  using assms
  by (auto simp: client_read_def ReadObject_def ReadObjectBody_def stored_def split: sum.splits)

lemma guarantees_put_change:
  assumes "wire_ok (client_wire c)" and "stored c vm e0 r w" and "record_change r r'"
    and "\<And>w' e. extends w w' \<Longrightarrow> guarantees (record_allowed c) post (f (Inl e)) w'"
    and "\<And>w' e. extends w w' \<Longrightarrow> stored c vm e r' w' \<Longrightarrow> guarantees (record_allowed c) post (f (Inr e)) w'"
  shows "guarantees (record_allowed c) post (bind (client_put c r' (matching e0)) f) w"
proof -
  have vm: "rec_vm r' = vm"
    using record_change_later [OF assms(3)] stored_vm [OF assms(2)] by (simp add: record_later_def)
  obtain k b0 where k: "client_key c vm = Inr k" "w k e0 = Some b0"
    and r: "unmarshalRecord (client_wire c) vm b0 = Inr r"
    using assms(2) by (auto simp: stored_def)
  show ?thesis
  proof (cases "Record_marshal (client_wire c) r'")
    case (Inl e)
    with k vm assms(4) show ?thesis by (simp add: client_put_def)
  next
    case (Inr b)
    have u: "unmarshalRecord (client_wire c) vm b = Inr r'"
      using unmarshal_marshal [OF assms(1) Inr] vm by simp
    have "justified (record_allowed c) w k b (matching e0)"
      using k r u assms(3) by (intro justified_matching) (auto simp: record_allowed_def)
    moreover have "guarantees (record_allowed c) post (f reply) w'"
      if "extends w w'" "\<forall>e. reply = Inr e \<longrightarrow> w' k e = Some b" for w' reply
      using that assms(4,5) k(1) u by (cases reply) (auto simp: stored_def)
    ultimately show ?thesis using Inr k(1) vm by (simp add: client_put_def)
  qed
qed

lemma guarantees_put_created:
  assumes "wire_ok (client_wire c)" and "created_record r'"
    and "\<And>w' e. extends w w' \<Longrightarrow> guarantees (record_allowed c) post (f (Inl e)) w'"
    and "\<And>w' e. extends w w' \<Longrightarrow> stored c (rec_vm r') e r' w' \<Longrightarrow>
      guarantees (record_allowed c) post (f (Inr e)) w'"
  shows "guarantees (record_allowed c) post (bind (client_put c r' absent) f) w"
proof (cases "client_key c (rec_vm r')")
  case (Inl e)
  with assms(3) show ?thesis by (simp add: client_put_def)
next
  case k: (Inr k)
  show ?thesis
  proof (cases "Record_marshal (client_wire c) r'")
    case (Inl e)
    with k assms(3) show ?thesis by (simp add: client_put_def)
  next
    case (Inr b)
    have u: "unmarshalRecord (client_wire c) (rec_vm r') b = Inr r'"
      using unmarshal_marshal [OF assms(1) Inr] .
    have "justified (record_allowed c) w k b absent"
      using k u assms(2) by (intro justified_absent) (auto simp: record_allowed_def)
    moreover have "guarantees (record_allowed c) post (f reply) w'"
      if "extends w w'" "\<forall>e. reply = Inr e \<longrightarrow> w' k e = Some b" for w' reply
      using that assms(3,4) k u by (cases reply) (auto simp: stored_def)
    ultimately show ?thesis using Inr k by (simp add: client_put_def)
  qed
qed

subsection \<open>Taking a VM\<close>

definition handle_ok :: "'b client \<Rightarrow> Handle \<Rightarrow> 'b world \<Rightarrow> bool" where
  "handle_ok c h w \<longleftrightarrow>
     rec_vm (h_record h) = h_vm h \<and> rec_epoch (h_record h) = h_epoch h \<and>
     (\<not> h_fenced h \<longrightarrow> stored c (h_vm h) (h_etag h) (h_record h) w)"

definition taken :: "'b client \<Rightarrow> string \<Rightarrow> bytes \<Rightarrow> error + Handle \<Rightarrow> 'b world \<Rightarrow> bool" where
  "taken c vm nonce a w \<longleftrightarrow>
     (\<forall>h. a = Inr h \<longrightarrow> handle_ok c h w \<and> \<not> h_fenced h \<and> \<not> h_closed h \<and> h_vm h = vm \<and>
        rec_nonce (h_record h) = nonce)"

lemma taken_newHandle:
  assumes "stored c vm e r w" and "rec_nonce r = nonce"
  shows "taken c vm nonce (Inr (newHandle r e)) w"
  using assms stored_vm [OF assms(1)] by (simp add: taken_def newHandle_def handle_ok_def)

lemma taken_Inl [simp]: "taken c vm nonce (Inl e) w"
  by (simp add: taken_def)

lemma Create_guarantees:
  assumes "wire_ok (client_wire c)"
  shows "guarantees (record_allowed c) (taken c vm nonce) (Create c vm selected published nonce) w"
proof (cases "\<not> ValidID vm \<or> \<not> ValidCreateSequence selected")
  case True
  then show ?thesis by (auto simp: Create_def)
next
  case False
  then show ?thesis
    unfolding Create_def Let_def
    by (auto intro!: guarantees_put_created guarantees_read assms taken_newHandle
        simp: created_record_def mine_def)
qed

lemma open_next_change:
  assumes "open_next r joining nonce = Inr new" and "rec_epoch r < MaximumEpoch"
  shows "record_change r new" and "rec_nonce new = nonce"
proof -
  let ?js = "rec_journals new"
  have new: "new = r\<lparr>rec_epoch := rec_epoch r + 1, rec_nonce := nonce, rec_journals := ?js\<rparr>"
    and js: "?js = rec_journals r \<or> (\<exists>j. journal_epoch j = rec_epoch r + 1 \<and> ?js = rec_journals r @ [j])"
    using assms(1) by (auto simp: open_next_def Let_def split: option.splits if_splits)
  show "record_change r new"
    by (subst new) (rule record_change.opened [OF assms(2) js])
  show "rec_nonce new = nonce" by (subst new) simp
qed

lemma open_loop_guarantees:
  assumes "wire_ok (client_wire c)"
  shows "guarantees (record_allowed c) (taken c vm nonce) (open_loop c vm epoch joining nonce n) w"
proof (induction n arbitrary: w)
  case (Suc n)
  show ?case
    unfolding open_loop.simps
  proof (rule guarantees_read, goal_cases)
    case (2 w' r e)
    show ?case
    proof (cases "open_next r joining nonce")
      case (Inr new)
      have put: "guarantees (record_allowed c) (taken c vm nonce) (bind (client_put c new (matching e)) f) w'"
        if "rec_epoch r < MaximumEpoch"
          and "\<And>w'' err. guarantees (record_allowed c) (taken c vm nonce) (f (Inl err)) w''"
          and "\<And>e. f (Inr e) = Return (Inr (newHandle new e))" for f
        using that 2(2) open_next_change [OF Inr that(1)]
        by (auto intro!: guarantees_put_change [OF assms, where r = r] taken_newHandle)
      show ?thesis
        using Suc.IH
        by (auto simp: Inr not_le mine_def intro!: put guarantees_read taken_newHandle)
    qed simp
  qed simp
qed simp

lemma client_open_guarantees:
  assumes "wire_ok (client_wire c)"
  shows "guarantees (record_allowed c) (taken c vm nonce) (client_open c vm epoch joining nonce fuel) w"
  using open_loop_guarantees [OF assms] by (simp add: client_open_def)

subsection \<open>Removing, pinning and releasing\<close>

lemma removal_allowed_always: "removal_justified (record_allowed c) w k m"
  by (simp add: removal_justified_def record_allowed_def split: option.split)

definition recorded :: "'b client \<Rightarrow> string \<Rightarrow> (Record \<Rightarrow> bool) \<Rightarrow> error + Record \<Rightarrow> 'b world \<Rightarrow> bool" where
  "recorded c vm P a w \<longleftrightarrow> (\<forall>r. a = Inr r \<longrightarrow> P r \<and> (\<exists>e. stored c vm e r w))"

definition pinned_ref :: "'b client \<Rightarrow> string \<Rightarrow> u64 \<Rightarrow> error + Ref \<Rightarrow> 'b world \<Rightarrow> bool" where
  "pinned_ref c vm sequence a w \<longleftrightarrow>
     (\<forall>ref. a = Inr ref \<longrightarrow> ref_vm ref = vm \<and> (sequence \<noteq> 0 \<longrightarrow> ref_sequence ref = sequence) \<and>
        (\<exists>e r. stored c vm e r w \<and> IsPinned r (ref_sequence ref)))"

lemma recorded_Inl [simp]: "recorded c vm P (Inl e) w"
  by (simp add: recorded_def)

lemma recordedI: "stored c vm e r w \<Longrightarrow> P r \<Longrightarrow> recorded c vm P (Inr r) w"
  by (auto simp: recorded_def)

lemma pinned_ref_Inl [simp]: "pinned_ref c vm sequence (Inl e) w"
  by (simp add: pinned_ref_def)

lemma Read_guarantees: "guarantees allowed (recorded c vm (\<lambda>_. True)) (Read c vm) w"
  unfolding Read_def by (rule guarantees_read) (auto simp: recorded_def)

lemma Remove_loop_guarantees:
  "guarantees (record_allowed c) (recorded c vm (\<lambda>_. True)) (Remove_loop c vm key n) w"
proof (induction n arbitrary: w)
  case (Suc n)
  have known: "recorded c vm (\<lambda>_. True) (Inr r) w''"
    if "stored c vm e r w'" "extends w' w''" for e r w' w''
    using that stored_extends by (fastforce simp: recorded_def)
  show ?case
    unfolding Remove_loop.simps
    by (rule guarantees_read)
      (auto intro!: guarantees_read Suc.IH known simp: removal_allowed_always
        split: sum.split intro: extends_trans)
qed simp

lemma Remove_guarantees:
  "guarantees (record_allowed c) (recorded c vm (\<lambda>_. True)) (Remove c vm fuel) w"
  by (simp add: Remove_def Remove_loop_guarantees split: sum.split)

lemma Pin_loop_guarantees:
  assumes "wire_ok (client_wire c)"
  shows "guarantees (record_allowed c) (pinned_ref c vm sequence) (Pin_loop c vm sequence n) w"
proof (induction n arbitrary: w)
  case (Suc n)
  show ?case
    unfolding Pin_loop.simps
  proof (rule guarantees_read, goal_cases)
    case (2 w' r e)
    define wanted where "wanted = (if sequence = 0 then rec_selected r else sequence)"
    have "wanted \<noteq> 0"
      using 2(2) by (auto simp: wanted_def stored_def Record_valid_def dest!: unmarshal_valid)
    then have change: "record_change r (r\<lparr>rec_pinned := withPin r wanted\<rparr>)"
      by (rule record_change.pinned)
    have found: "pinned_ref c vm sequence (Inr \<lparr>ref_vm = vm, ref_sequence = wanted\<rparr>) w''"
      if "stored c vm e' r' w''" "IsPinned r' wanted" for e' r' w''
      using that unfolding pinned_ref_def by (cases "sequence = 0") (simp_all add: wanted_def, blast+)
    have pinned: "IsPinned (r\<lparr>rec_pinned := withPin r wanted\<rparr>) wanted"
      by (simp add: IsPinned_def set_withPin)
    show ?case
      unfolding sum.case prod.case Let_def wanted_def [symmetric]
      using 2(2) found pinned
      by (auto split: sum.split intro!: guarantees_put_change [OF assms _ change] guarantees_read Suc.IH)
  qed simp
qed simp

lemma Pin_guarantees:
  assumes "wire_ok (client_wire c)"
  shows "guarantees (record_allowed c) (pinned_ref c vm sequence) (Pin c vm sequence fuel) w"
  using Pin_loop_guarantees [OF assms] by (simp add: Pin_def)

lemma Release_loop_guarantees:
  assumes "wire_ok (client_wire c)"
  shows "guarantees (record_allowed c) (recorded c vm (\<lambda>r. \<not> IsKept r sequence)) (Release_loop c vm sequence n) w"
proof (induction n arbitrary: w)
  case (Suc n)
  show ?case
    unfolding Release_loop.simps
  proof (rule guarantees_read, goal_cases)
    case (2 w' r e)
    let ?new = "r\<lparr>rec_kept := withoutKept r sequence\<rparr>"
    have gone: "\<not> IsKept ?new sequence" by (simp add: IsKept_def withoutKept_def)
    show ?case
      unfolding sum.case prod.case Let_def
      using 2(2) gone
      by (auto split: sum.split intro: record_change.released recordedI
          intro!: guarantees_put_change [OF assms, where r = r] guarantees_read Suc.IH)
        (rule recordedI, assumption, simp)+
  qed simp
qed simp

lemma Release_guarantees:
  assumes "wire_ok (client_wire c)"
  shows "guarantees (record_allowed c) (recorded c vm (\<lambda>r. \<not> IsKept r sequence)) (Release c vm sequence fuel) w"
  using Release_loop_guarantees [OF assms] by (simp add: Release_def)

subsection \<open>Handles\<close>

text \<open>
  A change a handle makes: it keeps the epoch, and is no change or one a record may go
  through.
\<close>

definition handle_change :: "u64 \<Rightarrow> (Record \<Rightarrow> error + Record) \<Rightarrow> bool" where
  "handle_change epoch mutate \<longleftrightarrow>
     (\<forall>r r'. rec_epoch r = epoch \<longrightarrow> mutate r = Inr r' \<longrightarrow> rec_epoch r' = epoch \<and> (r' = r \<or> record_change r r'))"

text \<open>
  The handle a call leaves, and the record it reports: the handle's, stored, and what the
  change makes of some record.
\<close>

definition updated ::
  "'b client \<Rightarrow> (Record \<Rightarrow> error + Record) \<Rightarrow> Handle \<Rightarrow> Handle \<times> (error + Record) \<Rightarrow> 'b world \<Rightarrow> bool" where
  "updated c mutate h a w \<longleftrightarrow>
     (case a of (h', outcome) \<Rightarrow>
        handle_ok c h' w \<and> h_vm h' = h_vm h \<and> h_epoch h' = h_epoch h \<and> h_closed h' = h_closed h \<and>
        rec_nonce (h_record h') = rec_nonce (h_record h) \<and>
        (\<forall>r. outcome = Inr r \<longrightarrow> \<not> h_fenced h' \<and> r = h_record h' \<and> (\<exists>current. mutate current = Inr r)))"

lemma handle_ok_extends: "handle_ok c h w \<Longrightarrow> extends w w' \<Longrightarrow> handle_ok c h w'"
  by (auto simp: handle_ok_def intro: stored_extends)

lemma handle_ok_settle:
  assumes "handle_ok c h w" and "stored c (h_vm h) e r w" and "rec_epoch r = h_epoch h"
  shows "handle_ok c (settle h (Some r) e) w"
  using assms stored_vm [OF assms(2)] by (simp add: handle_ok_def settle_def)

lemma handle_ok_fenced: "handle_ok c h w \<Longrightarrow> handle_ok c (settle h None e) w"
  by (simp add: handle_ok_def settle_def)

lemma settle_simps [simp]:
  "h_vm (settle h x e) = h_vm h" "h_epoch (settle h x e) = h_epoch h" "h_closed (settle h x e) = h_closed h"
  "h_record (settle h (Some r) e) = r" "h_record (settle h None e) = h_record h"
  "h_fenced (settle h (Some r) e) = h_fenced h" "h_fenced (settle h None e)"
  by (simp_all add: settle_def split: option.split)

lemma replace_guarantees:
  assumes "wire_ok (client_wire c)" and ok: "handle_ok c h w" and "\<not> h_fenced h"
    and change: "record_change (h_record h) new" and "rec_epoch new = h_epoch h"
    and mutated: "mutate (h_record h) = Inr new"
  shows "guarantees (record_allowed c) (updated c mutate h) (replace c h new) w"
proof -
  have st: "stored c (h_vm h) (h_etag h) (h_record h) w" and epoch: "rec_epoch (h_record h) = h_epoch h"
    using ok assms(3) by (simp_all add: handle_ok_def)
  have later: "rec_vm new = h_vm h" "rec_nonce new = rec_nonce (h_record h)"
    using record_change_later [OF change] assms(5) epoch stored_vm [OF st] by (auto simp: record_later_def)
  have landed: "updated c mutate h (settle h (Some new) e, Inr new) w'"
    if "extends w w'" "stored c (h_vm h) e new w'" for e w'
    using that assms(3,5) later mutated handle_ok_settle [OF handle_ok_extends [OF ok]]
    by (auto simp: updated_def)
  have caught_up: "updated c mutate h (settle h (Some r) e, Inl err) w'"
    if "extends w w'" "stored c (h_vm h) e r w'" "mine r (h_epoch h) (rec_nonce (h_record h))" for e r w' err
    using that handle_ok_settle [OF handle_ok_extends [OF ok]] by (auto simp: updated_def mine_def)
  have unread: "updated c mutate h (h, Inl err) w'" if "extends w w'" for w' err
    using that handle_ok_extends [OF ok] by (auto simp: updated_def)
  have fenced: "updated c mutate h (settle h None e, Inl err) w'" if "extends w w'" for e w' err
    using handle_ok_fenced [OF handle_ok_extends [OF ok that]] by (simp add: updated_def)
  have mine: "mine (h_record h) (h_epoch h) (rec_nonce (h_record h))" using epoch by (simp add: mine_def)
  show ?thesis
    unfolding replace_def
  proof (rule guarantees_put_change [OF assms(1) st change], goal_cases)
    case (1 w' err)
    show ?case
      unfolding sum.case later
    proof (rule guarantees_read, goal_cases)
      case (1 w'' e)
      with \<open>extends w w'\<close> have "extends w w''" by (rule extends_trans)
      then show ?case by (simp add: unread)
    next
      case (2 w'' r e)
      have "extends w w''" using \<open>extends w w'\<close> 2(1) by (rule extends_trans)
      with 2(2) show ?case 
        using landed [of w'' e] caught_up [of w'' e "h_record h"] mine
        by (auto simp: Record_equal_iff caught_up fenced)
    qed
  qed (simp add: landed)
qed

lemma updated_trans:
  assumes "updated c mutate h (h', x) w'" and "updated c mutate h' a w"
  shows "updated c mutate h a w"
  using assms by (auto simp: updated_def)

lemma update_guarantees:
  assumes "wire_ok (client_wire c)" and "handle_ok c h w" and "handle_change (h_epoch h) mutate"
  shows "guarantees (record_allowed c) (updated c mutate h) (update c mutate n h) w"
  using assms(2,3)
proof (induction n arbitrary: h w)
  case (Suc n)
  have same: "updated c mutate h (h, Inl e) w" for e
    using Suc.prems(1) by (simp add: updated_def)
  show ?case
  proof (cases "h_fenced h \<or> h_closed h \<or> (\<exists>e. mutate (h_record h) = Inl e)")
    case True
    then show ?thesis using same by (auto simp: Handle_begin_def)
  next
    case False
    then obtain new where new: "mutate (h_record h) = Inr new" and live: "\<not> h_fenced h" "\<not> h_closed h"
      by (metis sum.exhaust)
    have step: "rec_epoch new = h_epoch h" "new = h_record h \<or> record_change (h_record h) new"
      using Suc.prems new by (auto simp: handle_change_def handle_ok_def)
    show ?thesis
    proof (cases "new = h_record h")
      case True
      then show ?thesis
        using Suc.prems(1) new live by (auto simp: Handle_begin_def Record_equal_iff updated_def)
    next
      case False
      with step have "record_change (h_record h) new" by simp
      then have "guarantees (record_allowed c) (updated c mutate h) (replace c h new) w"
        using assms(1) Suc.prems(1) live(1) step(1) new by (intro replace_guarantees)
      moreover have "guarantees (record_allowed c) (updated c mutate h) (update c mutate n h') w'"
        if "updated c mutate h (h', Inl e) w'" for h' e w'
        using that Suc.prems(2) updated_trans [OF that]
        by (intro guarantees_mono [OF Suc.IH [of h' w']]) (auto simp: updated_def)
      ultimately show ?thesis
        using False new live unfolding update.simps
        by (auto simp: Handle_begin_def Record_equal_iff split: sum.split
            intro!: guarantees_bind [where mid = "updated c mutate h"])
    qed
  qed
qed simp

end
