(* ===== verification/Control_Deployment.thy ===== *)
theory Control_Deployment
  imports Control_System
begin

text \<open>
  A deployment: any number of agents, each holding at most one handle, that call the
  operations of \<open>Control_Client\<close> in any interleaving.

  An agent's local state is the handle it holds and the nonces it has drawn. A call that
  draws a nonce is admitted only with one that nobody drew before, which is what sixteen
  bytes from \<^verbatim>\<open>crypto/rand\<close> are taken to be.
\<close>

section \<open>Calls and their programs\<close>

datatype call =
    CreateVM string u64 bool bytes
  | OpenVM string bytes nat
  | OpenVMAfter string u64 bytes nat
  | OpenVMMigration string Journal bytes nat
  | ReadVM string
  | DeleteVM string
  | RemoveVM string nat
  | PinVM string u64 nat
  | ReleaseVM string u64 nat
  | SelectHeld u64 "Journal list" nat
  | SelectKeptHeld u64 bool "64 word" "Journal list" nat
  | PinHeld u64 nat
  | CloseHeld

datatype result =
    Opened "error + Handle"
  | Updated "Handle \<times> (error + Record)"
  | Recorded "error + Record"
  | Referenced "error + Ref"
  | Deleted "error + unit"
  | HandleClosed Handle
  | NotHeld

record host =
  held :: "Handle option"
  drawn :: "bytes set"

fun call_nonce :: "call \<Rightarrow> bytes option" where
  "call_nonce (CreateVM vm selected published nonce) = Some nonce"
| "call_nonce (OpenVM vm nonce fuel) = Some nonce"
| "call_nonce (OpenVMAfter vm epoch nonce fuel) = Some nonce"
| "call_nonce (OpenVMMigration vm journal nonce fuel) = Some nonce"
| "call_nonce _ = None"

definition control_admit :: "(nat \<Rightarrow> host) \<Rightarrow> nat \<Rightarrow> call \<Rightarrow> bool" where
  "control_admit hosts i call \<longleftrightarrow>
     (\<forall>nonce. call_nonce call = Some nonce \<longrightarrow> length nonce = nonceSize \<and> (\<forall>j. nonce \<notin> drawn (hosts j)))"

definition control_enter :: "call \<Rightarrow> host \<Rightarrow> host" where
  "control_enter call l =
     (case call_nonce call of None \<Rightarrow> l | Some nonce \<Rightarrow> l\<lparr>drawn := insert nonce (drawn l)\<rparr>)"

text \<open>A method of the handle the agent holds.\<close>

definition with_held ::
  "host \<Rightarrow> (Handle \<Rightarrow> ('b, Handle \<times> (error + Record)) prog) \<Rightarrow> ('b, result) prog" where
  "with_held l p =
     (case held l of None \<Rightarrow> Return NotHeld | Some h \<Rightarrow> bind (p h) (\<lambda>a. Return (Updated a)))"

primrec control_start :: "'b client \<Rightarrow> call \<Rightarrow> host \<Rightarrow> ('b, result) prog" where
  "control_start c (CreateVM vm selected published nonce) l =
     bind (Create c vm selected published nonce) (\<lambda>a. Return (Opened a))"
| "control_start c (OpenVM vm nonce fuel) l = bind (Open c vm nonce fuel) (\<lambda>a. Return (Opened a))"
| "control_start c (OpenVMAfter vm epoch nonce fuel) l =
     bind (OpenAfter c vm epoch nonce fuel) (\<lambda>a. Return (Opened a))"
| "control_start c (OpenVMMigration vm journal nonce fuel) l =
     bind (OpenMigration c vm journal nonce fuel) (\<lambda>a. Return (Opened a))"
| "control_start c (ReadVM vm) l = bind (Read c vm) (\<lambda>a. Return (Recorded a))"
| "control_start c (DeleteVM vm) l = bind (client_Delete c vm) (\<lambda>a. Return (Deleted a))"
| "control_start c (RemoveVM vm fuel) l = bind (Remove c vm fuel) (\<lambda>a. Return (Recorded a))"
| "control_start c (PinVM vm sequence fuel) l = bind (Pin c vm sequence fuel) (\<lambda>a. Return (Referenced a))"
| "control_start c (ReleaseVM vm sequence fuel) l = bind (Release c vm sequence fuel) (\<lambda>a. Return (Recorded a))"
| "control_start c (SelectHeld sequence journals fuel) l =
     with_held l (\<lambda>h. Select c h sequence journals fuel)"
| "control_start c (SelectKeptHeld sequence state now journals fuel) l =
     with_held l (\<lambda>h. SelectKept c h sequence state now journals fuel)"
| "control_start c (PinHeld sequence fuel) l = with_held l (\<lambda>h. Handle_Pin c h sequence fuel)"
| "control_start c CloseHeld l =
     (case held l of None \<Rightarrow> Return NotHeld | Some h \<Rightarrow> Return (HandleClosed (Handle_Close h)))"

definition control_finish :: "call \<Rightarrow> host \<Rightarrow> result \<Rightarrow> host" where
  "control_finish call l a =
     (case a of
        Opened (Inr h) \<Rightarrow> l\<lparr>held := Some h\<rparr>
      | Updated (h, _) \<Rightarrow> l\<lparr>held := Some h\<rparr>
      | HandleClosed h \<Rightarrow> l\<lparr>held := Some h\<rparr>
      | _ \<Rightarrow> l)"

abbreviation control_step ::
  "'b client \<Rightarrow> ('b, result, call, host) sys \<Rightarrow> ('b, result, call, host) sys \<Rightarrow> bool" where
  "control_step c \<equiv> sys_step control_admit control_enter (control_start c) control_finish"

definition new_host :: host where
  "new_host = \<lparr>held = None, drawn = {}\<rparr>"

definition deployment :: "'b client \<Rightarrow> ('b, result, call, host) sys \<Rightarrow> bool" where
  "deployment c s \<longleftrightarrow> reachable (control_step c) (sys_init (\<lambda>_. new_host)) s"

section \<open>The clients keep their contract\<close>

definition control_allowed :: "'b client \<Rightarrow> string \<Rightarrow> 'b option \<Rightarrow> 'b option \<Rightarrow> bool" where
  "control_allowed c k old new \<longleftrightarrow> (wire_ok (client_wire c) \<longrightarrow> record_allowed c k old new)"

definition control_good :: "'b client \<Rightarrow> host \<Rightarrow> 'b world \<Rightarrow> bool" where
  "control_good c l w \<longleftrightarrow>
     (wire_ok (client_wire c) \<longrightarrow>
       (\<forall>h. held l = Some h \<longrightarrow> handle_ok c h w \<and> rec_nonce (h_record h) \<in> drawn l))"

definition held_answer ::
  "'b client \<Rightarrow> host \<Rightarrow> (Handle \<Rightarrow> Record \<Rightarrow> error + Record) \<Rightarrow> result \<Rightarrow> 'b world \<Rightarrow> bool" where
  "held_answer c l mutate a w \<longleftrightarrow>
     (case held l of
        None \<Rightarrow> a = NotHeld
      | Some h \<Rightarrow> (\<exists>x. a = Updated x \<and> updated c (mutate h) h x w))"

primrec answer_ok :: "'b client \<Rightarrow> call \<Rightarrow> host \<Rightarrow> result \<Rightarrow> 'b world \<Rightarrow> bool" where
  "answer_ok c (CreateVM vm selected published nonce) l a w = (\<exists>x. a = Opened x \<and> taken c vm nonce x w)"
| "answer_ok c (OpenVM vm nonce fuel) l a w = (\<exists>x. a = Opened x \<and> taken c vm nonce x w)"
| "answer_ok c (OpenVMAfter vm epoch nonce fuel) l a w = (\<exists>x. a = Opened x \<and> taken c vm nonce x w)"
| "answer_ok c (OpenVMMigration vm journal nonce fuel) l a w = (\<exists>x. a = Opened x \<and> taken c vm nonce x w)"
| "answer_ok c (ReadVM vm) l a w = (\<exists>x. a = Recorded x \<and> recorded c vm (\<lambda>_. True) x w)"
| "answer_ok c (DeleteVM vm) l a w = (\<exists>x. a = Deleted x)"
| "answer_ok c (RemoveVM vm fuel) l a w = (\<exists>x. a = Recorded x \<and> recorded c vm (\<lambda>_. True) x w)"
| "answer_ok c (PinVM vm sequence fuel) l a w = (\<exists>x. a = Referenced x \<and> pinned_ref c vm sequence x w)"
| "answer_ok c (ReleaseVM vm sequence fuel) l a w =
     (\<exists>x. a = Recorded x \<and> recorded c vm (\<lambda>r. \<not> IsKept r sequence) x w)"
| "answer_ok c (SelectHeld sequence journals fuel) l a w =
     held_answer c l (\<lambda>h. selecting (h_epoch h) sequence None journals) a w"
| "answer_ok c (SelectKeptHeld sequence state now journals fuel) l a w =
     held_answer c l (\<lambda>h. selecting (h_epoch h) sequence
       (Some \<lparr>kept_sequence = sequence, kept_time = now, kept_state = state\<rparr>) journals) a w"
| "answer_ok c (PinHeld sequence fuel) l a w = held_answer c l (\<lambda>h. pinning sequence) a w"
| "answer_ok c CloseHeld l a w =
     (case held l of None \<Rightarrow> a = NotHeld | Some h \<Rightarrow> a = HandleClosed (Handle_Close h))"

definition control_answer :: "'b client \<Rightarrow> call \<Rightarrow> host \<Rightarrow> result \<Rightarrow> 'b world \<Rightarrow> bool" where
  "control_answer c call l a w \<longleftrightarrow>
     (wire_ok (client_wire c) \<longrightarrow>
       answer_ok c call l a w \<and> (\<forall>nonce. call_nonce call = Some nonce \<longrightarrow> nonce \<in> drawn l))"

lemma selecting_Inr:
  assumes "selecting epoch s kept js r = Inr r'"
  shows "rec_selected r' = s" "rec_created r'" "rec_journals r' = js" "rec_epoch r' = rec_epoch r"
    "rec_selected r \<le> s" "s = rec_selected r \<or> ValidSequence epoch s"
    "r' = r\<lparr>rec_selected := s, rec_created := True, rec_kept := rec_kept r', rec_journals := js\<rparr>"
    "kept = None \<Longrightarrow> rec_kept r' = rec_kept r"
    "kept = Some k \<Longrightarrow> withKept r k = Inr (rec_kept r')"
  using assms
  by (auto simp: selecting_def Let_def not_less split: if_splits option.splits sum.splits)

lemma selecting_change:
  assumes "\<And>k. kept = Some k \<Longrightarrow> kept_sequence k = s"
  shows "handle_change epoch (selecting epoch s kept js)"
proof -
  have "record_change r r'" if "rec_epoch r = epoch" "selecting epoch s kept js r = Inr r'" for r r'
  proof (subst selecting_Inr(7) [OF that(2)], rule record_change.selected)
    show "rec_kept r' = rec_kept r \<or> (\<exists>k. kept_sequence k = s \<and> withKept r k = Inr (rec_kept r'))"
      using selecting_Inr(8,9) [OF that(2)] assms by (cases kept) auto
  qed (use selecting_Inr [OF that(2)] that(1) in auto)
  then show ?thesis by (auto simp: handle_change_def dest: selecting_Inr(4))
qed

lemma pinning_change: "handle_change epoch (pinning s)"
  by (auto simp: handle_change_def pinning_def split: if_splits sum.splits intro: record_change.pinned)

lemma with_held_guarantees:
  assumes "wire_ok (client_wire c)" and "\<And>h. held l = Some h \<Longrightarrow> handle_ok c h w"
    and "\<And>h. handle_change (h_epoch h) (mutate h)"
  shows "guarantees (record_allowed c) (held_answer c l mutate) (with_held l (\<lambda>h. update c (mutate h) n h)) w"
proof (cases "held l")
  case (Some h)
  then show ?thesis
    unfolding with_held_def
    by (auto simp: held_answer_def intro!: guarantees_result [OF update_guarantees] assms)
qed (simp add: with_held_def held_answer_def)

lemma answer_ok_held:
  "answer_ok c (SelectHeld sequence journals fuel) l =
     held_answer c l (\<lambda>h. selecting (h_epoch h) sequence None journals)"
  "answer_ok c (SelectKeptHeld sequence state now journals fuel) l =
     held_answer c l (\<lambda>h. selecting (h_epoch h) sequence
       (Some \<lparr>kept_sequence = sequence, kept_time = now, kept_state = state\<rparr>) journals)"
  "answer_ok c (PinHeld sequence fuel) l = held_answer c l (\<lambda>h. pinning sequence)"
  by (simp_all add: fun_eq_iff)

lemma start_guarantees:
  assumes wire: "wire_ok (client_wire c)" and "\<And>h. held l = Some h \<Longrightarrow> handle_ok c h w"
  shows "guarantees (record_allowed c) (answer_ok c call l) (control_start c call l) w"
proof -
  note results = guarantees_result [OF Create_guarantees [OF wire]]
    guarantees_result [OF client_open_guarantees [OF wire]] guarantees_result [OF Read_guarantees]
    guarantees_result [OF Remove_guarantees] guarantees_result [OF Pin_guarantees [OF wire]]
    guarantees_result [OF Release_guarantees [OF wire]]
  show ?thesis
  proof (cases call)
    case (DeleteVM vm)
    then show ?thesis
      by (auto simp: client_Delete_def removal_allowed_always split: sum.split)
  next
    case (SelectHeld sequence journals fuel)
    have "guarantees (record_allowed c) (answer_ok c call l) (control_start c call l) w"
      unfolding SelectHeld answer_ok_held control_start.simps Select_def
      by (rule with_held_guarantees [OF assms]) (auto intro: selecting_change)
    then show ?thesis .
  next
    case (SelectKeptHeld sequence state now journals fuel)
    have "guarantees (record_allowed c) (answer_ok c call l) (control_start c call l) w"
      unfolding SelectKeptHeld answer_ok_held control_start.simps SelectKept_def
      by (rule with_held_guarantees [OF assms]) (auto intro: selecting_change)
    then show ?thesis .
  next
    case (PinHeld sequence fuel)
    have "guarantees (record_allowed c) (answer_ok c call l) (control_start c call l) w"
      unfolding PinHeld answer_ok_held control_start.simps Handle_Pin_def
      by (rule with_held_guarantees [OF assms]) (auto intro: pinning_change)
    then show ?thesis .
  next
    case CloseHeld
    then show ?thesis by (auto split: option.split)
  qed (auto simp: Open_def OpenAfter_def OpenMigration_def intro: results)
qed

lemma answer_ok_extends: "answer_ok c call l a w \<Longrightarrow> extends w w' \<Longrightarrow> answer_ok c call l a w'"
  by (cases call)
    (fastforce simp: taken_def recorded_def pinned_ref_def held_answer_def updated_def
      split: option.splits prod.splits intro: stored_extends handle_ok_extends)+

lemma finish_ok:
  assumes "\<And>h. held l = Some h \<Longrightarrow> handle_ok c h w \<and> rec_nonce (h_record h) \<in> drawn l"
    and "answer_ok c call l a w" and "\<And>n. call_nonce call = Some n \<Longrightarrow> n \<in> drawn l"
    and "held (control_finish call l a) = Some h"
  shows "handle_ok c h w \<and> rec_nonce (h_record h) \<in> drawn l"
  using assms
  by (cases call) (auto simp: control_finish_def taken_def held_answer_def updated_def handle_ok_def Handle_Close_def
    split: option.splits sum.splits)

lemma enter_held [simp]: "held (control_enter call l) = held l"
  by (simp add: control_enter_def split: option.split)

lemma enter_drawn:
  "drawn (control_enter call l) = drawn l \<union> set_option (call_nonce call)"
  by (simp add: control_enter_def split: option.split)

lemma finish_drawn [simp]: "drawn (control_finish call l a) = drawn l"
  by (simp add: control_finish_def split: result.split sum.split prod.split)

interpretation control: cas_clients control_admit control_enter "control_start c" control_finish
  "control_allowed c" "control_good c" "control_answer c"
proof unfold_locales
  show "stable (control_good c)"
    by (auto simp: stable_def control_good_def intro: handle_ok_extends)
  show "stable (control_answer c call l)" for call l
    by (auto simp: stable_def control_answer_def intro: answer_ok_extends)
  show "control_good c (control_enter call l) w" if "control_good c l w" for l w call
    using that by (auto simp: control_good_def enter_drawn)
  show "guarantees (control_allowed c) (control_answer c call (control_enter call l))
      (control_start c call (control_enter call l)) w"
    if "control_good c l w" "control_admit ls i call" "ls i = l" for l w call i and ls :: "nat \<Rightarrow> host"
  proof (cases "wire_ok (client_wire c)")
    case True
    then have allowed: "control_allowed c = record_allowed c"
      by (simp add: control_allowed_def fun_eq_iff)
    have "guarantees (record_allowed c) (answer_ok c call (control_enter call l))
        (control_start c call (control_enter call l)) w"
      using True that(1) by (intro start_guarantees) (auto simp: control_good_def)
    then show ?thesis
      unfolding allowed
      by (rule guarantees_mono) (auto simp: control_answer_def enter_drawn)
  next
    case False
    then show ?thesis
      by (intro guarantees_unrestricted) (simp_all add: control_allowed_def control_answer_def)
  qed
  show "control_good c (control_finish call l a) w"
    if "control_good c l w" "control_answer c call l a w" for l w call a
    using that unfolding control_good_def control_answer_def
    by (intro impI allI) (simp, rule finish_ok [where call = call and l = l and a = a], auto)
qed

lemma new_host_good: "control.system_good c (sys_init (\<lambda>_. new_host))"
  by (simp add: control.system_good_def sys_init_def control_good_def new_host_def)

lemma deployment_good: "deployment c s \<Longrightarrow> control.system_good c s"
  unfolding deployment_def using control.reachable_good [OF _ new_host_good] .

end
