(* ===== verification/Control_Safety.thy ===== *)
theory Control_Safety
  imports Control_Deployment
begin

text \<open>
  What holds of a deployment's control records in every interleaving: the theorems of
  \<^verbatim>\<open>docs/architecture.md\<close>'s control plane. Each has a witness on an example run, in which one
  agent creates a VM, another opens it and selects a checkpoint, and a third pins it.
\<close>

section \<open>Steps and runs\<close>

lemma client_key_Inr: "client_key c vm = Inr k \<Longrightarrow> ValidID vm \<and> k = client_prefix c @ RecordName vm"
  by (auto simp: client_key_def NewObjectKey_def split: if_splits)

lemma client_key_inject:
  assumes "client_key c vm = Inr k" and "client_key c vm' = Inr k"
  shows "vm = vm'"
proof (rule RecordName_inject)
  show "RecordName vm = RecordName vm'"
    using client_key_Inr [OF assms(1)] client_key_Inr [OF assms(2)] by (metis same_append_eq)
qed (use client_key_Inr assms in blast)+

lemma deployment_step: "deployment c s \<Longrightarrow> control_step c s t \<Longrightarrow> deployment c t"
  unfolding deployment_def by (rule reachable.reach_step)

lemma deployment_change:
  assumes "wire_ok (client_wire c)" and "deployment c s" and "control_step c s t"
  shows "objects t k = objects s k \<or>
    record_allowed c k (map_option fst (objects s k)) (map_option fst (objects t k))"
proof -
  have "control.step_summary c s t"
    using assms(3) deployment_good [OF assms(2)] by (rule control.step_keeps)
  with assms(1) show ?thesis by (simp add: control.step_summary_def control_allowed_def)
qed

lemma deployment_parses:
  assumes "wire_ok (client_wire c)" and "deployment c s" and "objects s k = Some (b, e)"
  shows "\<exists>vm r. client_key c vm = Inr k \<and> unmarshalRecord (client_wire c) vm b = Inr r"
  using assms(2) unfolding deployment_def using assms(3)
proof (induction arbitrary: b e rule: reachable.induct)
  case reach_init
  then show ?case by (simp add: sys_init_def)
next
  case (reach_step s t)
  then have "deployment c s" by (simp add: deployment_def)
  from deployment_change [OF assms(1) this reach_step.hyps(2), of k] show ?case
  proof
    assume "objects t k = objects s k"
    with reach_step.IH reach_step.prems show ?thesis by metis
  next
    assume "record_allowed c k (map_option fst (objects s k)) (map_option fst (objects t k))"
    with reach_step.prems show ?thesis by (auto simp: record_allowed_def)
  qed
qed

text \<open>The record of a VM, as it is stored.\<close>

definition record_at :: "'b client \<Rightarrow> ('b, 'a, 'c, 'l) sys \<Rightarrow> string \<Rightarrow> Record option" where
  "record_at c s vm =
     (case client_key c vm of
        Inl _ \<Rightarrow> None
      | Inr k \<Rightarrow> (case objects s k of
          None \<Rightarrow> None
        | Some (b, _) \<Rightarrow> (case unmarshalRecord (client_wire c) vm b of Inl _ \<Rightarrow> None | Inr r \<Rightarrow> Some r)))"

lemma record_at_Some:
  "record_at c s vm = Some r \<longleftrightarrow>
     (\<exists>k b e. client_key c vm = Inr k \<and> objects s k = Some (b, e) \<and> unmarshalRecord (client_wire c) vm b = Inr r)"
  by (auto simp: record_at_def split: sum.splits option.splits)

lemma record_at_present:
  assumes "wire_ok (client_wire c)" and "deployment c s" and "client_key c vm = Inr k" and "objects s k \<noteq> None"
  obtains r where "record_at c s vm = Some r"
proof -
  obtain b e where b: "objects s k = Some (b, e)" using assms(4) by auto
  then obtain vm' r where "client_key c vm' = Inr k" "unmarshalRecord (client_wire c) vm' b = Inr r"
    using deployment_parses [OF assms(1,2)] by blast
  with assms(3) have "unmarshalRecord (client_wire c) vm b = Inr r" using client_key_inject by metis
  with assms(3) b have "record_at c s vm = Some r" by (simp add: record_at_def)
  then show ?thesis by (rule that)
qed

lemma record_at_step:
  assumes "wire_ok (client_wire c)" and "deployment c s" and "control_step c s t"
    and "record_at c s vm = Some r" and "record_at c t vm = Some r'"
  shows "r' = r \<or> record_change r r'"
proof -
  obtain k b e where k: "client_key c vm = Inr k" "objects s k = Some (b, e)"
      "unmarshalRecord (client_wire c) vm b = Inr r"
    using assms(4) by (auto simp: record_at_Some)
  obtain b' e' where t: "objects t k = Some (b', e')" "unmarshalRecord (client_wire c) vm b' = Inr r'"
    using assms(5) k(1) by (auto simp: record_at_Some)
  from deployment_change [OF assms(1-3), of k] show ?thesis
  proof
    assume "objects t k = objects s k"
    with k t show ?thesis by simp
  next
    assume "record_allowed c k (map_option fst (objects s k)) (map_option fst (objects t k))"
    then obtain vm' r1 r2 where "client_key c vm' = Inr k" "unmarshalRecord (client_wire c) vm' b = Inr r1"
        "unmarshalRecord (client_wire c) vm' b' = Inr r2" "record_change r1 r2"
      using k(2) t(1) by (auto simp: record_allowed_def)
    then show ?thesis using client_key_inject [OF k(1)] k(3) t(2) by auto
  qed
qed

lemma record_at_run:
  assumes wire: "wire_ok (client_wire c)" and s: "deployment c s" and key: "client_key c vm = Inr k"
    and "run_with (control_step c) k s t" and "record_at c s vm = Some r"
  shows "\<exists>r'. record_at c t vm = Some r' \<and> record_later r r'"
  using assms(4)
proof (induction rule: run_with.induct)
  case run_here
  with assms(5) show ?case by (auto intro: record_later_refl)
next
  case (run_on t u)
  then obtain r1 where r1: "record_at c t vm = Some r1" "record_later r r1" by auto
  have t: "deployment c t" using s run_on.hyps(1) unfolding deployment_def by (rule reachable_run [rotated])
  obtain r2 where r2: "record_at c u vm = Some r2"
    using record_at_present [OF wire deployment_step [OF t run_on.hyps(2)] key run_on.hyps(3)] .
  from record_at_step [OF wire t run_on.hyps(2) r1(1) r2] have "record_later r1 r2"
    using record_later_refl record_change_later by blast
  with r1(2) r2 show ?case using record_later_trans by blast
qed

section \<open>Agents\<close>

lemma agent_control_good: "deployment c s \<Longrightarrow> control_good c (local (agents s i)) (issued s)"
  using control.agent_of [OF deployment_good refl, of c s i]
  by (cases "agents s i") auto

lemma held_ok:
  assumes "wire_ok (client_wire c)" and "deployment c s" and "held (local (agents s i)) = Some h"
  shows "handle_ok c h (issued s)" and "rec_nonce (h_record h) \<in> drawn (local (agents s i))"
  using agent_control_good [OF assms(2), of i] assms by (simp_all add: control_good_def)

definition drawn_apart :: "(nat \<Rightarrow> host) \<Rightarrow> bool" where
  "drawn_apart hosts \<longleftrightarrow> (\<forall>i j. i \<noteq> j \<longrightarrow> drawn (hosts i) \<inter> drawn (hosts j) = {})"

lemma drawn_apart_update:
  assumes "drawn_apart hosts" and "\<And>j. j \<noteq> i \<Longrightarrow> drawn l \<inter> drawn (hosts j) = {}"
  shows "drawn_apart (hosts(i := l))"
  using assms unfolding drawn_apart_def by (simp add: Int_commute)

lemma local_set_agent: "local \<circ> agents (set_agent i x s) = (local \<circ> agents s)(i := local x)"
  by (auto simp: set_agent_def fun_eq_iff)

lemma local_store_same [simp]:
  "agents (apply_write k b e s) = agents s" "agents (apply_removal k s) = agents s" "agents (send r s) = agents s"
  by (simp_all add: apply_write_def apply_removal_def send_def)

lemma drawn_apart_step:
  assumes "control_step c s t" and "drawn_apart (local \<circ> agents s)"
  shows "drawn_apart (local \<circ> agents t)"
proof -
  have same: "drawn_apart ((local \<circ> agents s)(i := l))" if "drawn l = drawn (local (agents s i))" for i l
    using assms(2) that by (intro drawn_apart_update) (auto simp: drawn_apart_def)
  from assms(1) show ?thesis
  proof cases
    case (call i l call)
    have "drawn (control_enter call l) \<inter> drawn ((local \<circ> agents s) j) = {}" if "j \<noteq> i" for j
    proof -
      have "drawn ((local \<circ> agents s) i) \<inter> drawn ((local \<circ> agents s) j) = {}"
        using assms(2) that by (simp add: drawn_apart_def)
      then have "drawn l \<inter> drawn (local (agents s j)) = {}" using call(2) by simp
      then show ?thesis
        using call(3) unfolding enter_drawn by (cases "call_nonce call") (auto simp: control_admit_def)
    qed
    then show ?thesis
      using call assms(2) by (simp add: local_set_agent drawn_apart_update)
  qed (use assms(2) in \<open>simp_all add: local_set_agent same\<close>)
qed

lemma deployment_drawn_apart:
  assumes "deployment c s"
  shows "drawn_apart (local \<circ> agents s)"
  using assms unfolding deployment_def
proof (induction rule: reachable.induct)
  case reach_init
  then show ?case by (simp add: drawn_apart_def sys_init_def new_host_def)
next
  case (reach_step s t)
  then show ?case by (blast intro: drawn_apart_step)
qed

text \<open>What a call about to return answers.\<close>

lemma returned_answer:
  assumes "wire_ok (client_wire c)" and "deployment c s" and "agents s i = Busy call l (Return a)"
  shows "answer_ok c call l a (issued s)"
  using control.agent_of [OF deployment_good [OF assms(2)] assms(3)] assms(1)
  by (simp add: control_answer_def)

lemma stored_was_there:
  assumes "deployment c s" and "stored c vm e r (issued s)"
  shows "\<exists>u. deployment c u \<and> (control_step c)\<^sup>*\<^sup>* u s \<and> record_at c u vm = Some r"
proof -
  obtain k b where k: "client_key c vm = Inr k" "issued s k e = Some b"
      "unmarshalRecord (client_wire c) vm b = Inr r"
    using assms(2) by (auto simp: stored_def)
  from issued_was_stored [OF assms(1) [unfolded deployment_def] k(2)] k(1,3) show ?thesis
    unfolding deployment_def record_at_Some by blast
qed

end
