(* ===== verification/Control_Example.thy ===== *)
theory Control_Example
  imports Control_Safety
begin

text \<open>
  An example deployment, on which the theorems about deployments are shown to apply. One
  agent creates a VM, a second opens it and selects a checkpoint, a third pins the
  checkpoint. The wire format is a codec for the messages of the run, which keeps the law
  of \<open>wire_ok\<close>, and the store's validators are content hashes.
\<close>

definition codec :: "'m list \<Rightarrow> ('m, nat) wire" where
  "codec ms =
     \<lparr>marshal_msg = (\<lambda>m. index_func (\<lambda>x. x = m) ms),
      unmarshal_msg = (\<lambda>n. if n < length ms then Some (ms ! n) else None),
      blob_size = (\<lambda>n. Suc n)\<rparr>"

lemma codec_ok: "wire_ok (codec ms)"
  by (auto simp: wire_ok_def codec_def dest: index_func_Some)

definition hash :: "nat \<Rightarrow> etag" where
  "hash n = replicate (Suc n) CHR ''e''"

lemma inj_hash: "inj hash"
  by (rule injI) (simp add: hash_def replicate_eq_replicate)

definition demo_created :: Record where
  "demo_created =
     \<lparr>rec_vm = ''vm'', rec_epoch = 1, rec_nonce = replicate 16 1, rec_selected = 0x100000001,
      rec_created = True, rec_pinned = [], rec_kept = [], rec_journals = []\<rparr>"

definition demo_opened :: Record where
  "demo_opened = demo_created\<lparr>rec_epoch := 2, rec_nonce := replicate 16 2\<rparr>"

definition demo_selected :: Record where
  "demo_selected = demo_opened\<lparr>rec_selected := 0x200000001\<rparr>"

definition demo_pinned :: Record where
  "demo_pinned = demo_selected\<lparr>rec_pinned := [0x200000001]\<rparr>"

definition demo :: "nat client" where
  "demo = \<lparr>client_prefix = [],
     client_wire = codec (map build_record [demo_created, demo_opened, demo_selected, demo_pinned])\<rparr>"

abbreviation demo_key :: string where
  "demo_key \<equiv> ''control/vm''"

abbreviation demo_store :: "nat \<Rightarrow> nat objects" where
  "demo_store n \<equiv> (\<lambda>_. None)(demo_key \<mapsto> (n, hash n))"

lemma demo_wire: "wire_ok (client_wire demo)"
  by (simp add: demo_def codec_ok)

lemma demo_client_key: "client_key demo ''vm'' = Inr demo_key"
  by code_simp

lemma demo_vm: "ValidID ''vm''" "ValidCreateSequence 0x100000001" "EpochOf 0x100000001 = 1"
  "ValidSequence 2 0x200000001"
  by code_simp+

lemma demo_marshal:
  "Record_marshal (client_wire demo) demo_created = Inr 0"
  "Record_marshal (client_wire demo) demo_opened = Inr 1"
  "Record_marshal (client_wire demo) demo_selected = Inr 2"
  "Record_marshal (client_wire demo) demo_pinned = Inr 3"
  by code_simp+

lemma demo_unmarshal:
  "unmarshalRecord (client_wire demo) ''vm'' 0 = Inr demo_created"
  "unmarshalRecord (client_wire demo) ''vm'' (Suc 0) = Inr demo_opened"
  "unmarshalRecord (client_wire demo) ''vm'' 2 = Inr demo_selected"
  "unmarshalRecord (client_wire demo) ''vm'' 3 = Inr demo_pinned"
  by code_simp+

lemma demo_blob: "blob_size (client_wire demo) = Suc"
  by (simp add: demo_def codec_def)

text \<open>What the store answers at each point of the run.\<close>

lemma demo_read:
  assumes "unmarshalRecord (client_wire demo) ''vm'' n = Inr r" and "n < 1000"
  shows "exec Suc hash (bind (client_read demo ''vm'') f) (demo_store n) =
    exec Suc hash (f (Inr (r, hash n))) (demo_store n)"
  using assms
  by (simp add: client_read_def demo_client_key demo_blob ReadObject_def ReadObjectBody_def sim_get_def
      metadataFor_def hash_def)

lemma demo_swap:
  assumes "Record_marshal (client_wire demo) r = Inr m" and "rec_vm r = ''vm''"
  shows "exec Suc hash (bind (client_put demo r (matching (hash n))) f) (demo_store n) =
    exec Suc hash (f (Inr (hash m))) (demo_store m)"
  using assms
  by (simp add: client_put_def demo_client_key sim_put_def conditionsMatch_def current_etag_def)

lemma demo_create:
  "exec Suc hash (control_start demo (CreateVM ''vm'' 0x100000001 True (replicate 16 1)) l) (\<lambda>_. None)
     = (Some (Opened (Inr (newHandle demo_created (hash 0)))), demo_store 0)"
  using demo_marshal(1) unfolding demo_created_def
  by (simp add: Create_def demo_vm client_put_def demo_client_key sim_put_def conditionsMatch_def current_etag_def)

lemma demo_open:
  "exec Suc hash (control_start demo (OpenVM ''vm'' (replicate 16 2) 1) l) (demo_store 0)
     = (Some (Opened (Inr (newHandle demo_opened (hash 1)))), demo_store 1)"
proof -
  have opened: "open_next demo_created None (replicate 16 2) = Inr demo_opened" by code_simp
  have epoch: "rec_epoch demo_created = 1" by code_simp
  have vm: "rec_vm demo_opened = ''vm''" by code_simp
  have room: "\<not> MaximumEpoch \<le> 1" by code_simp
  have "exec Suc hash (Open demo ''vm'' (replicate 16 2) (Suc 0)) (demo_store 0) =
      (Some (Inr (newHandle demo_opened (hash 1))), demo_store 1)"
    by (simp add: Open_def OpenAfter_def client_open_def demo_vm demo_read [OF demo_unmarshal(1)]
        demo_swap [OF demo_marshal(2) vm] opened epoch room del: MaximumEpoch_def)
  then show ?thesis by (simp add: exec_bind)
qed

lemma demo_select:
  assumes "held l = Some (newHandle demo_opened (hash 1))"
  shows "exec Suc hash (control_start demo (SelectHeld 0x200000001 [] 1) l) (demo_store 1)
     = (Some (Updated (newHandle demo_selected (hash 2), Inr demo_selected)), demo_store 2)"
proof -
  have selected: "selecting 2 0x200000001 None [] demo_opened = Inr demo_selected" by code_simp
  have differ: "\<not> Record_equal demo_selected demo_opened" by code_simp
  have vm: "rec_vm demo_selected = ''vm''" "rec_epoch demo_opened = 2" "rec_epoch demo_selected = 2"
      "rec_vm demo_opened = ''vm''" by code_simp+
  let ?h = "newHandle demo_opened (hash 1)"
  have "exec Suc hash (replace demo ?h demo_selected) (demo_store 1) =
      (Some (newHandle demo_selected (hash 2), Inr demo_selected), demo_store 2)"
    by (simp add: replace_def newHandle_def settle_def vm demo_swap [OF demo_marshal(3) vm(1)])
  then have "exec Suc hash (update demo (selecting 2 0x200000001 None []) (Suc 0) ?h) (demo_store 1) =
      (Some (newHandle demo_selected (hash 2), Inr demo_selected), demo_store 2)"
    by (simp add: Handle_begin_def selected differ exec_bind newHandle_def)
  moreover have "h_epoch ?h = 2" by (simp add: newHandle_def vm)
  ultimately show ?thesis using assms by (simp add: with_held_def Select_def exec_bind del: update.simps)
qed

lemma demo_pin:
  "exec Suc hash (control_start demo (PinVM ''vm'' 0 1) l) (demo_store 2)
     = (Some (Referenced (Inr \<lparr>ref_vm = ''vm'', ref_sequence = 0x200000001\<rparr>)), demo_store 3)"
proof -
  have checks: "pin_check demo_selected 0x200000001 = Inr ()" "\<not> IsPinned demo_selected 0x200000001"
      "rec_selected demo_selected = 0x200000001"
      "demo_selected\<lparr>rec_pinned := withPin demo_selected 0x200000001\<rparr> = demo_pinned" by code_simp+
  have vm: "rec_vm demo_pinned = ''vm''" by code_simp
  have "exec Suc hash (Pin demo ''vm'' 0 (Suc 0)) (demo_store 2) =
      (Some (Inr \<lparr>ref_vm = ''vm'', ref_sequence = 0x200000001\<rparr>), demo_store 3)"
    by (simp add: Pin_def Let_def demo_vm demo_read [OF demo_unmarshal(3)] checks demo_swap [OF demo_marshal(4) vm])
  then show ?thesis by (simp add: exec_bind)
qed

text \<open>The run of the whole deployment, with the record in place from the creation on.\<close>

lemma removes_nothing_client [simp]:
  "removes_nothing (client_read c vm)" "removes_nothing (client_put c r cond)"
  by (simp_all add: client_read_def client_put_def ReadObject_def split: sum.split)

lemma removes_nothing_calls:
  "removes_nothing (control_start demo (OpenVM vm nonce 1) l)"
  "removes_nothing (control_start demo (SelectHeld sequence journals 1) l)"
  "removes_nothing (control_start demo (PinVM vm sequence 1) l)"
  by (auto simp: Open_def OpenAfter_def client_open_def Pin_def Let_def with_held_def Select_def replace_def
      intro!: removes_nothing_bind split: sum.split option.split)

definition demo_after ::
  "(nat, result, call, host) sys \<Rightarrow> nat objects \<Rightarrow> (nat \<Rightarrow> (nat, result, call, host) agent)
   \<Rightarrow> (nat, result, call, host) sys \<Rightarrow> bool" where
  "demo_after s st ag t \<longleftrightarrow>
     deployment demo t \<and> run_with (control_step demo) demo_key s t \<and> objects t = st \<and> agents t = ag \<and>
     content_tags hash t"

lemma demo_after_run:
  assumes "after_run hash (\<lambda>st. st demo_key \<noteq> None) (control_step demo) i x st s"
    and "objects s demo_key \<noteq> None" and "deployment demo s"
  shows "\<exists>t. demo_after s st ((agents s)(i := x)) t"
  using after_run_here [OF assms(1,2)] reachable_run assms(3)
  unfolding demo_after_def deployment_def by blast

lemma demo_call:
  assumes "deployment demo s" and "content_tags hash s" and "agents s i = Rest l"
    and "control_admit (local \<circ> agents s) i call"
    and "exec Suc hash (control_start demo call (control_enter call l)) (objects s) = (Some a, st)"
    and "removes_nothing (control_start demo call (control_enter call l))"
    and "objects s demo_key \<noteq> None"
  shows "\<exists>t. demo_after s st ((agents s)(i := Busy call (control_enter call l) (Return a))) t"
    and "\<exists>t. demo_after s st ((agents s)(i := Rest (control_finish call (control_enter call l) a))) t"
proof -
  have run: "after_run hash (\<lambda>st. st demo_key \<noteq> None) (control_step demo) i
      (Busy call (control_enter call l) (Return a)) st s"
    using inj_hash assms(2-5)
  proof (rule solo_answer)
    show "\<forall>st' \<in> insert (objects s) (set (exec_trace Suc hash
        (control_start demo call (control_enter call l)) (objects s))). st' demo_key \<noteq> None"
      using assms(6,7) removes_nothing_trace by blast
  qed
  show "\<exists>t. demo_after s st ((agents s)(i := Busy call (control_enter call l) (Return a))) t"
    using run assms(7,1) by (rule demo_after_run)
  show "\<exists>t. demo_after s st ((agents s)(i := Rest (control_finish call (control_enter call l) a))) t"
    using answer_then_rest [OF run assms(7)] assms(7,1) by (rule demo_after_run)
qed

text \<open>The states of the run: created, opened, selected and about to return, pinned and about to return.\<close>

abbreviation demo_agents :: "Handle option \<Rightarrow> nat \<Rightarrow> (nat, result, call, host) agent" where
  "demo_agents h \<equiv> (\<lambda>_. Rest new_host)
     (0 := Rest \<lparr>held = Some (newHandle demo_created (hash 0)), drawn = {replicate 16 1}\<rparr>,
      1 := Rest \<lparr>held = h, drawn = (if h = None then {} else {replicate 16 2})\<rparr>)"

lemma demo_created_state:
  "\<exists>s. deployment demo s \<and> objects s = demo_store 0 \<and> agents s = demo_agents None \<and> content_tags hash s"
proof -
  let ?call = "CreateVM ''vm'' 0x100000001 True (replicate 16 1)"
  let ?s = "sys_init (\<lambda>_. new_host) :: (nat, result, call, host) sys"
  have "after_run hash (\<lambda>_. True) (control_step demo) 0 (Busy ?call (control_enter ?call new_host)
      (Return (Opened (Inr (newHandle demo_created (hash 0)))))) (demo_store 0) ?s"
    using inj_hash demo_create
    by (intro solo_answer) (auto simp: sys_init_def content_tags_def control_admit_def new_host_def)
  from answer_then_rest [OF this] obtain s where "reachable (control_step demo) ?s s"
      "objects s = demo_store 0" "content_tags hash s"
      "agents s = (agents ?s)(0 := Rest (control_finish ?call (control_enter ?call new_host)
        (Opened (Inr (newHandle demo_created (hash 0))))))"
    using after_run_reachable [OF _ reachable.reach_init] by blast
  moreover have "agents ?s = (\<lambda>_. Rest new_host)" by (simp add: sys_init_def)
  ultimately show ?thesis
    by (intro exI [of _ s])
      (auto simp: deployment_def control_finish_def control_enter_def new_host_def fun_eq_iff)
qed

abbreviation demo_handle :: Handle where
  "demo_handle \<equiv> newHandle demo_opened (hash 1)"

abbreviation demo_writer :: host where
  "demo_writer \<equiv> \<lparr>held = Some demo_handle, drawn = {replicate 16 2}\<rparr>"

lemma demo_opened_state:
  assumes "deployment demo s" "objects s = demo_store 0" "agents s = demo_agents None" "content_tags hash s"
  shows "\<exists>t. demo_after s (demo_store 1) (demo_agents (Some demo_handle)) t"
proof -
  let ?call = "OpenVM ''vm'' (replicate 16 2) 1"
  have one: "agents s 1 = Rest \<lparr>held = None, drawn = {}\<rparr>" using assms(3) by simp
  have admit: "control_admit (local \<circ> agents s) 1 ?call"
    using assms(3) by (auto simp: control_admit_def new_host_def)
  have here: "objects s demo_key \<noteq> None" using assms(2) by simp
  have same: "(demo_agents None)(1 := Rest (control_finish ?call (control_enter ?call \<lparr>held = None, drawn = {}\<rparr>)
      (Opened (Inr demo_handle)))) = demo_agents (Some demo_handle)"
    by (auto simp: control_finish_def control_enter_def fun_eq_iff)
  show ?thesis
    using demo_call(2) [OF assms(1,4) one admit _ removes_nothing_calls(1) here, unfolded assms(2), OF demo_open]
    unfolding assms(3) same .
qed

lemma demo_selected_state:
  assumes "deployment demo s" "objects s = demo_store 1" "agents s = demo_agents (Some demo_handle)"
    "content_tags hash s"
  shows "\<exists>t. demo_after s (demo_store 2) ((agents s)(1 := Busy (SelectHeld 0x200000001 [] 1) demo_writer
      (Return (Updated (newHandle demo_selected (hash 2), Inr demo_selected))))) t"
    and "\<exists>t. demo_after s (demo_store 2) ((agents s)(1 := Rest
      \<lparr>held = Some (newHandle demo_selected (hash 2)), drawn = {replicate 16 2}\<rparr>)) t"
proof -
  let ?call = "SelectHeld 0x200000001 [] 1"
  have one: "agents s 1 = Rest demo_writer" using assms(3) by simp
  have admit: "control_admit (local \<circ> agents s) 1 ?call" by (simp add: control_admit_def)
  have enter: "control_enter ?call demo_writer = demo_writer" by (simp add: control_enter_def)
  have here: "objects s demo_key \<noteq> None" using assms(2) by simp
  have exec: "exec Suc hash (control_start demo ?call (control_enter ?call demo_writer)) (objects s) =
      (Some (Updated (newHandle demo_selected (hash 2), Inr demo_selected)), demo_store 2)"
    unfolding enter assms(2) by (rule demo_select) simp
  note run = demo_call [OF assms(1,4) one admit exec removes_nothing_calls(2) here, unfolded enter]
  show "\<exists>t. demo_after s (demo_store 2) ((agents s)(1 := Busy ?call demo_writer
      (Return (Updated (newHandle demo_selected (hash 2), Inr demo_selected))))) t"
    by (rule run(1))
  show "\<exists>t. demo_after s (demo_store 2) ((agents s)(1 := Rest
      \<lparr>held = Some (newHandle demo_selected (hash 2)), drawn = {replicate 16 2}\<rparr>)) t"
    using run(2) by (simp add: control_finish_def)
qed

lemma demo_pinned_state:
  assumes "deployment demo s" "objects s = demo_store 2" "agents s 2 = Rest new_host" "content_tags hash s"
  shows "\<exists>t. demo_after s (demo_store 3) ((agents s)(2 := Busy (PinVM ''vm'' 0 1) new_host
      (Return (Referenced (Inr \<lparr>ref_vm = ''vm'', ref_sequence = 0x200000001\<rparr>))))) t"
proof -
  let ?call = "PinVM ''vm'' 0 1"
  have admit: "control_admit (local \<circ> agents s) 2 ?call" by (simp add: control_admit_def)
  have enter: "control_enter ?call new_host = new_host" by (simp add: control_enter_def)
  have here: "objects s demo_key \<noteq> None" using assms(2) by simp
  have exec: "exec Suc hash (control_start demo ?call (control_enter ?call new_host)) (objects s) =
      (Some (Referenced (Inr \<lparr>ref_vm = ''vm'', ref_sequence = 0x200000001\<rparr>)), demo_store 3)"
    unfolding assms(2) by (rule demo_pin)
  show ?thesis
    using demo_call(1) [OF assms(1,4,3) admit exec removes_nothing_calls(3) here] unfolding enter .
qed

text \<open>The record at each point of the run.\<close>

lemma demo_records:
  "objects s = demo_store 0 \<Longrightarrow> record_at demo s ''vm'' = Some demo_created"
  "objects s = demo_store 1 \<Longrightarrow> record_at demo s ''vm'' = Some demo_opened"
  "objects s = demo_store 2 \<Longrightarrow> record_at demo s ''vm'' = Some demo_selected"
  "objects s = demo_store 3 \<Longrightarrow> record_at demo s ''vm'' = Some demo_pinned"
  using demo_unmarshal by (simp_all add: record_at_def demo_client_key)

lemma demo_run:
  obtains s1 s2 s3 where
    "deployment demo s1" "objects s1 = demo_store 0" "agents s1 = demo_agents None"
    "demo_after s1 (demo_store 1) (demo_agents (Some demo_handle)) s2"
    "demo_after s2 (demo_store 2) ((demo_agents (Some demo_handle))(1 := Rest
      \<lparr>held = Some (newHandle demo_selected (hash 2)), drawn = {replicate 16 2}\<rparr>)) s3"
proof -
  obtain s1 where s1: "deployment demo s1" "objects s1 = demo_store 0" "agents s1 = demo_agents None"
      "content_tags hash s1"
    using demo_created_state by blast
  then obtain s2 where s2: "demo_after s1 (demo_store 1) (demo_agents (Some demo_handle)) s2"
    using demo_opened_state by blast
  then have "deployment demo s2" "objects s2 = demo_store 1" "agents s2 = demo_agents (Some demo_handle)"
      "content_tags hash s2"
    by (simp_all add: demo_after_def)
  from demo_selected_state(2) [OF this] this(3) s1 s2 that show ?thesis by auto
qed

text \<open>The step of the run at which the record appears.\<close>

lemma demo_create_step:
  obtains s t where "deployment demo s" "control_step demo s t" "record_at demo s ''vm'' = None"
    "record_at demo t ''vm'' = Some demo_created"
proof -
  let ?call = "CreateVM ''vm'' 0x100000001 True (replicate 16 1)"
  let ?l = "control_enter ?call new_host"
  let ?s = "sys_init (\<lambda>_. new_host) :: (nat, result, call, host) sys"
  let ?u = "set_agent 0 (Busy ?call ?l (control_start demo ?call ?l)) ?s"
  have "\<exists>f. control_start demo ?call ?l = Put demo_key 0 absent f"
    using demo_marshal(1) unfolding demo_created_def
    by (simp add: Create_def demo_vm client_put_def demo_client_key)
  then obtain f where f: "control_start demo ?call ?l = Put demo_key 0 absent f" by blast
  let ?t = "set_agent 0 (Busy ?call ?l (f (Inr (hash 0)))) (apply_write demo_key 0 (hash 0) (send (Write demo_key 0 absent) ?u))"
  have "control_step demo ?s ?u"
    by (rule sys_step.call) (auto simp: sys_init_def control_admit_def new_host_def)
  then have "deployment demo ?u"
    unfolding deployment_def by (blast intro: reachable.intros)
  moreover have "control_step demo ?u ?t"
    by (rule sys_step.put_landed)
      (auto simp: f set_agent_def sys_init_def conditionsMatch_def current_etag_def issuable_def
        simp del: control_start.simps)
  moreover have "record_at demo ?u ''vm'' = None"
    by (simp add: record_at_def demo_client_key set_agent_def sys_init_def)
  moreover have "record_at demo ?t ''vm'' = Some demo_created"
    using demo_unmarshal(1) by (simp add: record_at_def demo_client_key set_agent_def apply_write_def)
  ultimately show ?thesis by (rule that)
qed

text \<open>A client whose codec also has the record the superseded writer would select.\<close>

definition demo_late :: "nat client" where
  "demo_late = \<lparr>client_prefix = [],
     client_wire = codec (map build_record [demo_created, demo_opened, demo_created\<lparr>rec_selected := 0x100000002\<rparr>])\<rparr>"

end
