(* ===== verification/Control_Theorems.thy ===== *)
theory Control_Theorems
  imports Control_Example
begin

text \<open>
  The properties of the control plane. The first group holds in every state a deployment
  can reach: any number of agents, any interleaving, any error from the store, any lost
  reply, and writes applied late or twice. The second group says what an operation run
  alone returns. The third is about the pure parts: sequences, identities and the wire
  format.
\<close>

section \<open>Deployments\<close>

text \<open>
  C1. One step of a deployment changes a VM's record only as the specification allows: a
  record appears only by a creation, disappears only by the removal of its object, and
  otherwise stays or goes through an open, a selection, a pin or a release.
\<close>

theorem record_changes_as_specified:
  assumes "wire_ok (client_wire c)" and "deployment c s" and "control_step c s t" and "client_key c vm = Inr k"
  shows "case (record_at c s vm, record_at c t vm) of
      (None, None) \<Rightarrow> True
    | (None, Some r') \<Rightarrow> created_record r' \<and> objects s k = None
    | (Some r, None) \<Rightarrow> objects t k = None
    | (Some r, Some r') \<Rightarrow> r' = r \<or> record_change r r'"
proof (cases "record_at c s vm")
  case None
  then have gone: "objects s k = None"
    using record_at_present [OF assms(1,2,4)] by fastforce
  have "created_record r'" if r': "record_at c t vm = Some r'" for r'
  proof -
    obtain b' e' where t: "objects t k = Some (b', e')" "unmarshalRecord (client_wire c) vm b' = Inr r'"
      using r' assms(4) by (auto simp: record_at_Some)
    with deployment_change [OF assms(1-3), of k] gone
    obtain vm' r1 where "client_key c vm' = Inr k" "unmarshalRecord (client_wire c) vm' b' = Inr r1" "created_record r1"
      by (auto simp: record_allowed_def)
    then show ?thesis using client_key_inject [OF assms(4)] t(2) by auto
  qed
  with None gone show ?thesis by (auto split: option.split)
next
  case (Some r)
  have "objects t k = None" if "record_at c t vm = None"
    using record_at_present [OF assms(1) deployment_step [OF assms(2,3)] assms(4)] that by fastforce
  with Some record_at_step [OF assms(1-3) Some] show ?thesis by (auto split: option.split)
qed

theorem record_changes_as_specified_witness:
  "\<exists>s t. deployment demo s \<and> control_step demo s t \<and> record_at demo s ''vm'' = None \<and>
     (\<exists>r'. record_at demo t ''vm'' = Some r' \<and> created_record r')"
proof -
  obtain s t where s: "deployment demo s" "control_step demo s t" "record_at demo s ''vm'' = None"
      "record_at demo t ''vm'' = Some demo_created"
    by (rule demo_create_step)
  with record_changes_as_specified [OF demo_wire s(1,2) demo_client_key] show ?thesis by auto
qed

text \<open>
  C15. Whatever is stored at a record's key is a record: it parses, it names the VM of the
  key, and it is valid.
\<close>

theorem stored_records_are_valid:
  assumes "wire_ok (client_wire c)" and "deployment c s" and "objects s k = Some (b, e)"
  shows "\<exists>vm r. client_key c vm = Inr k \<and> record_at c s vm = Some r \<and> rec_vm r = vm \<and> Record_valid r"
proof -
  obtain vm r where "client_key c vm = Inr k" "unmarshalRecord (client_wire c) vm b = Inr r"
    using deployment_parses [OF assms] by blast
  with assms(3) have "record_at c s vm = Some r" by (auto simp: record_at_Some)
  then show ?thesis
    using \<open>client_key c vm = Inr k\<close> unmarshal_valid [OF \<open>unmarshalRecord (client_wire c) vm b = Inr r\<close>]
    by blast
qed

theorem stored_records_are_valid_witness:
  "\<exists>s r. deployment demo s \<and> objects s demo_key \<noteq> None \<and> record_at demo s ''vm'' = Some r \<and> Record_valid r"
proof -
  obtain s1 s2 s3 where s: "deployment demo s1" "objects s1 = demo_store 0" using demo_run by metis
  have "objects s1 demo_key = Some (0, hash 0)" using s(2) by simp
  with stored_records_are_valid [OF demo_wire s(1)] obtain vm r where
    "client_key demo vm = Inr demo_key" "record_at demo s1 vm = Some r" "Record_valid r" by blast
  with client_key_inject [OF demo_client_key] have "record_at demo s1 ''vm'' = Some r" by metis
  with s \<open>Record_valid r\<close> show ?thesis by (intro exI [of _ s1] exI [of _ r]) simp
qed

text \<open>
  C3. While a VM's record is there, its epoch and its selected sequence never go down, a
  pin is never lost, a published checkpoint stays published, and two records of one epoch
  have one writer's nonce.
\<close>

theorem records_only_advance:
  assumes "wire_ok (client_wire c)" and "deployment c s" and "client_key c vm = Inr k"
    and "run_with (control_step c) k s t" and "record_at c s vm = Some r"
  shows "\<exists>r'. record_at c t vm = Some r' \<and> rec_epoch r \<le> rec_epoch r' \<and> rec_selected r \<le> rec_selected r' \<and>
    set (rec_pinned r) \<subseteq> set (rec_pinned r') \<and> (rec_created r \<longrightarrow> rec_created r') \<and>
    (rec_epoch r' = rec_epoch r \<longrightarrow> rec_nonce r' = rec_nonce r)"
  using record_at_run [OF assms] by (auto simp: record_later_def)

theorem records_only_advance_witness:
  "\<exists>s t r'. deployment demo s \<and> run_with (control_step demo) demo_key s t \<and>
     record_at demo s ''vm'' = Some demo_created \<and> record_at demo t ''vm'' = Some r' \<and>
     rec_epoch demo_created \<le> rec_epoch r' \<and> rec_selected demo_created \<le> rec_selected r'"
proof -
  obtain s1 s2 s3 where s: "deployment demo s1" "objects s1 = demo_store 0"
      "demo_after s1 (demo_store 1) (demo_agents (Some demo_handle)) s2"
    using demo_run by metis
  then have run: "run_with (control_step demo) demo_key s1 s2" by (simp add: demo_after_def)
  from records_only_advance [OF demo_wire s(1) demo_client_key run demo_records(1) [OF s(2)]]
  show ?thesis using s run demo_records(1) [OF s(2)] by blast
qed

text \<open>
  C2. A writer that was superseded cannot move the selection: once the record is at an
  epoch, no sequence of an earlier epoch ever becomes the selected one.
\<close>

theorem superseded_selection_never_lands:
  assumes "wire_ok (client_wire c)" and "deployment c s" and "client_key c vm = Inr k"
    and "run_with (control_step c) k s t" and "record_at c s vm = Some r"
    and "EpochOf sequence < rec_epoch r" and "sequence \<noteq> rec_selected r"
  shows "\<exists>r'. record_at c t vm = Some r' \<and> rec_selected r' \<noteq> sequence"
  using record_at_run [OF assms(1-5)] assms(6,7) by (auto simp: record_later_def)

theorem superseded_selection_never_lands_witness:
  "\<exists>s t r'. deployment demo s \<and> run_with (control_step demo) demo_key s t \<and>
     record_at demo s ''vm'' = Some demo_opened \<and> record_at demo t ''vm'' = Some r' \<and> rec_selected r' \<noteq> 0x100000002"
proof -
  obtain s1 s2 s3 where s: "demo_after s1 (demo_store 1) (demo_agents (Some demo_handle)) s2"
      "demo_after s2 (demo_store 2) ((demo_agents (Some demo_handle))(1 := Rest
        \<lparr>held = Some (newHandle demo_selected (hash 2)), drawn = {replicate 16 2}\<rparr>)) s3"
    using demo_run by metis
  then have s2: "deployment demo s2" "objects s2 = demo_store 1"
    and run: "run_with (control_step demo) demo_key s2 s3" by (simp_all add: demo_after_def)
  have "EpochOf 0x100000002 < rec_epoch demo_opened" "0x100000002 \<noteq> rec_selected demo_opened" by code_simp+
  from superseded_selection_never_lands [OF demo_wire s2(1) demo_client_key run demo_records(2) [OF s2(2)] this]
  show ?thesis using s2 run demo_records(2) [OF s2(2)] by blast
qed

text \<open>
  C9. A selection that was answered with a record was stored: at some point of the run the
  VM's record was exactly the record reported, of the handle's epoch, selecting the
  sequence asked for as published, and naming the journals given.
\<close>

theorem acknowledged_selection_was_stored:
  assumes "wire_ok (client_wire c)" and "deployment c s"
    and "agents s i = Busy (SelectHeld sequence journals fuel) l (Return (Updated (h', Inr r)))"
  shows "\<exists>h u. held l = Some h \<and> deployment c u \<and> (control_step c)\<^sup>*\<^sup>* u s \<and>
    record_at c u (h_vm h) = Some r \<and> rec_epoch r = h_epoch h \<and> rec_selected r = sequence \<and>
    rec_created r \<and> rec_journals r = journals"
proof -
  have "held_answer c l (\<lambda>h. selecting (h_epoch h) sequence None journals) (Updated (h', Inr r)) (issued s)"
    using returned_answer [OF assms] by simp
  then obtain h where h: "held l = Some h"
    and up: "updated c (selecting (h_epoch h) sequence None journals) h (h', Inr r) (issued s)"
    by (auto simp: held_answer_def split: option.splits)
  obtain current where current: "selecting (h_epoch h) sequence None journals current = Inr r"
    and same: "h_vm h' = h_vm h" "h_epoch h' = h_epoch h" "r = h_record h'" "\<not> h_fenced h'"
    and ok: "handle_ok c h' (issued s)"
    using up by (auto simp: updated_def)
  have "stored c (h_vm h) (h_etag h') r (issued s)" and epoch: "rec_epoch r = h_epoch h"
    using ok same by (auto simp: handle_ok_def)
  with stored_was_there [OF assms(2)] obtain u where
    "deployment c u" "(control_step c)\<^sup>*\<^sup>* u s" "record_at c u (h_vm h) = Some r" by blast
  with h epoch selecting_Inr [OF current] show ?thesis by blast
qed

theorem acknowledged_selection_was_stored_witness:
  "\<exists>s u h r. deployment demo s \<and> held demo_writer = Some h \<and>
     agents s 1 = Busy (SelectHeld 0x200000001 [] 1) demo_writer (Return (Updated (newHandle demo_selected (hash 2), Inr r))) \<and>
     deployment demo u \<and> record_at demo u (h_vm h) = Some r \<and> rec_selected r = 0x200000001"
proof -
  obtain s1 s2 s3 where "demo_after s1 (demo_store 1) (demo_agents (Some demo_handle)) s2"
    using demo_run by metis
  then have s2: "deployment demo s2" "objects s2 = demo_store 1" "agents s2 = demo_agents (Some demo_handle)"
      "content_tags hash s2" by (simp_all add: demo_after_def)
  then obtain t where t: "deployment demo t"
      "agents t 1 = Busy (SelectHeld 0x200000001 [] 1) demo_writer (Return (Updated (newHandle demo_selected (hash 2), Inr demo_selected)))"
    using demo_selected_state(1) [OF s2] by (auto simp: demo_after_def)
  from acknowledged_selection_was_stored [OF demo_wire t] t show ?thesis by blast
qed

text \<open>
  C4. At most one handle in a deployment owns a VM: of two agents' handles, the stored
  record carries the epoch and nonce of at most one.
\<close>

theorem one_owner:
  assumes "wire_ok (client_wire c)" and "deployment c s" and "i \<noteq> j"
    and "held (local (agents s i)) = Some h" and "held (local (agents s j)) = Some h'"
    and "record_at c s vm = Some r"
  shows "\<not> (mine r (h_epoch h) (rec_nonce (h_record h)) \<and> mine r (h_epoch h') (rec_nonce (h_record h')))"
proof
  assume "mine r (h_epoch h) (rec_nonce (h_record h)) \<and> mine r (h_epoch h') (rec_nonce (h_record h'))"
  then have "rec_nonce (h_record h) = rec_nonce (h_record h')" by (auto simp: mine_def)
  moreover have "rec_nonce (h_record h) \<in> drawn (local (agents s i))"
    "rec_nonce (h_record h') \<in> drawn (local (agents s j))"
    using held_ok(2) [OF assms(1,2)] assms(4,5) by blast+
  ultimately show False
    using deployment_drawn_apart [OF assms(2)] assms(3) by (fastforce simp: drawn_apart_def)
qed

theorem one_owner_witness:
  "\<exists>s. deployment demo s \<and> record_at demo s ''vm'' = Some demo_opened \<and>
     held (local (agents s 0)) = Some (newHandle demo_created (hash 0)) \<and> held (local (agents s 1)) = Some demo_handle \<and>
     \<not> (mine demo_opened 1 (replicate 16 1) \<and> mine demo_opened 2 (replicate 16 2))"
proof -
  obtain s1 s2 s3 where "demo_after s1 (demo_store 1) (demo_agents (Some demo_handle)) s2"
    using demo_run by metis
  then have s2: "deployment demo s2" "objects s2 = demo_store 1" "agents s2 = demo_agents (Some demo_handle)"
    by (simp_all add: demo_after_def)
  have held: "held (local (agents s2 0)) = Some (newHandle demo_created (hash 0))"
      "held (local (agents s2 1)) = Some demo_handle"
    using s2(3) by simp_all
  have "h_epoch (newHandle demo_created (hash 0)) = 1" "rec_nonce demo_created = replicate 16 1"
      "h_epoch demo_handle = 2" "rec_nonce demo_opened = replicate 16 2"
      "h_record (newHandle demo_created (hash 0)) = demo_created" "h_record demo_handle = demo_opened"
    by (simp_all add: newHandle_def demo_created_def demo_opened_def)
  with one_owner [OF demo_wire s2(1) _ held demo_records(2) [OF s2(2)]] s2 held demo_records(2) [OF s2(2)]
  show ?thesis by (intro exI [of _ s2]) simp
qed

text \<open>
  C10. A pin that was answered is permanent: from some point of the run before the answer,
  the checkpoint is pinned in every state for as long as the record is there.
\<close>

theorem acknowledged_pin_is_permanent:
  assumes "wire_ok (client_wire c)" and "deployment c s" and "client_key c vm = Inr k"
    and "agents s i = Busy (PinVM vm sequence fuel) l (Return (Referenced (Inr ref)))"
  shows "ref_vm ref = vm \<and> (sequence \<noteq> 0 \<longrightarrow> ref_sequence ref = sequence) \<and>
    (\<exists>u. deployment c u \<and> (control_step c)\<^sup>*\<^sup>* u s \<and> objects u k \<noteq> None \<and>
      (\<forall>t. run_with (control_step c) k u t \<longrightarrow>
        (\<exists>r. record_at c t vm = Some r \<and> IsPinned r (ref_sequence ref))))"
proof -
  have "pinned_ref c vm sequence (Inr ref) (issued s)"
    using returned_answer [OF assms(1,2,4)] by simp
  then obtain e r where ref: "ref_vm ref = vm" "sequence \<noteq> 0 \<longrightarrow> ref_sequence ref = sequence"
    and r: "stored c vm e r (issued s)" "IsPinned r (ref_sequence ref)"
    by (auto simp: pinned_ref_def)
  obtain u where u: "deployment c u" "(control_step c)\<^sup>*\<^sup>* u s" "record_at c u vm = Some r"
    using stored_was_there [OF assms(2) r(1)] by blast
  have "\<exists>r'. record_at c t vm = Some r' \<and> IsPinned r' (ref_sequence ref)" if "run_with (control_step c) k u t" for t
    using record_at_run [OF assms(1) u(1) assms(3) that u(3)] r(2) by (auto simp: record_later_def IsPinned_def)
  moreover have "objects u k \<noteq> None" using u(3) assms(3) by (auto simp: record_at_Some)
  ultimately show ?thesis using ref u by blast
qed

theorem acknowledged_pin_is_permanent_witness:
  "\<exists>s u. deployment demo s \<and>
     agents s 2 = Busy (PinVM ''vm'' 0 1) new_host (Return (Referenced (Inr \<lparr>ref_vm = ''vm'', ref_sequence = 0x200000001\<rparr>))) \<and>
     deployment demo u \<and> objects u demo_key \<noteq> None \<and>
     (\<forall>t. run_with (control_step demo) demo_key u t \<longrightarrow>
       (\<exists>r. record_at demo t ''vm'' = Some r \<and> IsPinned r 0x200000001))"
proof -
  obtain s1 s2 s3 where s: "demo_after s2 (demo_store 2) ((demo_agents (Some demo_handle))(1 := Rest
        \<lparr>held = Some (newHandle demo_selected (hash 2)), drawn = {replicate 16 2}\<rparr>)) s3"
    using demo_run by metis
  then have s3: "deployment demo s3" "objects s3 = demo_store 2" "agents s3 2 = Rest new_host" "content_tags hash s3"
    by (simp_all add: demo_after_def)
  obtain t where t: "deployment demo t" "agents t 2 = Busy (PinVM ''vm'' 0 1) new_host
      (Return (Referenced (Inr \<lparr>ref_vm = ''vm'', ref_sequence = 0x200000001\<rparr>)))"
    using demo_pinned_state [OF s3] by (auto simp: demo_after_def)
  from acknowledged_pin_is_permanent [OF demo_wire t(1) demo_client_key t(2)] t show ?thesis by auto
qed

section \<open>Operations run alone\<close>

text \<open>What one request answers, when nobody else is writing.\<close>

definition object_ok :: "'b client \<Rightarrow> 'b objects \<Rightarrow> string \<Rightarrow> string \<Rightarrow> Record \<Rightarrow> etag \<Rightarrow> bool" where
  "object_ok c st vm k r e \<longleftrightarrow>
     client_key c vm = Inr k \<and> e \<noteq> [] \<and>
     (\<exists>b. st k = Some (b, e) \<and> 1 \<le> blob_size (client_wire c) b \<and>
        int (blob_size (client_wire c) b) \<le> maximumRecordSize \<and> unmarshalRecord (client_wire c) vm b = Inr r)"

lemma exec_read:
  assumes "object_ok c st vm k r e"
  shows "exec (blob_size (client_wire c)) etagOf (bind (client_read c vm) f) st =
    exec (blob_size (client_wire c)) etagOf (f (Inr (r, e))) st"
  using assms
  by (auto simp: object_ok_def client_read_def ReadObject_def ReadObjectBody_def sim_get_def metadataFor_def)

lemma exec_put_matching:
  assumes "object_ok c st vm k r e" and "rec_vm r' = vm" and "Record_marshal (client_wire c) r' = Inr b'"
  shows "exec size_of etagOf (bind (client_put c r' (matching e0)) f) st =
    (if e0 = e then exec size_of etagOf (f (Inr (etagOf b'))) (st(k \<mapsto> (b', etagOf b')))
     else exec size_of etagOf (f (Inl [Precondition])) st)"
  using assms
  by (auto simp: object_ok_def client_put_def sim_put_def conditionsMatch_def current_etag_def)

text \<open>
  C22. An open that nobody disturbs takes the next epoch under its own nonce, in one read
  and one write, and keeps the rest of the record.
\<close>

theorem open_takes_next_epoch:
  assumes "object_ok c st vm k r e" and "rec_epoch r < MaximumEpoch"
    and "next = r\<lparr>rec_epoch := rec_epoch r + 1, rec_nonce := nonce\<rparr>"
    and "Record_marshal (client_wire c) next = Inr b'"
  shows "exec (blob_size (client_wire c)) etagOf (Open c vm nonce (Suc n)) st =
    (Some (Inr (newHandle next (etagOf b'))), st(k \<mapsto> (b', etagOf b')))"
proof -
  have vm: "ValidID vm" "rec_vm r = vm"
    using assms(1) by (auto simp: object_ok_def client_key_def split: if_splits dest: unmarshal_valid)
  have "open_next r None nonce = Inr next" by (simp add: open_next_def assms(3))
  moreover have "rec_vm next = vm" using vm(2) assms(3) by simp
  ultimately show ?thesis
    using assms(2) vm(1)
    by (simp add: Open_def OpenAfter_def client_open_def exec_read [OF assms(1)]
        exec_put_matching [OF assms(1) _ assms(4)] not_le [symmetric])
qed

theorem open_takes_next_epoch_witness:
  "exec Suc hash (Open demo ''vm'' (replicate 16 2) 1) (demo_store 0) =
     (Some (Inr (newHandle demo_opened (hash 1))), demo_store 1)"
proof -
  have "object_ok demo (demo_store 0) ''vm'' demo_key demo_created (hash 0)"
    using demo_unmarshal(1) by (simp add: object_ok_def demo_client_key demo_blob) (simp add: hash_def)
  moreover have "rec_epoch demo_created < MaximumEpoch" by code_simp
  moreover have "demo_opened = demo_created\<lparr>rec_epoch := rec_epoch demo_created + 1, rec_nonce := replicate 16 2\<rparr>"
    by code_simp
  ultimately show ?thesis
    using open_takes_next_epoch [of demo "demo_store 0" "''vm''" demo_key demo_created "hash 0" demo_opened
        "replicate 16 2" 1 hash 0] demo_marshal(2) by (simp add: demo_blob)
qed

text \<open>
  C23. A selection by the handle that owns the record is stored in one write and reported,
  and the handle tracks it.
\<close>

theorem owner_selects:
  assumes "object_ok c st vm k (h_record h) (h_etag h)" and "\<not> h_fenced h" and "\<not> h_closed h"
    and "selecting (h_epoch h) sequence None journals (h_record h) = Inr next" and "next \<noteq> h_record h"
    and "Record_marshal (client_wire c) next = Inr b'"
  shows "exec (blob_size (client_wire c)) etagOf (Select c h sequence journals (Suc n)) st =
    (Some (h\<lparr>h_record := next, h_etag := etagOf b'\<rparr>, Inr next), st(k \<mapsto> (b', etagOf b')))"
proof -
  have "rec_vm (h_record h) = vm" using assms(1) by (auto simp: object_ok_def dest: unmarshal_valid)
  then have vm: "rec_vm next = vm" by (subst selecting_Inr(7) [OF assms(4)]) simp
  have "exec (blob_size (client_wire c)) etagOf (replace c h next) st =
      (Some (h\<lparr>h_record := next, h_etag := etagOf b'\<rparr>, Inr next), st(k \<mapsto> (b', etagOf b')))"
    by (simp add: replace_def exec_put_matching [OF assms(1) vm assms(6)] settle_def)
  then show ?thesis
    using assms(2-5) by (simp add: Select_def Handle_begin_def Record_equal_iff exec_bind)
qed

theorem owner_selects_witness:
  "exec Suc hash (Select demo demo_handle 0x200000001 [] 1) (demo_store 1) =
     (Some (demo_handle\<lparr>h_record := demo_selected, h_etag := hash 2\<rparr>, Inr demo_selected), demo_store 2)"
proof -
  have "object_ok demo (demo_store 1) ''vm'' demo_key (h_record demo_handle) (h_etag demo_handle)"
    using demo_unmarshal(2)
    by (simp add: object_ok_def demo_client_key demo_blob newHandle_def) (simp add: hash_def)
  moreover have "selecting (h_epoch demo_handle) 0x200000001 None [] (h_record demo_handle) = Inr demo_selected"
    "demo_selected \<noteq> h_record demo_handle" by code_simp+
  moreover have "\<not> h_fenced demo_handle" "\<not> h_closed demo_handle" by (simp_all add: newHandle_def)
  ultimately show ?thesis
    using owner_selects [of demo "demo_store 1" "''vm''" demo_key demo_handle "0x200000001" "[]" demo_selected 2 hash 0]
      demo_marshal(3) by (simp add: demo_blob)
qed

text \<open>
  C16. A handle whose VM was taken over is told so at its next selection: the write is
  refused, the handle is fenced, the answer is \<^verbatim>\<open>ErrFenced\<close> and the record is left alone.
\<close>

theorem superseded_handle_is_fenced:
  assumes "object_ok c st vm k r e" and "rec_vm (h_record h) = vm" and "e \<noteq> h_etag h"
    and "h_epoch h < rec_epoch r" and "rec_epoch (h_record h) = h_epoch h"
    and "\<not> h_fenced h" and "\<not> h_closed h"
    and "selecting (h_epoch h) sequence None journals (h_record h) = Inr next" and "next \<noteq> h_record h"
    and "Record_marshal (client_wire c) next = Inr b'"
  shows "exec (blob_size (client_wire c)) etagOf (Select c h sequence journals (Suc n)) st =
    (Some (h\<lparr>h_fenced := True, h_etag := e\<rparr>, Inl [Fenced, Precondition]), st)"
proof -
  have vm: "rec_vm next = vm" using assms(2) by (subst selecting_Inr(7) [OF assms(8)]) simp
  have later: "r \<noteq> next" "r \<noteq> h_record h" "\<not> mine r (h_epoch h) (rec_nonce next)"
    using assms(4,5) selecting_Inr(4) [OF assms(8)] by (auto simp: mine_def)
  have "exec (blob_size (client_wire c)) etagOf (replace c h next) st =
      (Some (h\<lparr>h_fenced := True, h_etag := e\<rparr>, Inl [Fenced, Precondition]), st)"
    using assms(3) vm later
    by (simp add: replace_def exec_put_matching [OF assms(1) vm assms(10)] exec_read [OF assms(1)]
        Record_equal_iff settle_def)
  then show ?thesis
    using assms(6-9) by (simp add: Select_def Handle_begin_def Record_equal_iff exec_bind)
qed

theorem superseded_handle_is_fenced_witness:
  "\<exists>h. h_epoch h = 1 \<and> exec Suc hash (Select demo_late h 0x100000002 [] 1) (demo_store 1) =
     (Some (h\<lparr>h_fenced := True, h_etag := hash 1\<rparr>, Inl [Fenced, Precondition]), demo_store 1)"
proof -
  let ?h = "newHandle demo_created (hash 0)"
  let ?next = "demo_created\<lparr>rec_selected := 0x100000002\<rparr>"
  have unmarshal: "unmarshalRecord (client_wire demo_late) ''vm'' (Suc 0) = Inr demo_opened"
    and key: "client_key demo_late ''vm'' = Inr demo_key"
    and marshal: "Record_marshal (client_wire demo_late) ?next = Inr 2" by code_simp+
  have size: "blob_size (client_wire demo_late) = Suc" by (simp add: demo_late_def codec_def)
  have "object_ok demo_late (demo_store 1) ''vm'' demo_key demo_opened (hash 1)"
    using unmarshal by (simp add: object_ok_def key size) (simp add: hash_def)
  moreover have "selecting (h_epoch ?h) 0x100000002 None [] (h_record ?h) = Inr ?next" "?next \<noteq> h_record ?h"
    "rec_vm (h_record ?h) = ''vm''" "hash 1 \<noteq> h_etag ?h" "h_epoch ?h < rec_epoch demo_opened"
    "rec_epoch (h_record ?h) = h_epoch ?h" "\<not> h_fenced ?h" "\<not> h_closed ?h" "h_epoch ?h = 1" by code_simp+
  ultimately show ?thesis
    using superseded_handle_is_fenced [of demo_late "demo_store 1" "''vm''" demo_key demo_opened "hash 1" ?h
        "0x100000002" "[]" ?next 2 hash 0] marshal
    by (intro exI [of _ ?h]) (simp add: size)
qed

section \<open>Records, sequences and identities\<close>

text \<open>
  C25. A record written is the record read: whatever \<^verbatim>\<open>marshal\<close> produces parses back to the
  same record under its own VM's identity, and is refused as corrupt under any other.
\<close>

theorem record_round_trip:
  assumes "wire_ok w" and "Record_marshal w r = Inr b"
  shows "Record_valid r \<and> int (blob_size w b) \<le> maximumRecordSize \<and>
    unmarshalRecord w (rec_vm r) b = Inr r \<and> (vm \<noteq> rec_vm r \<longrightarrow> unmarshalRecord w vm b = Inl [Corrupt])"
proof -
  have "unmarshal_msg w b = Some (build_record r)"
    using assms by (auto simp: Record_marshal_def wire_ok_def split: if_splits option.splits)
  then have "vm \<noteq> rec_vm r \<longrightarrow> unmarshalRecord w vm b = Inl [Corrupt]"
    by (simp add: unmarshalRecord_def read_record_build)
  then show ?thesis
    using marshal_valid [OF assms(2)] marshal_size [OF assms(2)] unmarshal_marshal [OF assms] by blast
qed

theorem record_round_trip_witness:
  "unmarshalRecord (client_wire demo) ''vm'' 3 = Inr demo_pinned \<and>
   unmarshalRecord (client_wire demo) ''another'' 3 = Inl [Corrupt]"
  using record_round_trip [OF demo_wire demo_marshal(4), of "''another''"]
  by (simp add: demo_pinned_def demo_selected_def demo_opened_def demo_created_def)

text \<open>
  C32. Sequences are epoch-major: composing one from an epoch and a counter in range is
  invertible, and every sequence of a later epoch is above every sequence of an earlier.
\<close>

theorem sequences_are_epoch_major:
  assumes "epoch \<le> MaximumEpoch" and "counter \<le> MaximumCounter"
    and "epoch' \<le> MaximumEpoch" and "counter' \<le> MaximumCounter"
  shows "EpochOf (Sequence epoch counter) = epoch \<and> CounterOf (Sequence epoch counter) = counter \<and>
    (epoch < epoch' \<longrightarrow> Sequence epoch counter < Sequence epoch' counter') \<and>
    (MinimumEpoch \<le> epoch \<and> 1 \<le> counter \<longrightarrow> ValidSequence epoch (Sequence epoch counter))"
  using assms EpochOf_Sequence [OF assms(1,2)] EpochOf_Sequence [OF assms(3,4)] CounterOf_Sequence [OF assms(2)]
  by (auto simp: ValidSequence_def intro: EpochOf_less)

theorem sequences_are_epoch_major_witness:
  "EpochOf (Sequence 1 7) = 1 \<and> Sequence 1 0xFFFFFFFF < Sequence 2 1"
proof -
  have bounds: "(1 :: u64) \<le> MaximumEpoch" "(2 :: u64) \<le> MaximumEpoch" "(7 :: u64) \<le> MaximumCounter"
    "(1 :: u64) \<le> MaximumCounter" "(0xFFFFFFFF :: u64) \<le> MaximumCounter" "(1 :: u64) < 2" by code_simp+
  from sequences_are_epoch_major [OF bounds(1,3,2,4)] sequences_are_epoch_major [OF bounds(1,5,2,4)] bounds(6)
  show ?thesis by blast
qed

text \<open>
  C33. The epoch a creation draws is one a creation may select under, whatever the entropy:
  its first sequence is valid for a creation and leaves epochs above it.
\<close>

theorem NewEpoch_in_range:
  "MinimumEpoch \<le> NewEpoch x \<and> NewEpoch x \<le> MaximumCreateEpoch \<and>
   ValidCreateSequence (Sequence (NewEpoch x) 1)"
proof -
  have lt: "x mod 0x7FFFFFFF < 0x7FFFFFFF" by (rule word_mod_less_divisor) simp
  have small: "unat (x mod 0x7FFFFFFF) < 0x7FFFFFFF" by (simp add: unat_mod)
  have "unat (NewEpoch x) = Suc (unat (x mod 0x7FFFFFFF))"
    using unat_plus_one [OF lt] by (simp add: NewEpoch_def add.commute)
  with small have range: "MinimumEpoch \<le> NewEpoch x" "NewEpoch x \<le> MaximumCreateEpoch"
    by (simp_all add: word_le_nat_alt)
  have below: "NewEpoch x \<le> MaximumEpoch" using range(2) by (rule order.trans) simp
  have one: "(1 :: u64) \<le> MaximumCounter" by simp
  show ?thesis
    using range below EpochOf_Sequence [OF below one] CounterOf_Sequence [OF one, of "NewEpoch x"]
    by (simp add: ValidCreateSequence_def ValidSequence_def del: MinimumEpoch_def MaximumCreateEpoch_def MaximumEpoch_def)
qed

text \<open>
  C29. Record keys keep VMs and tenants apart: two VMs have two keys, and the tenant of a
  VM, and where its record lies in the tenant's namespace, can be read off its key.
\<close>

theorem record_keys_apart:
  assumes "ValidID a" and "ValidID b"
  shows "(RecordName a = RecordName b \<longleftrightarrow> a = b) \<and>
    CutNamespace (RecordName a) = Some (TenantOf a, RecordPrefix @ snd (SplitID a)) \<and>
    InTenant (TenantOf a) (snd (SplitID a)) = a"
  using RecordName_inject [OF assms] CutNamespace_RecordName [OF assms(1)] InTenant_SplitID [OF assms(1)] by blast

theorem record_keys_apart_witness:
  "RecordName ''acme/db'' \<noteq> RecordName ''db'' \<and> TenantOf ''acme/db'' = ''acme'' \<and>
   CutNamespace (RecordName ''acme/db'') = Some (''acme'', ''control/db'')"
proof -
  have ids: "ValidID ''acme/db''" "ValidID ''db''" by code_simp+
  have "TenantOf ''acme/db'' = ''acme''" "RecordPrefix @ snd (SplitID ''acme/db'') = ''control/db''" by code_simp+
  with record_keys_apart [OF ids] show ?thesis by simp
qed

text \<open>Each change an operation makes keeps a record valid.\<close>

lemma selecting_valid:
  assumes "Record_valid r" and "selecting (rec_epoch r) s kept js r = Inr r'"
    and "\<And>k. kept = Some k \<Longrightarrow> kept_sequence k = s"
  shows "Record_valid r'"
proof -
  note sel = selecting_Inr [OF assms(2)]
  have "s \<noteq> 0" using sel(6) assms(1) by (auto simp: Record_valid_def dest: Sequence_nonzero)
  have js: "validJournals r'" using assms(2)
    by (auto simp: selecting_def Let_def split: if_splits option.splits sum.splits)
  have kept: "ascending (keptSequences r') \<and> length (rec_kept r') \<le> MaximumKept"
  proof (cases kept)
    case None
    then show ?thesis using sel(8) assms(1) by (simp add: Record_valid_def keptSequences_def)
  next
    case (Some k)
    then show ?thesis
      using ascending_withKept [OF sel(9) [OF Some]] length_withKept [OF sel(9) [OF Some]] assms(1,3) \<open>s \<noteq> 0\<close>
      by (simp add: Record_valid_def keptSequences_def)
  qed
  have same: "rec_vm r' = rec_vm r" "rec_nonce r' = rec_nonce r" "rec_pinned r' = rec_pinned r"
    by (subst sel(7), simp)+
  show ?thesis
    using assms(1) js kept same sel(1,4) \<open>s \<noteq> 0\<close> by (simp add: Record_valid_def)
qed

lemma pinning_valid:
  assumes "Record_valid r" and "pinning s r = Inr r'"
  shows "Record_valid r'"
  using assms ascending_withPin [of r s]
  by (auto simp: Record_valid_def pinning_def admits_def length_withPin keptSequences_def validJournals_def
      split: if_splits)

lemma releasing_valid:
  assumes "Record_valid r"
  shows "Record_valid (r\<lparr>rec_kept := withoutKept r s\<rparr>)"
proof -
  have "length (withoutKept r s) \<le> length (rec_kept r)" by (simp add: withoutKept_def)
  with assms ascending_withoutKept [of r s] show ?thesis
    by (simp add: Record_valid_def keptSequences_def validJournals_def)
qed

lemma open_next_valid:
  assumes "Record_valid r" and "rec_epoch r < MaximumEpoch" and "length nonce = nonceSize"
    and "\<And>j. joining = Some j \<Longrightarrow> journal_disk j \<noteq> 0" and "open_next r joining nonce = Inr r'"
  shows "Record_valid r'"
proof -
  have grows: "rec_epoch r < rec_epoch r + 1" using assms(2) by (rule less_plus_one)
  have bound: "rec_epoch r + 1 \<le> MaximumEpoch"
    using assms(2) unat_plus_one [OF assms(2)] unfolding word_less_nat_alt word_le_nat_alt by linarith
  have low: "MinimumEpoch \<le> rec_epoch r + 1" using assms(1) grows by (auto simp: Record_valid_def)
  have old: "journals_ascending (rec_epoch r + 1) (rec_journals r)"
    using assms(1) grows by (auto simp: Record_valid_def validJournals_def journals_ascending_iff)
  have "journals_ascending (rec_epoch r + 1) (rec_journals r @ [j\<lparr>journal_epoch := rec_epoch r + 1\<rparr>])"
    if "journal_disk j \<noteq> 0" for j
    using that old low assms(1) grows
    by (auto simp: Record_valid_def validJournals_def journals_ascending_iff sorted_wrt_append)
  with assms old bound low show ?thesis
    by (auto simp: open_next_def Let_def Record_valid_def validJournals_def keptSequences_def
        split: option.splits if_splits)
qed

text \<open>
  C24. The operations never build a record that could not be stored: a selection, a pin, a
  release and an open of a valid record each give a valid record, bounds and order of its
  pins, kept checkpoints and journals included.
\<close>

theorem operations_keep_records_valid:
  assumes "Record_valid r"
  shows "(selecting (rec_epoch r) s kept js r = Inr r1 \<and> (\<forall>k. kept = Some k \<longrightarrow> kept_sequence k = s)
        \<longrightarrow> Record_valid r1) \<and>
    (pinning s r = Inr r2 \<longrightarrow> Record_valid r2) \<and>
    Record_valid (r\<lparr>rec_kept := withoutKept r s\<rparr>) \<and>
    (rec_epoch r < MaximumEpoch \<and> length nonce = nonceSize \<and> (\<forall>j. joining = Some j \<longrightarrow> journal_disk j \<noteq> 0) \<and>
      open_next r joining nonce = Inr r3 \<longrightarrow> Record_valid r3)"
  using selecting_valid [OF assms] pinning_valid [OF assms] releasing_valid [OF assms] open_next_valid [OF assms]
  by blast

theorem operations_keep_records_valid_witness:
  "Record_valid demo_selected \<and> Record_valid demo_pinned"
proof -
  have r: "Record_valid demo_opened" "Record_valid demo_selected" by code_simp+
  have "selecting (rec_epoch demo_opened) 0x200000001 None [] demo_opened = Inr demo_selected"
    "pinning 0x200000001 demo_selected = Inr demo_pinned" by code_simp+
  with operations_keep_records_valid [OF r(1), of "0x200000001" None "[]" demo_selected]
    operations_keep_records_valid [OF r(2), of "0x200000001" None "[]" demo_selected demo_pinned]
  show ?thesis by simp
qed

end
