(* ===== verification/Control_Findings.thy ===== *)
theory Control_Findings
  imports Control_Example
begin

text \<open>
  A run in which a removal reports a record it did not remove.

  \<^verbatim>\<open>Client.Remove\<close> takes a record that is gone, after a delete that was answered with an
  error, to have been removed by its own delete (\<^verbatim>\<open>control/client.go\<close>, the read back). Another
  removal may have removed it, and a pin may have been added in between. The record
  reported then lacks a pin that the record removed had.
\<close>

text \<open>The programs of a removal that reads the record stored as \<open>n\<close>.\<close>

lemma remove_program:
  assumes "unmarshalRecord (client_wire demo) ''vm'' n = Inr r" "n < 1000"
  shows "\<exists>g f g'. control_start demo (RemoveVM ''vm'' 1) l = Get demo_key g \<and>
     g (Inr (metadataFor Suc demo_key n (hash n))) = Delete demo_key (Some (hash n)) f \<and>
     f (Inr ()) = Return (Recorded (Inr r)) \<and>
     f (Inl [Unavailable]) = Get demo_key g' \<and> g' (Inl [NotFound]) = Return (Recorded (Inr r))"
  using assms
  by (simp add: Remove_def demo_client_key client_read_def ReadObject_def ReadObjectBody_def demo_blob metadataFor_def)
    (simp add: hash_def)

text \<open>A removal up to its delete, from a state that stores \<open>n\<close>.\<close>

lemma removing:
  assumes "deployment demo s" and "objects s = demo_store n" and "agents s i = Rest new_host" and "content_tags hash s"
    and "control_start demo (RemoveVM ''vm'' 1) new_host = Get demo_key g"
    and "g (Inr (metadataFor Suc demo_key n (hash n))) = Delete demo_key (Some (hash n)) f"
  shows "\<exists>t. deployment demo t \<and> run_with (control_step demo) demo_key s t \<and> objects t = demo_store n \<and> content_tags hash t \<and>
    agents t = (agents s)(i := Busy (RemoveVM ''vm'' 1) new_host (Delete demo_key (Some (hash n)) f))"
proof -
  let ?call = "RemoveVM ''vm'' 1"
  let ?g = "metadataFor Suc demo_key n (hash n)"
  let ?u = "set_agent i (Busy ?call new_host (Get demo_key g)) s"
  let ?t = "set_agent i (Busy ?call new_host (g (Inr ?g))) ?u"
  have u: "control_step demo s ?u"
    using sys_step.call [OF assms(3), of control_admit ?call control_enter "control_start demo" control_finish] assms(5)
    by (simp add: control_admit_def control_enter_def del: control_start.simps)
  have t: "control_step demo ?u ?t"
    by (rule sys_step.get_found) (auto simp: set_agent_def assms(2) metadataFor_def)
  have there: "objects s demo_key \<noteq> None" "objects ?u demo_key \<noteq> None" "objects ?t demo_key \<noteq> None"
    using assms(2) by (simp_all add: set_agent_def)
  have "run_with (control_step demo) demo_key s s" using there(1) by (rule run_here)
  then have "run_with (control_step demo) demo_key s ?u" using u there(2) by (rule run_on)
  then have "run_with (control_step demo) demo_key s ?t" using t there(3) by (rule run_on)
  moreover have "deployment demo ?t" using assms(1) u t deployment_step by blast
  ultimately show ?thesis
    using assms(2,4,6) by (intro exI [of _ ?t]) (auto simp: set_agent_def content_tags_def)
qed

text \<open>
  With agent 3 reading back after its delete, a pin by agent 2, a removal by agent 4 whose delete
  lands, and the answer of agent 3.
\<close>

lemma removed_by_another:
  assumes t: "deployment demo t" "objects t = demo_store 2" "content_tags hash t" "agents t 2 = Rest new_host" "agents t 4 = Rest new_host"
    and waiting: "agents t 3 = Busy (RemoveVM ''vm'' 1) new_host (Get demo_key g')" "g' (Inl [NotFound]) = Return a"
  shows "\<exists>u v s h. run_with (control_step demo) demo_key t u \<and> agents u 3 = agents t 3 \<and>
     record_at demo u ''vm'' = Some demo_pinned \<and>
     agents u 4 = Busy (RemoveVM ''vm'' 1) new_host (Delete demo_key (Some (hash 3)) h) \<and>
     control_step demo u v \<and> agents v 4 = Busy (RemoveVM ''vm'' 1) new_host (h (Inr ())) \<and>
     h (Inr ()) = Return (Recorded (Inr demo_pinned)) \<and> record_at demo v ''vm'' = None \<and> agents v 3 = agents t 3 \<and>
     control_step demo v s \<and> agents s 3 = Busy (RemoveVM ''vm'' 1) new_host (Return a)"
proof -
  obtain g h where prog: "control_start demo (RemoveVM ''vm'' 1) new_host = Get demo_key g"
      "g (Inr (metadataFor Suc demo_key 3 (hash 3))) = Delete demo_key (Some (hash 3)) h" "h (Inr ()) = Return (Recorded (Inr demo_pinned))"
    using remove_program [OF demo_unmarshal(4), of new_host] by (auto simp del: control_start.simps)
  obtain t2 where t2: "deployment demo t2" "run_with (control_step demo) demo_key t t2" "objects t2 = demo_store 3"
      "content_tags hash t2" "agents t2 3 = agents t 3" "agents t2 4 = Rest new_host"
    using demo_pinned_state [OF t(1,2,4,3)] t(5) by (auto simp: demo_after_def)
  obtain u where u: "run_with (control_step demo) demo_key t2 u" "objects u = demo_store 3"
      "agents u = (agents t2)(4 := Busy (RemoveVM ''vm'' 1) new_host (Delete demo_key (Some (hash 3)) h))"
    using removing [OF t2(1,3,6,4) prog(1,2)] by blast
  let ?v = "set_agent 4 (Busy (RemoveVM ''vm'' 1) new_host (h (Inr ()))) (apply_removal demo_key (send (Removal demo_key (Some (hash 3))) u))"
  have v: "control_step demo u ?v" by (rule sys_step.delete_landed) (simp_all add: u(2,3) current_etag_def)
  have gone: "objects ?v demo_key = None" "agents ?v 3 = agents t 3" "agents ?v 4 = Busy (RemoveVM ''vm'' 1) new_host (h (Inr ()))"
    using t2(5) by (simp_all add: set_agent_def apply_removal_def send_def u(3))
  let ?s = "set_agent 3 (Busy (RemoveVM ''vm'' 1) new_host (g' (Inl [NotFound]))) ?v"
  have s: "control_step demo ?v ?s"
    using sys_step.get_failed [of ?v 3 "RemoveVM ''vm'' 1" new_host demo_key g' "[NotFound]"] gone(1,2) waiting(1) by simp
  have "agents ?s 3 = Busy (RemoveVM ''vm'' 1) new_host (Return a)" using waiting(2) by (simp add: set_agent_def)
  moreover have "record_at demo ?v ''vm'' = None" using gone(1) by (simp add: record_at_def demo_client_key)
  moreover have "agents u 3 = agents t 3" "agents u 4 = Busy (RemoveVM ''vm'' 1) new_host (Delete demo_key (Some (hash 3)) h)"
    using u(3) t2(5) by simp_all
  ultimately show ?thesis
    using run_with_trans [OF u(1) t2(2)] demo_records(4) [OF u(2)] v prog(3) gone(2,3) s
    by (intro exI [of _ u] exI [of _ ?v] exI [of _ ?s] exI [of _ h] conjI)
qed

text \<open>
  C37. A removal may report a record it did not remove. In some run the delete of one removal, which
  read a record without a pin, is answered with an error and does not land: the record is there in
  every state from then until the delete of another removal takes it, in one step, and by then it has
  the pin. The first removal then finds the record gone and is answered with the record it read,
  without the pin.
\<close>

theorem remove_may_report_a_stale_record:
  "\<exists>r t u v s f h.
     deployment demo r \<and> record_at demo r ''vm'' = Some demo_selected \<and> \<not> IsPinned demo_selected 0x200000001 \<and>
     agents r 3 = Busy (RemoveVM ''vm'' 1) new_host (Delete demo_key (Some (hash 2)) f) \<and>
     control_step demo r t \<and> agents t 3 = Busy (RemoveVM ''vm'' 1) new_host (f (Inl [Unavailable])) \<and>
     run_with (control_step demo) demo_key t u \<and> agents u 3 = agents t 3 \<and>
     record_at demo u ''vm'' = Some demo_pinned \<and> IsPinned demo_pinned 0x200000001 \<and>
     agents u 4 = Busy (RemoveVM ''vm'' 1) new_host (Delete demo_key (Some (hash 3)) h) \<and>
     control_step demo u v \<and> agents v 4 = Busy (RemoveVM ''vm'' 1) new_host (h (Inr ())) \<and>
     h (Inr ()) = Return (Recorded (Inr demo_pinned)) \<and> record_at demo v ''vm'' = None \<and> agents v 3 = agents t 3 \<and>
     control_step demo v s \<and> agents s 3 = Busy (RemoveVM ''vm'' 1) new_host (Return (Recorded (Inr demo_selected)))"
proof -
  obtain s1 s2 s3 where "demo_after s2 (demo_store 2) ((demo_agents (Some demo_handle))(1 := Rest
        \<lparr>held = Some (newHandle demo_selected (hash 2)), drawn = {replicate 16 2}\<rparr>)) s3"
    using demo_run by metis
  then have s3: "deployment demo s3" "objects s3 = demo_store 2" "content_tags hash s3"
    and rest: "agents s3 2 = Rest new_host" "agents s3 3 = Rest new_host" "agents s3 4 = Rest new_host"
    by (simp_all add: demo_after_def)
  obtain g f g' where prog: "control_start demo (RemoveVM ''vm'' 1) new_host = Get demo_key g"
      "g (Inr (metadataFor Suc demo_key 2 (hash 2))) = Delete demo_key (Some (hash 2)) f"
      "f (Inl [Unavailable]) = Get demo_key g'" "g' (Inl [NotFound]) = Return (Recorded (Inr demo_selected))"
    using remove_program [OF demo_unmarshal(3), of new_host] by (auto simp del: control_start.simps)
  obtain r where r: "deployment demo r" "objects r = demo_store 2" "content_tags hash r"
      "agents r = (agents s3)(3 := Busy (RemoveVM ''vm'' 1) new_host (Delete demo_key (Some (hash 2)) f))"
    using removing [OF s3(1,2) rest(2) s3(3) prog(1,2)] by blast
  let ?t = "set_agent 3 (Busy (RemoveVM ''vm'' 1) new_host (f (Inl [Unavailable]))) (send (Removal demo_key (Some (hash 2))) r)"
  have t: "control_step demo r ?t" by (rule sys_step.delete_failed) (simp add: r(4))
  have at_t: "deployment demo ?t" "objects ?t = demo_store 2" "content_tags hash ?t" "agents ?t 2 = Rest new_host"
      "agents ?t 4 = Rest new_host" "agents ?t 3 = Busy (RemoveVM ''vm'' 1) new_host (Get demo_key g')"
    using deployment_step [OF r(1) t] r rest prog(3) by (auto simp: set_agent_def send_def content_tags_def)
  have reading: "agents ?t 3 = Busy (RemoveVM ''vm'' 1) new_host (f (Inl [Unavailable]))" by (simp add: set_agent_def)
  have first: "agents r 3 = Busy (RemoveVM ''vm'' 1) new_host (Delete demo_key (Some (hash 2)) f)" using r(4) by simp
  have pins: "\<not> IsPinned demo_selected 0x200000001" "IsPinned demo_pinned 0x200000001" by code_simp+
  from removed_by_another [OF at_t prog(4)] show ?thesis
    using r(1) demo_records(3) [OF r(2)] pins first t reading by blast
qed

end
