(* ===== verification/Journal_Format.thy ===== *)
theory Journal_Format
  imports Prelude
begin

text \<open>
  The journal disk's format (\<^verbatim>\<open>journal/format.go\<close>): header slots, entries of blocks, pads, and
  their encodings byte for byte.

  The checksum is a parameter \<open>hash\<close>, any function from bytes to 128 bits: XXH3-128, a
  third-party package. Positions and lengths are natural numbers, written modulo their width
  as the encoder writes them; generations and epochs are \<open>64 word\<close>s.
\<close>

section \<open>Constants\<close>

abbreviation (input) BlockBytes :: nat where "BlockBytes \<equiv> 4096"
abbreviation (input) maxStoredBytes :: nat where "maxStoredBytes \<equiv> 16777216"
abbreviation (input) MaxEntryBytes :: nat where "MaxEntryBytes \<equiv> 16773120"
abbreviation (input) MaxBatchBytes :: nat where "MaxBatchBytes \<equiv> 8388608"
abbreviation (input) slotBytes :: nat where "slotBytes \<equiv> 4096"
abbreviation (input) slotLength :: nat where "slotLength \<equiv> 104"
abbreviation (input) ringOffset :: nat where "ringOffset \<equiv> 8192"
abbreviation (input) minRingSize :: nat where "minRingSize \<equiv> 16384"
abbreviation (input) entryHeadBytes :: nat where "entryHeadBytes \<equiv> 48"
abbreviation (input) checksumBytes :: nat where "checksumBytes \<equiv> 16"
abbreviation (input) minEntryBytes :: nat where "minEntryBytes \<equiv> 64"
abbreviation (input) maxNameBytes :: nat where "maxNameBytes \<equiv> 65535"
abbreviation (input) journalVersion :: byte where "journalVersion \<equiv> 1"
abbreviation (input) kindPad :: byte where "kindPad \<equiv> 0"
abbreviation (input) kindBlocks :: byte where "kindBlocks \<equiv> 1"

definition slotMagic :: bytes where "slotMagic = [0x53, 0x46, 0x4A, 0x48]"
definition entryMagic :: bytes where "entryMagic = [0x53, 0x46, 0x4A, 0x45]"

lemma length_magic [simp]: "length slotMagic = 4" "length entryMagic = 4"
  by (simp_all add: slotMagic_def entryMagic_def)

text \<open>The little-endian integer of \<open>n\<close> bytes at an offset, and a bytes_at.\<close>

definition bytes_at :: "nat \<Rightarrow> nat \<Rightarrow> bytes \<Rightarrow> bytes" where
  "bytes_at i n b = take n (drop i b)"

definition uint_at :: "nat \<Rightarrow> nat \<Rightarrow> bytes \<Rightarrow> nat" where
  "uint_at i n b = le_value (bytes_at i n b)"

definition int64_of :: "nat \<Rightarrow> int" where
  "int64_of n = (if n < 2 ^ 63 then int n else int n - 2 ^ 64)"

definition uint64_of :: "int \<Rightarrow> nat" where
  "uint64_of i = nat (i mod 2 ^ 64)"

lemma int64_of_uint64_of: "- (2 ^ 63) \<le> i \<Longrightarrow> i < 2 ^ 63 \<Longrightarrow> int64_of (uint64_of i) = i"
proof (cases "0 \<le> i")
  case False
  assume low: "- (2 ^ 63) \<le> i"
  have "i mod 2 ^ 64 = (i + 2 ^ 64) mod 2 ^ 64" by simp
  also have "\<dots> = i + 2 ^ 64" using False low by (intro mod_pos_pos_trivial) auto
  finally show ?thesis using False low by (simp add: int64_of_def uint64_of_def)
qed (simp add: int64_of_def uint64_of_def)

lemma uint64_of_bound [simp]: "uint64_of i < 18446744073709551616"
  by (simp add: uint64_of_def nat_less_iff)

section \<open>Header slots\<close>

record Lease =
  lease_assigned :: u64
  lease_member :: identity

record slot =
  slot_empty :: bool
  slot_counter :: u64
  slot_identity :: identity
  slot_generation :: u64
  slot_ringStart :: int
  slot_ringLength :: int
  slot_tail :: nat
  slot_lease :: Lease

definition checksum :: "(bytes \<Rightarrow> identity) \<Rightarrow> bytes \<Rightarrow> bytes" where
  "checksum hash data = identity_bytes (hash data)"

lemma length_checksum [simp]: "length (checksum hash data) = 16"
  by (simp add: checksum_def)

definition slot_body :: "slot \<Rightarrow> bytes" where
  "slot_body s =
     slotMagic @ [journalVersion, if slot_empty s then 1 else 0, 0, 0]
     @ le_bytes 8 (unat (slot_counter s))
     @ identity_bytes (slot_identity s)
     @ le_bytes 8 (unat (slot_generation s))
     @ le_bytes 8 (uint64_of (slot_ringStart s))
     @ le_bytes 8 (uint64_of (slot_ringLength s))
     @ le_bytes 8 (slot_tail s)
     @ le_bytes 8 (unat (lease_assigned (slot_lease s)))
     @ identity_bytes (lease_member (slot_lease s))"

definition encodeSlot :: "(bytes \<Rightarrow> identity) \<Rightarrow> slot \<Rightarrow> bytes" where
  "encodeSlot hash s =
     slot_body s @ checksum hash (slot_body s) @ replicate (slotBytes - slotLength) 0"

definition decodeSlot :: "(bytes \<Rightarrow> identity) \<Rightarrow> bytes \<Rightarrow> error + slot" where
  "decodeSlot hash b =
     (if length b < slotLength \<or> bytes_at 0 4 b \<noteq> slotMagic
          \<or> checksum hash (bytes_at 0 88 b) \<noteq> bytes_at 88 16 b then Inl [NoSlot]
      else if b ! 4 \<noteq> journalVersion then Inl [Version]
      else if b ! 5 > 1 \<or> uint_at 6 2 b \<noteq> 0 then Inl [NoSlot]
      else Inr \<lparr> slot_empty = (b ! 5 = 1),
                 slot_counter = word_of_nat (uint_at 8 8 b),
                 slot_identity = identity_of (bytes_at 16 16 b),
                 slot_generation = word_of_nat (uint_at 32 8 b),
                 slot_ringStart = int64_of (uint_at 40 8 b),
                 slot_ringLength = int64_of (uint_at 48 8 b),
                 slot_tail = uint_at 56 8 b,
                 slot_lease = \<lparr> lease_assigned = word_of_nat (uint_at 64 8 b),
                                lease_member = identity_of (bytes_at 72 16 b) \<rparr> \<rparr>)"

definition slot_wf :: "slot \<Rightarrow> bool" where
  "slot_wf s \<longleftrightarrow> slot_tail s < 2 ^ 64
     \<and> - (2 ^ 63) \<le> slot_ringStart s \<and> slot_ringStart s < 2 ^ 63
     \<and> - (2 ^ 63) \<le> slot_ringLength s \<and> slot_ringLength s < 2 ^ 63"

lemma length_slot_body [simp]: "length (slot_body s) = 88"
  by (simp add: slot_body_def)

lemma length_encodeSlot [simp]: "length (encodeSlot hash s) = slotBytes"
  by (simp add: encodeSlot_def)

text \<open>A slot reads back as it was written.\<close>

lemma decodeSlot_body:
  assumes "slot_wf s"
  shows "decodeSlot hash (slot_body s @ checksum hash (slot_body s) @ rest) = Inr s"
proof -
  have body: "bytes_at 0 88 (slot_body s @ checksum hash (slot_body s) @ rest) = slot_body s"
    "bytes_at 88 16 (slot_body s @ checksum hash (slot_body s) @ rest) = checksum hash (slot_body s)"
    by (simp_all add: bytes_at_def)
  have "bytes_at 0 4 (slot_body s @ checksum hash (slot_body s) @ rest) = slotMagic"
    by (simp add: bytes_at_def slot_body_def)
  with body assms show ?thesis
    by (simp add: decodeSlot_def slot_wf_def int64_of_uint64_of)
       (simp add: slot_body_def bytes_at_def uint_at_def nth_append int64_of_uint64_of)
qed

lemma decodeSlot_encodeSlot [simp]: "slot_wf s \<Longrightarrow> decodeSlot hash (encodeSlot hash s) = Inr s"
  unfolding encodeSlot_def by (rule decodeSlot_body)

lemma uint_at_bound: "uint_at i n b < 256 ^ n"
proof -
  have "le_value (bytes_at i n b) < 256 ^ length (bytes_at i n b)" by (rule le_value_bound)
  also have "\<dots> \<le> 256 ^ n" by (rule power_increasing) (simp_all add: bytes_at_def)
  finally show ?thesis by (simp add: uint_at_def)
qed

lemma int64_of_bounds: "n < 2 ^ 64 \<Longrightarrow> - (2 ^ 63) \<le> int64_of n \<and> int64_of n < 2 ^ 63"
  by (auto simp: int64_of_def)

text \<open>Every slot that decodes is one that can be written again.\<close>

lemma decodeSlot_wf: "decodeSlot hash b = Inr s \<Longrightarrow> slot_wf s"
  using int64_of_bounds [of "uint_at 40 8 b"] int64_of_bounds [of "uint_at 48 8 b"]
    uint_at_bound [of 40 8 b] uint_at_bound [of 48 8 b] uint_at_bound [of 56 8 b]
  by (auto simp: decodeSlot_def slot_wf_def split: if_splits)

section \<open>Entries\<close>

record Entry =
  entry_VM :: string
  entry_Volume :: string
  entry_Epoch :: u64
  entry_Blocks :: "u64 list"
  entry_Data :: bytes
  entry_Position :: nat

definition align8 :: "nat \<Rightarrow> nat" where
  "align8 n = (n + 7) div 8 * 8"

definition EntryBytes :: "string \<Rightarrow> string \<Rightarrow> nat \<Rightarrow> nat" where
  "EntryBytes vm volume blocks =
     entryHeadBytes + align8 (length vm + length volume) + blocks * (8 + BlockBytes) + checksumBytes"

definition entry_size :: "Entry \<Rightarrow> nat" where
  "entry_size e = EntryBytes (entry_VM e) (entry_Volume e) (length (entry_Blocks e))"

definition entry_check :: "Entry \<Rightarrow> error + unit" where
  "entry_check e =
     (if length (entry_VM e) > maxNameBytes \<or> length (entry_Volume e) > maxNameBytes
      then Inl [TooLarge]
      else if length (entry_Data e) \<noteq> length (entry_Blocks e) * BlockBytes then Inl [Other 0]
      else if entry_size e > MaxEntryBytes then Inl [TooLarge]
      else Inr ())"

definition appendHead ::
    "bytes \<Rightarrow> byte \<Rightarrow> nat \<Rightarrow> u64 \<Rightarrow> u64 \<Rightarrow> nat \<Rightarrow> nat \<Rightarrow> nat \<Rightarrow> nat \<Rightarrow> bytes" where
  "appendHead dst kind position generation epoch len blocks vm volume =
     dst @ entryMagic @ [journalVersion, kind, 0, 0] @ le_bytes 8 position
     @ le_bytes 8 (unat generation) @ le_bytes 8 (unat epoch) @ le_bytes 4 len
     @ le_bytes 4 blocks @ le_bytes 2 vm @ le_bytes 2 volume @ [0, 0, 0, 0]"

definition seal :: "(bytes \<Rightarrow> identity) \<Rightarrow> nat \<Rightarrow> bytes \<Rightarrow> bytes" where
  "seal hash start dst = dst @ checksum hash (drop start dst)"

definition appendEntry :: "(bytes \<Rightarrow> identity) \<Rightarrow> bytes \<Rightarrow> Entry \<Rightarrow> nat \<Rightarrow> u64 \<Rightarrow> bytes" where
  "appendEntry hash dst e position generation =
     (let start = length dst;
          names = length (entry_VM e) + length (entry_Volume e);
          dst = appendHead dst kindBlocks position generation (entry_Epoch e) (entry_size e)
                  (length (entry_Blocks e)) (length (entry_VM e)) (length (entry_Volume e));
          dst = dst @ string_bytes (entry_VM e);
          dst = dst @ string_bytes (entry_Volume e);
          dst = dst @ replicate (align8 names - names) 0;
          dst = dst @ concat (map (\<lambda>block. le_bytes 8 (unat block)) (entry_Blocks e));
          dst = dst @ entry_Data e
      in seal hash start dst)"

text \<open>
  A pad is at least as long as an entry's head: the source panics on a shorter one, where this
  function lays a bare head. The writer asks for none (\<open>failed_ranges_are_padded\<close> in Journal_Theorems).
\<close>

definition appendPad :: "(bytes \<Rightarrow> identity) \<Rightarrow> bytes \<Rightarrow> nat \<Rightarrow> nat \<Rightarrow> u64 \<Rightarrow> bytes" where
  "appendPad hash dst len position generation =
     (let start = length dst;
          dst = appendHead dst kindPad position generation 0 len 0 0 0;
          dst = dst @ replicate (len - minEntryBytes) 0
      in seal hash start dst)"

record head =
  head_kind :: byte
  head_position :: nat
  head_generation :: u64
  head_epoch :: u64
  head_length :: nat
  head_blocks :: nat
  head_vm :: nat
  head_volume :: nat

definition decodeHead :: "bytes \<Rightarrow> error + head" where
  "decodeHead b =
     (if length b < entryHeadBytes \<or> bytes_at 0 4 b \<noteq> entryMagic \<or> b ! 4 \<noteq> journalVersion
          \<or> uint_at 6 2 b \<noteq> 0 \<or> uint_at 44 4 b \<noteq> 0 then Inl [NoEntry]
      else
        let h = \<lparr> head_kind = b ! 5,
                  head_position = uint_at 8 8 b,
                  head_generation = word_of_nat (uint_at 16 8 b),
                  head_epoch = word_of_nat (uint_at 24 8 b),
                  head_length = uint_at 32 4 b,
                  head_blocks = uint_at 36 4 b,
                  head_vm = uint_at 40 2 b,
                  head_volume = uint_at 42 2 b \<rparr>
        in if head_kind h = kindPad then
             if head_epoch h \<noteq> 0 \<or> head_blocks h \<noteq> 0 \<or> head_vm h \<noteq> 0 \<or> head_volume h \<noteq> 0
                \<or> head_length h < minEntryBytes \<or> head_length h mod 8 \<noteq> 0
                \<or> head_length h > maxStoredBytes
             then Inl [NoEntry] else Inr h
           else if head_kind h = kindBlocks then
             if head_length h \<noteq> entryHeadBytes + align8 (head_vm h + head_volume h)
                                + head_blocks h * (8 + BlockBytes) + checksumBytes
                \<or> head_length h > MaxEntryBytes
             then Inl [NoEntry] else Inr h
           else Inl [NoEntry])"

definition errTorn :: error where
  "errTorn = [Torn, NoEntry]"

definition checkEntry :: "(bytes \<Rightarrow> identity) \<Rightarrow> bytes \<Rightarrow> error + head" where
  "checkEntry hash b =
     (case decodeHead b of
        Inl err \<Rightarrow> Inl err
      | Inr h \<Rightarrow>
          if length b \<noteq> head_length h
             \<or> checksum hash (take (head_length h - checksumBytes) b)
                 \<noteq> drop (head_length h - checksumBytes) b then Inl errTorn
          else if \<exists>x \<in> set (bytes_at (entryHeadBytes + head_vm h + head_volume h)
                     (align8 (head_vm h + head_volume h) - (head_vm h + head_volume h)) b). x \<noteq> 0
          then Inl [NoEntry]
          else Inr h)"

definition entryVM :: "bytes \<Rightarrow> head \<Rightarrow> string" where
  "entryVM b h = bytes_string (bytes_at entryHeadBytes (head_vm h) b)"

definition decodeEntry :: "(bytes \<Rightarrow> identity) \<Rightarrow> bytes \<Rightarrow> error + head \<times> Entry option" where
  "decodeEntry hash b =
     (case checkEntry hash b of
        Inl err \<Rightarrow> Inl err
      | Inr h \<Rightarrow>
          if head_kind h = kindPad then Inr (h, None)
          else
            let at = entryHeadBytes + head_vm h;
                volume = bytes_string (bytes_at at (head_volume h) b);
                at = entryHeadBytes + align8 (head_vm h + head_volume h);
                blocks = map (\<lambda>i. word_of_nat (uint_at (at + 8 * i) 8 b)) [0..<head_blocks h];
                at = at + 8 * head_blocks h
            in Inr (h, Some \<lparr> entry_VM = entryVM b h, entry_Volume = volume,
                              entry_Epoch = head_epoch h, entry_Blocks = blocks,
                              entry_Data = bytes_at at (head_blocks h * BlockBytes) b,
                              entry_Position = head_position h \<rparr>))"

lemma bytes_at_take: "i + n \<le> m \<Longrightarrow> bytes_at i n (take m b) = bytes_at i n b"
  by (simp add: bytes_at_def drop_take min_def)

text \<open>A head is read from 48 bytes.\<close>

lemma decodeHead_take:
  assumes "entryHeadBytes \<le> length b"
  shows "decodeHead (take entryHeadBytes b) = decodeHead b"
proof -
  have "uint_at i n (take 48 b) = uint_at i n b" if "i + n \<le> 48" for i n
    using that by (simp add: uint_at_def bytes_at_take)
  then show ?thesis using assms by (simp add: decodeHead_def bytes_at_take)
qed

section \<open>Reading back what was written\<close>

definition entry_head :: "Entry \<Rightarrow> nat \<Rightarrow> u64 \<Rightarrow> head" where
  "entry_head e position generation =
     \<lparr> head_kind = kindBlocks, head_position = position, head_generation = generation,
       head_epoch = entry_Epoch e, head_length = entry_size e,
       head_blocks = length (entry_Blocks e), head_vm = length (entry_VM e),
       head_volume = length (entry_Volume e) \<rparr>"

definition pad_head :: "nat \<Rightarrow> nat \<Rightarrow> u64 \<Rightarrow> head" where
  "pad_head len position generation =
     \<lparr> head_kind = kindPad, head_position = position, head_generation = generation,
       head_epoch = 0, head_length = len, head_blocks = 0, head_vm = 0, head_volume = 0 \<rparr>"

definition pad_ok :: "nat \<Rightarrow> bool" where
  "pad_ok len \<longleftrightarrow> minEntryBytes \<le> len \<and> len mod 8 = 0 \<and> len \<le> maxStoredBytes"

lemma align8_mod [simp]: "align8 n mod 8 = 0"
  by (simp add: align8_def)

lemma align8_ge: "n \<le> align8 n"
  unfolding align8_def by linarith

lemma align8_less: "align8 n < n + 8"
  unfolding align8_def by linarith

lemma entry_size_mod [simp]: "entry_size e mod 8 = 0"
proof -
  have "entry_size e = align8 (length (entry_VM e) + length (entry_Volume e))
      + 8 * (8 + length (entry_Blocks e) * 513)"
    by (simp add: entry_size_def EntryBytes_def)
  then show ?thesis by (simp only: mod_mult_self2 align8_mod)
qed

lemma entry_size_min: "minEntryBytes \<le> entry_size e"
  by (simp add: entry_size_def EntryBytes_def)

lemma length_appendHead [simp]:
  "length (appendHead dst kind p g ep len blocks vm volume) = length dst + entryHeadBytes"
  by (simp add: appendHead_def)

lemma concat_le_bytes_length [simp]:
  "length (concat (map (\<lambda>block. le_bytes 8 (unat block)) bs)) = 8 * length bs"
  by (induction bs) simp_all

lemma entry_check_ok:
  "entry_check e = Inr () \<longleftrightarrow>
     length (entry_VM e) \<le> maxNameBytes \<and> length (entry_Volume e) \<le> maxNameBytes
     \<and> length (entry_Data e) = length (entry_Blocks e) * BlockBytes \<and> entry_size e \<le> MaxEntryBytes"
  by (auto simp: entry_check_def)

lemma entry_blocks_bound: "entry_check e = Inr () \<Longrightarrow> length (entry_Blocks e) < 2 ^ 32"
  by (auto simp: entry_check_ok entry_size_def EntryBytes_def)

text \<open>The bytes of one entry or pad, apart from what they are appended to.\<close>

definition entry_body :: "Entry \<Rightarrow> nat \<Rightarrow> u64 \<Rightarrow> bytes" where
  "entry_body e position generation =
     appendHead [] kindBlocks position generation (entry_Epoch e) (entry_size e)
       (length (entry_Blocks e)) (length (entry_VM e)) (length (entry_Volume e))
     @ string_bytes (entry_VM e) @ string_bytes (entry_Volume e)
     @ replicate (align8 (length (entry_VM e) + length (entry_Volume e))
                  - (length (entry_VM e) + length (entry_Volume e))) 0
     @ concat (map (\<lambda>block. le_bytes 8 (unat block)) (entry_Blocks e)) @ entry_Data e"

definition pad_body :: "nat \<Rightarrow> nat \<Rightarrow> u64 \<Rightarrow> bytes" where
  "pad_body len position generation =
     appendHead [] kindPad position generation 0 len 0 0 0 @ replicate (len - minEntryBytes) 0"

definition sealed :: "(bytes \<Rightarrow> identity) \<Rightarrow> bytes \<Rightarrow> bytes" where
  "sealed hash body = body @ checksum hash body"

lemma appendHead_append:
  "appendHead dst kind p g ep len blocks vm volume
     = dst @ appendHead [] kind p g ep len blocks vm volume"
  by (simp add: appendHead_def)

lemma seal_append: "seal hash (length dst) (dst @ body) = dst @ sealed hash body"
  by (simp add: seal_def sealed_def)

lemma appendEntry_eq: "appendEntry hash dst e p g = dst @ sealed hash (entry_body e p g)"
proof -
  have "appendEntry hash dst e p g = seal hash (length dst) (dst @ entry_body e p g)"
    by (simp add: appendEntry_def entry_body_def Let_def appendHead_append [of dst])
  then show ?thesis by (simp add: seal_append)
qed

lemma appendPad_eq: "appendPad hash dst len p g = dst @ sealed hash (pad_body len p g)"
proof -
  have "appendPad hash dst len p g = seal hash (length dst) (dst @ pad_body len p g)"
    by (simp add: appendPad_def pad_body_def Let_def appendHead_append [of dst])
  then show ?thesis by (simp add: seal_append)
qed

lemma length_sealed [simp]: "length (sealed hash body) = length body + checksumBytes"
  by (simp add: sealed_def)

lemma length_entry_body:
  assumes "entry_check e = Inr ()"
  shows "length (entry_body e p g) + checksumBytes = entry_size e"
  using assms align8_ge [of "length (entry_VM e) + length (entry_Volume e)"]
  by (simp add: entry_check_ok entry_body_def entry_size_def EntryBytes_def)

lemma length_pad_body: "minEntryBytes \<le> len \<Longrightarrow> length (pad_body len p g) + checksumBytes = len"
  by (simp add: pad_body_def)

text \<open>A head reads back when its numbers fit their fields.\<close>

lemma decodeHead_appendHead:
  assumes "position < 2 ^ 64" "len < 2 ^ 32" "blocks < 2 ^ 32" "vm < 2 ^ 16" "volume < 2 ^ 16"
  shows "decodeHead (appendHead [] kind position generation epoch len blocks vm volume @ rest) =
    (let h = \<lparr> head_kind = kind, head_position = position, head_generation = generation,
               head_epoch = epoch, head_length = len, head_blocks = blocks,
               head_vm = vm, head_volume = volume \<rparr>
     in if kind = kindPad then
          if epoch \<noteq> 0 \<or> blocks \<noteq> 0 \<or> vm \<noteq> 0 \<or> volume \<noteq> 0 \<or> \<not> pad_ok len
          then Inl [NoEntry] else Inr h
        else if kind = kindBlocks then
          if len \<noteq> entryHeadBytes + align8 (vm + volume) + blocks * (8 + BlockBytes) + checksumBytes
             \<or> len > MaxEntryBytes
          then Inl [NoEntry] else Inr h
        else Inl [NoEntry])" (is "decodeHead ?b = _")
proof -
  have fields: "bytes_at 0 4 ?b = entryMagic" "?b ! 4 = journalVersion" "?b ! 5 = kind"
    "uint_at 6 2 ?b = 0" "uint_at 44 4 ?b = 0" "\<not> length ?b < 48"
    by (simp_all add: appendHead_def bytes_at_def uint_at_def nth_append)
  have numbers: "uint_at 8 8 ?b = position" "uint_at 32 4 ?b = len" "uint_at 36 4 ?b = blocks"
    "uint_at 40 2 ?b = vm" "uint_at 42 2 ?b = volume"
    using assms by (simp_all add: appendHead_def bytes_at_def uint_at_def)
  have words: "word_of_nat (uint_at 16 8 ?b) = generation" "word_of_nat (uint_at 24 8 ?b) = epoch"
    by (simp_all add: appendHead_def bytes_at_def uint_at_def)
  show ?thesis
    by (simp add: decodeHead_def fields numbers words pad_ok_def Let_def not_le not_less
             del: length_append length_appendHead)
qed

lemma decodeHead_entry:
  assumes "entry_check e = Inr ()" and "p < 2 ^ 64"
  shows "decodeHead (entry_body e p g @ rest) = Inr (entry_head e p g)"
  using assms entry_blocks_bound [OF assms(1)]
  by (simp add: entry_body_def decodeHead_appendHead entry_check_ok entry_head_def)
     (simp add: entry_size_def EntryBytes_def)

lemma decodeHead_pad:
  assumes "pad_ok len" and "p < 2 ^ 64"
  shows "decodeHead (pad_body len p g @ rest) = Inr (pad_head len p g)"
  using assms by (simp add: pad_body_def decodeHead_appendHead pad_head_def pad_ok_def)

lemma checkEntry_sealed:
  assumes "decodeHead (body @ checksum hash body) = Inr h" "length body + 16 = head_length h"
    and "bytes_at (48 + head_vm h + head_volume h)
           (align8 (head_vm h + head_volume h) - (head_vm h + head_volume h)) (sealed hash body)
         = replicate n 0"
  shows "checkEntry hash (sealed hash body) = Inr h"
proof -
  have "head_length h - 16 = length body" using assms(2) by simp
  then show ?thesis using assms by (simp add: checkEntry_def sealed_def)
qed

lemma checkEntry_entry [simp]:
  assumes "entry_check e = Inr ()" and "p < 2 ^ 64"
  shows "checkEntry hash (sealed hash (entry_body e p g)) = Inr (entry_head e p g)"
proof (rule checkEntry_sealed)
  show "decodeHead (entry_body e p g @ checksum hash (entry_body e p g)) = Inr (entry_head e p g)"
    using assms by (rule decodeHead_entry)
  show "length (entry_body e p g) + 16 = head_length (entry_head e p g)"
    using length_entry_body [OF assms(1)] by (simp add: entry_head_def)
  let ?n = "length (entry_VM e) + length (entry_Volume e)"
  show "bytes_at (48 + head_vm (entry_head e p g) + head_volume (entry_head e p g))
      (align8 (head_vm (entry_head e p g) + head_volume (entry_head e p g))
        - (head_vm (entry_head e p g) + head_volume (entry_head e p g)))
      (sealed hash (entry_body e p g)) = replicate (align8 ?n - ?n) 0"
    by (simp add: bytes_at_def entry_head_def sealed_def entry_body_def)
qed

lemma checkEntry_pad [simp]:
  assumes "pad_ok len" and "p < 2 ^ 64"
  shows "checkEntry hash (sealed hash (pad_body len p g)) = Inr (pad_head len p g)"
proof (rule checkEntry_sealed)
  show "decodeHead (pad_body len p g @ checksum hash (pad_body len p g)) = Inr (pad_head len p g)"
    using assms by (rule decodeHead_pad)
  show "length (pad_body len p g) + 16 = head_length (pad_head len p g)"
    using assms length_pad_body by (simp add: pad_ok_def pad_head_def)
  show "bytes_at (48 + head_vm (pad_head len p g) + head_volume (pad_head len p g))
      (align8 (head_vm (pad_head len p g) + head_volume (pad_head len p g))
        - (head_vm (pad_head len p g) + head_volume (pad_head len p g)))
      (sealed hash (pad_body len p g)) = replicate 0 0"
    by (simp add: bytes_at_def pad_head_def align8_def)
qed

lemma uint_at_blocks:
  "i < length bs \<Longrightarrow>
     uint_at (8 * i) 8 (concat (map (\<lambda>block. le_bytes 8 (unat block)) bs) @ rest)
       = le_value (le_bytes 8 (unat (bs ! i :: u64)))"
proof (induction bs arbitrary: i)
  case (Cons b bs)
  show ?case
  proof (cases i)
    case (Suc j)
    then have "8 * i = 8 + 8 * j" by simp
    then have "uint_at (8 * i) 8 (concat (map (\<lambda>block. le_bytes 8 (unat block)) (b # bs)) @ rest)
        = uint_at (8 * j) 8 (concat (map (\<lambda>block. le_bytes 8 (unat block)) bs) @ rest)"
      by (simp add: uint_at_def bytes_at_def)
    then show ?thesis using Cons Suc by simp
  qed (simp add: uint_at_def bytes_at_def)
qed simp

lemma uint_at_append: "length xs \<le> i \<Longrightarrow> uint_at i n (xs @ ys) = uint_at (i - length xs) n ys"
  by (simp add: uint_at_def bytes_at_def)

lemma entry_body_split:
  obtains front where "length front = 48 + align8 (length (entry_VM e) + length (entry_Volume e))"
    and "entry_body e p g
      = front @ concat (map (\<lambda>block. le_bytes 8 (unat block)) (entry_Blocks e)) @ entry_Data e"
proof
  let ?n = "length (entry_VM e) + length (entry_Volume e)"
  let ?front = "appendHead [] kindBlocks p g (entry_Epoch e) (entry_size e)
       (length (entry_Blocks e)) (length (entry_VM e)) (length (entry_Volume e))
     @ string_bytes (entry_VM e) @ string_bytes (entry_Volume e) @ replicate (align8 ?n - ?n) 0"
  show "length ?front = 48 + align8 ?n"
    using align8_ge [of ?n] by simp
  show "entry_body e p g
      = ?front @ concat (map (\<lambda>block. le_bytes 8 (unat block)) (entry_Blocks e)) @ entry_Data e"
    by (simp add: entry_body_def)
qed

text \<open>An entry of blocks decodes to what was committed, at its position.\<close>

lemma decodeEntry_entry [simp]:
  assumes ok: "entry_check e = Inr ()" and "p < 2 ^ 64"
  shows "decodeEntry hash (sealed hash (entry_body e p g))
    = Inr (entry_head e p g, Some (e\<lparr>entry_Position := p\<rparr>))" (is "decodeEntry hash ?b = _")
proof -
  let ?n = "length (entry_VM e) + length (entry_Volume e)" and ?k = "length (entry_Blocks e)"
  let ?blocks = "concat (map (\<lambda>block. le_bytes 8 (unat block)) (entry_Blocks e))"
  obtain front where front: "length front = 48 + align8 ?n"
    and body: "entry_body e p g = front @ ?blocks @ entry_Data e"
    by (rule entry_body_split)
  have b: "?b = front @ ?blocks @ entry_Data e @ checksum hash (entry_body e p g)"
    by (simp add: sealed_def body)
  have "uint_at (48 + align8 ?n + 8 * i) 8 ?b = le_value (le_bytes 8 (unat (entry_Blocks e ! i)))"
    if "i < ?k" for i
    unfolding b using uint_at_blocks [OF that] front by (simp add: uint_at_append)
  then have "map (\<lambda>i. word_of_nat (uint_at (48 + align8 ?n + 8 * i) 8 ?b)) [0..<?k] = entry_Blocks e"
    by (intro nth_equalityI) simp_all
  moreover have "bytes_at (48 + align8 ?n + 8 * ?k) (?k * 4096) ?b = entry_Data e"
    unfolding b bytes_at_def using front ok by (simp add: entry_check_ok)
  moreover have "bytes_at 48 (length (entry_VM e)) ?b = string_bytes (entry_VM e)"
    "bytes_at (48 + length (entry_VM e)) (length (entry_Volume e)) ?b = string_bytes (entry_Volume e)"
    by (simp_all add: bytes_at_def sealed_def entry_body_def)
  ultimately show ?thesis
    using checkEntry_entry [OF assms, of hash g]
    by (simp add: decodeEntry_def Let_def entryVM_def entry_head_def)
qed

lemma decodeEntry_pad [simp]:
  assumes "pad_ok len" and "p < 2 ^ 64"
  shows "decodeEntry hash (sealed hash (pad_body len p g)) = Inr (pad_head len p g, None)"
  using checkEntry_pad [OF assms, of hash g] by (simp add: decodeEntry_def pad_head_def)

end
