(* ===== verification/Journal_Ring.thy ===== *)
theory Journal_Ring
  imports Journal_Format
begin

text \<open>
  The ring of a journal disk: where a position lies, reading through the window of
  \<^verbatim>\<open>ringReader\<close>, reading back (\<^verbatim>\<open>Journal.readBack\<close>) and writing an image over the ring's end
  (\<^verbatim>\<open>Journal.write\<close>).

  A disk is the list of its bytes. A ring is a start \<open>S\<close> and a length \<open>L\<close>; a position is a
  natural number, and its byte lies at \<open>S + position mod L\<close>.
\<close>

section \<open>The disk\<close>

type_synonym disk = bytes

definition readFull :: "disk \<Rightarrow> nat \<Rightarrow> nat \<Rightarrow> error + bytes" where
  "readFull disk off n =
     (if off + n \<le> length disk then Inr (bytes_at off n disk) else Inl [Other 2])"

definition write_at :: "nat \<Rightarrow> bytes \<Rightarrow> disk \<Rightarrow> disk" where
  "write_at off bs disk = take off disk @ bs @ drop (off + length bs) disk"

lemma length_bytes_at [simp]: "off + n \<le> length b \<Longrightarrow> length (bytes_at off n b) = n"
  by (simp add: bytes_at_def)

lemma nth_bytes_at: "i < n \<Longrightarrow> off + n \<le> length b \<Longrightarrow> bytes_at off n b ! i = b ! (off + i)"
  by (simp add: bytes_at_def)

lemma bytes_at_bytes_at:
  "i + n \<le> m \<Longrightarrow> bytes_at i n (bytes_at off m b) = bytes_at (off + i) n b"
  by (simp add: bytes_at_def drop_take min_def add.commute)

lemma take_bytes_at: "n \<le> m \<Longrightarrow> take n (bytes_at off m b) = bytes_at off n b"
  by (simp add: bytes_at_def min_def)

lemma length_write_at [simp]: "off + length bs \<le> length disk \<Longrightarrow> length (write_at off bs disk) = length disk"
  by (simp add: write_at_def)

lemma nth_write_at:
  assumes "off + length bs \<le> length disk" "k < length disk"
  shows "write_at off bs disk ! k =
    (if off \<le> k \<and> k < off + length bs then bs ! (k - off) else disk ! k)"
  using assms by (auto simp: write_at_def nth_append min_def)

section \<open>Positions\<close>

definition offset :: "nat \<Rightarrow> nat \<Rightarrow> nat \<Rightarrow> nat \<times> nat" where
  "offset S L position = (let within = position mod L in (S + within, L - within))"

definition room :: "nat \<Rightarrow> nat \<Rightarrow> nat" where
  "room L position = L - position mod L"

lemma offset_eq: "offset S L p = (S + p mod L, room L p)"
  by (simp add: offset_def room_def Let_def)

lemma room_pos: "0 < L \<Longrightarrow> 0 < room L p"
  by (simp add: room_def)

lemma room_le: "room L p \<le> L"
  by (simp add: room_def)

lemma within_less: "p mod L + i < L \<Longrightarrow> (p + i :: nat) mod L = p mod L + i"
  by (simp flip: mod_add_left_eq [of p L i])

lemma room_add:
  assumes "0 < L" "n < room L p"
  shows "room L (p + n) = room L p - n"
proof -
  have "p mod L + n < L" using assms by (simp add: room_def)
  then have "(p + n) mod L = p mod L + n" by (rule within_less)
  then show ?thesis by (simp add: room_def)
qed

lemma mod_room:
  assumes "0 < L"
  shows "(p + room L p) mod L = 0"
proof -
  have "p mod L < L" "L * (p div L) + p mod L = p" using assms by simp_all
  then have "p + room L p = L * (p div L) + L" unfolding room_def by linarith
  then show ?thesis by simp
qed

lemma room_ring_start: "0 < L \<Longrightarrow> room L (p + room L p) = L"
  by (simp add: room_def [of L "p + room L p"] mod_room)

text \<open>Two positions less than a lap apart lie apart.\<close>

lemma apart:
  fixes i j L :: nat
  assumes "i < j" "j < i + L"
  shows "i mod L \<noteq> j mod L"
proof
  assume "i mod L = j mod L"
  then have "L dvd j - i" using assms by (metis less_imp_le_nat mod_eq_dvd_iff_nat)
  moreover have "0 < j - i" "j - i < L" using assms by auto
  ultimately show False using nat_dvd_not_less by blast
qed

definition ring_bytes :: "nat \<Rightarrow> nat \<Rightarrow> disk \<Rightarrow> nat \<Rightarrow> nat \<Rightarrow> bytes" where
  "ring_bytes S L disk p n = map (\<lambda>i. disk ! (S + i mod L)) [p..<p + n]"

lemma bytes_at_ring:
  assumes "n \<le> room L p" "S + L \<le> length disk" "0 < L"
  shows "bytes_at (S + p mod L) n disk = ring_bytes S L disk p n"
proof (rule nth_equalityI)
  have bound: "p mod L + n \<le> L" using assms(1) mod_less_divisor [OF assms(3), of p]
    unfolding room_def by linarith
  then have "S + p mod L + n \<le> length disk" using assms(2) by simp
  then have len: "length (bytes_at (S + p mod L) n disk) = n" by simp
  then show "length (bytes_at (S + p mod L) n disk) = length (ring_bytes S L disk p n)"
    by (simp add: ring_bytes_def)
  fix i assume "i < length (bytes_at (S + p mod L) n disk)"
  then have "i < n" using len by simp
  moreover from this bound have "(p + i) mod L = p mod L + i" by (intro within_less) simp
  ultimately show "bytes_at (S + p mod L) n disk ! i = ring_bytes S L disk p n ! i"
    using \<open>S + p mod L + n \<le> length disk\<close> by (simp add: nth_bytes_at ring_bytes_def add.assoc)
qed

section \<open>Reading through a window\<close>

abbreviation (input) readAhead :: nat where "readAhead \<equiv> 1048576"

record ringReader =
  reader_end :: nat
  reader_window :: bytes
  reader_at :: nat

definition new_reader :: "nat \<Rightarrow> nat \<Rightarrow> ringReader" where
  "new_reader S L = \<lparr> reader_end = S + L, reader_window = [], reader_at = 0 \<rparr>"

definition reader_read :: "disk \<Rightarrow> ringReader \<Rightarrow> nat \<Rightarrow> nat \<Rightarrow> error + bytes \<times> ringReader" where
  "reader_read disk r off n =
     (if reader_at r \<le> off \<and> off + n \<le> reader_at r + length (reader_window r)
      then Inr (take n (drop (off - reader_at r) (reader_window r)), r)
      else case readFull disk off (min (max n readAhead) (reader_end r - off)) of
             Inl err \<Rightarrow> Inl err
           | Inr buffer \<Rightarrow>
               Inr (take n buffer, r\<lparr> reader_window := buffer, reader_at := off \<rparr>))"

definition reader_ok :: "disk \<Rightarrow> ringReader \<Rightarrow> bool" where
  "reader_ok disk r \<longleftrightarrow> reader_end r \<le> length disk
     \<and> reader_at r + length (reader_window r) \<le> length disk
     \<and> bytes_at (reader_at r) (length (reader_window r)) disk = reader_window r"

lemma new_reader_ok: "S + L \<le> length disk \<Longrightarrow> reader_ok disk (new_reader S L)"
  by (simp add: reader_ok_def new_reader_def bytes_at_def)

text \<open>The window never shows in what is read.\<close>

lemma reader_read_direct:
  assumes "reader_ok disk r" "off + n \<le> reader_end r"
  obtains r' where "reader_read disk r off n = Inr (bytes_at off n disk, r')"
    and "reader_ok disk r'" and "reader_end r' = reader_end r"
proof (cases "reader_at r \<le> off \<and> off + n \<le> reader_at r + length (reader_window r)")
  case True
  then have "off - reader_at r + n \<le> length (reader_window r)" by linarith
  from bytes_at_bytes_at [OF this, of "reader_at r" disk]
  have "take n (drop (off - reader_at r) (reader_window r)) = bytes_at off n disk"
    using True assms(1) by (simp add: reader_ok_def bytes_at_def [of "off - reader_at r"])
  then show ?thesis using True assms(1) by (intro that) (simp_all add: reader_read_def)
next
  case False
  let ?m = "min (max n readAhead) (reader_end r - off)"
  have "off + ?m \<le> length disk" "n \<le> ?m" using assms by (auto simp: reader_ok_def)
  then have "reader_read disk r off n
      = Inr (bytes_at off n disk, r\<lparr> reader_window := bytes_at off ?m disk, reader_at := off \<rparr>)"
    unfolding reader_read_def if_not_P [OF False] by (simp add: readFull_def take_bytes_at)
  then show ?thesis
    by (rule that) (use \<open>off + ?m \<le> length disk\<close> assms(1) in \<open>simp_all add: reader_ok_def\<close>)
qed

section \<open>Reading back\<close>

record indexed =
  indexed_position :: nat
  indexed_length :: nat
  indexed_vm :: string
  indexed_epoch :: u64
  indexed_dead :: bool

definition index_entry :: "bytes \<Rightarrow> head \<Rightarrow> nat \<Rightarrow> indexed list" where
  "index_entry b h position =
     (if head_kind h = kindBlocks
      then [\<lparr> indexed_position = position, indexed_length = head_length h,
              indexed_vm = entryVM b h, indexed_epoch = head_epoch h, indexed_dead = False \<rparr>]
      else [])"

lemma decodeHead_length: "decodeHead b = Inr h \<Longrightarrow> minEntryBytes \<le> head_length h \<and> head_length h mod 8 = 0"
proof -
  assume "decodeHead b = Inr h"
  then consider "minEntryBytes \<le> head_length h \<and> head_length h mod 8 = 0"
    | "head_length h = align8 (head_vm h + head_volume h) + 8 * (8 + head_blocks h * 513)"
    by (auto simp: decodeHead_def Let_def split: if_splits)
  then show ?thesis
  proof cases
    case 2
    then have "head_length h mod 8 = 0" by (simp only: mod_mult_self2 align8_mod)
    moreover have "minEntryBytes \<le> head_length h" using 2 by simp
    ultimately show ?thesis by simp
  qed simp
qed

text \<open>
  The loop of \<^verbatim>\<open>readBack\<close>: from the tail hint, through the reader's window, to the first
  position that holds no whole entry of this journal. The entries of blocks it passes are
  what it indexes, in order.
\<close>

function readBack_from :: "(bytes \<Rightarrow> identity) \<Rightarrow> disk \<Rightarrow> u64 \<Rightarrow> nat \<Rightarrow> nat \<Rightarrow> nat \<Rightarrow>
    ringReader \<Rightarrow> nat \<Rightarrow> indexed list \<Rightarrow> error + nat \<times> indexed list" where
  "readBack_from hash disk generation S L start reader position found =
     (if position - start < L then
        let off = fst (offset S L position); left = snd (offset S L position) in
        if left < minEntryBytes then Inr (position, found)
        else case reader_read disk reader off entryHeadBytes of
          Inl err \<Rightarrow> Inl err
        | Inr (b, reader) \<Rightarrow>
            (case decodeHead b of
               Inl _ \<Rightarrow> Inr (position, found)
             | Inr h \<Rightarrow>
                 if head_position h \<noteq> position \<or> head_generation h \<noteq> generation
                    \<or> head_length h > left then Inr (position, found)
                 else case reader_read disk reader off (head_length h) of
                   Inl err \<Rightarrow> Inl err
                 | Inr (b, reader) \<Rightarrow>
                     (case checkEntry hash b of
                        Inl _ \<Rightarrow> Inr (position, found)
                      | Inr _ \<Rightarrow>
                          readBack_from hash disk generation S L start reader
                            (position + head_length h) (found @ index_entry b h position)))
      else Inr (position, found))"
  by pat_completeness auto

termination readBack_from
  by (relation "measure (\<lambda>(hash, disk, generation, S, L, start, reader, position, found).
        start + L - position)") (auto dest: decodeHead_length)

declare readBack_from.simps [simp del]

text \<open>What is at a position: the head of the whole entry of this journal there, if there is one.\<close>

definition entry_at :: "(bytes \<Rightarrow> identity) \<Rightarrow> disk \<Rightarrow> u64 \<Rightarrow> nat \<Rightarrow> nat \<Rightarrow> nat \<Rightarrow> head option" where
  "entry_at hash disk generation S L position =
     (if room L position < minEntryBytes then None
      else case decodeHead (bytes_at (S + position mod L) entryHeadBytes disk) of
        Inl _ \<Rightarrow> None
      | Inr h \<Rightarrow>
          if head_position h \<noteq> position \<or> head_generation h \<noteq> generation
             \<or> head_length h > room L position then None
          else case checkEntry hash (bytes_at (S + position mod L) (head_length h) disk) of
            Inl _ \<Rightarrow> None
          | Inr _ \<Rightarrow> Some h)"

lemma entry_at_length:
  "entry_at hash disk g S L p = Some h \<Longrightarrow> minEntryBytes \<le> head_length h \<and> head_length h mod 8 = 0
     \<and> head_length h \<le> room L p \<and> head_position h = p \<and> head_generation h = g"
  by (auto simp: entry_at_def dest: decodeHead_length split: if_splits sum.splits)

function scan :: "(bytes \<Rightarrow> identity) \<Rightarrow> disk \<Rightarrow> u64 \<Rightarrow> nat \<Rightarrow> nat \<Rightarrow> nat \<Rightarrow> nat \<Rightarrow> nat \<times> indexed list" where
  "scan hash disk generation S L start position =
     (if position - start < L then
        case entry_at hash disk generation S L position of
          None \<Rightarrow> (position, [])
        | Some h \<Rightarrow>
            let rest = scan hash disk generation S L start (position + head_length h)
            in (fst rest,
                index_entry (bytes_at (S + position mod L) (head_length h) disk) h position @ snd rest)
      else (position, []))"
  by pat_completeness auto

termination scan
  by (relation "measure (\<lambda>(hash, disk, generation, S, L, start, position). start + L - position)")
     (auto dest: entry_at_length)

declare scan.simps [simp del]

text \<open>Reading back through the window is scanning the disk.\<close>

lemma readBack_from_scan:
  assumes "S + L \<le> length disk" "0 < L" "reader_ok disk reader" "reader_end reader = S + L"
  shows "readBack_from hash disk g S L start reader position found =
    Inr (fst (scan hash disk g S L start position),
         found @ snd (scan hash disk g S L start position))"
  using assms
proof (induction hash disk g S L start position arbitrary: reader found rule: scan.induct)
  case (1 hash disk g S L start position)
  let ?at = "S + position mod L"
  note simps = readBack_from.simps [of hash disk g S L start reader position found]
    scan.simps [of hash disk g S L start position]
  have fits: "?at + room L position = S + L"
    using mod_less_divisor [OF 1(3), of position] by (simp add: room_def)
  show ?case
  proof (cases "position - start < L \<and> minEntryBytes \<le> room L position")
    case False
    then show ?thesis by (auto simp: simps offset_eq entry_at_def)
  next
    case True
    then have "?at + 48 \<le> reader_end reader" using fits 1(5) by simp
    from reader_read_direct [OF 1(4) this] obtain r1
      where r1: "reader_read disk reader ?at 48 = Inr (bytes_at ?at 48 disk, r1)"
        "reader_ok disk r1" "reader_end r1 = S + L" using 1(5) by auto
    show ?thesis
    proof (cases "decodeHead (bytes_at ?at 48 disk)")
      case (Inl err)
      then show ?thesis using True r1 by (simp add: simps offset_eq entry_at_def)
    next
      case (Inr h)
      show ?thesis
      proof (cases "head_position h = position \<and> head_generation h = g \<and> head_length h \<le> room L position")
        case False
        then show ?thesis using True r1 Inr by (auto simp: simps offset_eq entry_at_def)
      next
        case match: True
        then have "?at + head_length h \<le> reader_end r1" using fits r1(3) by simp
        from reader_read_direct [OF r1(2) this] obtain r2
          where r2: "reader_read disk r1 ?at (head_length h) = Inr (bytes_at ?at (head_length h) disk, r2)"
            "reader_ok disk r2" "reader_end r2 = S + L" using r1(3) by auto
        show ?thesis
        proof (cases "checkEntry hash (bytes_at ?at (head_length h) disk)")
          case (Inl err)
          then show ?thesis using True match r1 r2 Inr by (simp add: simps offset_eq entry_at_def)
        next
          case found: (Inr h')
          then have entry: "entry_at hash disk g S L position = Some h"
            using True match Inr by (simp add: entry_at_def)
          show ?thesis
            using True match r1 r2 Inr found 1(1) [OF conjunct1 [OF True] entry 1(2,3) r2(2,3)] entry
            by (simp add: simps offset_eq Let_def)
        qed
      qed
    qed
  qed
qed

text \<open>A chain of whole entries from one position to another.\<close>

primrec chain :: "(bytes \<Rightarrow> identity) \<Rightarrow> disk \<Rightarrow> u64 \<Rightarrow> nat \<Rightarrow> nat \<Rightarrow> nat \<Rightarrow> head list \<Rightarrow> nat \<Rightarrow> bool" where
  "chain hash disk g S L p [] q \<longleftrightarrow> p = q"
| "chain hash disk g S L p (h # hs) q \<longleftrightarrow>
     entry_at hash disk g S L p = Some h \<and> chain hash disk g S L (p + head_length h) hs q"

primrec chain_index :: "disk \<Rightarrow> nat \<Rightarrow> nat \<Rightarrow> nat \<Rightarrow> head list \<Rightarrow> indexed list" where
  "chain_index disk S L p [] = []"
| "chain_index disk S L p (h # hs) =
     index_entry (bytes_at (S + p mod L) (head_length h) disk) h p
     @ chain_index disk S L (p + head_length h) hs"

lemma chain_append [simp]:
  "chain hash disk g S L p (hs @ hs') q
     \<longleftrightarrow> (\<exists>m. chain hash disk g S L p hs m \<and> chain hash disk g S L m hs' q)"
  by (induction hs arbitrary: p) auto

lemma chain_end: "chain hash disk g S L p hs q \<Longrightarrow> q = p + (\<Sum>h\<leftarrow>hs. head_length h)"
proof (induction hs arbitrary: p)
  case (Cons h hs)
  then have "chain hash disk g S L (p + head_length h) hs q" by simp
  from Cons.IH [OF this] show ?case by simp
qed simp

lemma chain_le: "chain hash disk g S L p hs q \<Longrightarrow> p \<le> q"
  using chain_end by fastforce

lemma chain_index_append:
  "chain hash disk g S L p hs m \<Longrightarrow>
     chain_index disk S L p (hs @ hs') = chain_index disk S L p hs @ chain_index disk S L m hs'"
  by (induction hs arbitrary: p) auto

text \<open>Scanning from the start of a chain that begins within a lap passes all of it.\<close>

lemma scan_chain:
  assumes "chain hash disk g S L p hs q" "\<forall>h \<in> set hs. head_position h < start + L" "0 < L"
  shows "scan hash disk g S L start p =
    (fst (scan hash disk g S L start q),
     chain_index disk S L p hs @ snd (scan hash disk g S L start q))"
  using assms
proof (induction hs arbitrary: p)
  case (Cons h hs)
  have "p - start < L" using Cons.prems entry_at_length by fastforce
  then have "scan hash disk g S L start p =
      (let rest = scan hash disk g S L start (p + head_length h)
       in (fst rest, index_entry (bytes_at (S + p mod L) (head_length h) disk) h p @ snd rest))"
    using Cons.prems(1) by (subst scan.simps) simp
  then show ?case using Cons.IH [of "p + head_length h"] Cons.prems by (simp add: Let_def)
qed simp

text \<open>And what a scan passes is a chain.\<close>

lemma scan_is_chain:
  obtains hs where "chain hash disk g S L p hs (fst (scan hash disk g S L start p))"
    and "snd (scan hash disk g S L start p) = chain_index disk S L p hs"
    and "\<forall>h \<in> set hs. head_position h - start < L"
proof -
  have "\<exists>hs. chain hash disk g S L p hs (fst (scan hash disk g S L start p))
      \<and> snd (scan hash disk g S L start p) = chain_index disk S L p hs
      \<and> (\<forall>h \<in> set hs. head_position h - start < L)"
  proof (induction hash disk g S L start p rule: scan.induct)
    case (1 hash disk g S L start p)
    show ?case
    proof (cases "p - start < L \<and> entry_at hash disk g S L p \<noteq> None")
      case False
      then have "scan hash disk g S L start p = (p, [])" by (subst scan.simps) auto
      then show ?thesis by (intro exI [of _ "[]"]) simp
    next
      case True
      then obtain h where h: "p - start < L" "entry_at hash disk g S L p = Some h" by auto
      then obtain hs where hs: "chain hash disk g S L (p + head_length h) hs
            (fst (scan hash disk g S L start (p + head_length h)))"
          "snd (scan hash disk g S L start (p + head_length h)) = chain_index disk S L (p + head_length h) hs"
          "\<forall>h \<in> set hs. head_position h - start < L"
        using 1 by blast
      have "head_position h - start < L" using h entry_at_length by fastforce
      then show ?thesis using h hs
        by (intro exI [of _ "h # hs"]) (simp add: scan.simps [of _ _ _ _ _ _ p] Let_def)
    qed
  qed
  then show ?thesis using that by blast
qed

text \<open>What is at a position depends on the bytes of its entry only.\<close>

definition same_ring :: "nat \<Rightarrow> nat \<Rightarrow> disk \<Rightarrow> disk \<Rightarrow> nat \<Rightarrow> nat \<Rightarrow> bool" where
  "same_ring S L disk disk' p q \<longleftrightarrow> (\<forall>i. p \<le> i \<and> i < q \<longrightarrow> disk ! (S + i mod L) = disk' ! (S + i mod L))"

lemma same_ring_bytes:
  assumes "same_ring S L disk disk' p q" "p \<le> p'" "p' + n \<le> q" "n \<le> room L p'"
    "S + L \<le> length disk" "length disk' = length disk" "0 < L"
  shows "bytes_at (S + p' mod L) n disk' = bytes_at (S + p' mod L) n disk"
proof -
  have "ring_bytes S L disk' p' n = ring_bytes S L disk p' n"
    using assms(1-3) by (auto simp: ring_bytes_def same_ring_def)
  then show ?thesis using assms by (simp add: bytes_at_ring)
qed

lemma entry_at_same:
  assumes "entry_at hash disk g S L p = Some h" "same_ring S L disk disk' p (p + head_length h)"
    "S + L \<le> length disk" "length disk' = length disk" "0 < L"
  shows "entry_at hash disk' g S L p = Some h"
    and "bytes_at (S + p mod L) (head_length h) disk' = bytes_at (S + p mod L) (head_length h) disk"
proof -
  note len = entry_at_length [OF assms(1)]
  show whole: "bytes_at (S + p mod L) (head_length h) disk' = bytes_at (S + p mod L) (head_length h) disk"
    using assms len by (intro same_ring_bytes) auto
  have "bytes_at (S + p mod L) 48 disk' = bytes_at (S + p mod L) 48 disk"
    using assms len by (intro same_ring_bytes [OF assms(2)]) auto
  then show "entry_at hash disk' g S L p = Some h"
    using assms(1) whole by (auto simp: entry_at_def split: if_splits sum.splits)
qed

lemma same_ring_sub: "same_ring S L disk disk' p q \<Longrightarrow> p \<le> p' \<Longrightarrow> q' \<le> q \<Longrightarrow> same_ring S L disk disk' p' q'"
  by (auto simp: same_ring_def)

lemma chain_same:
  assumes "chain hash disk g S L p hs q" "same_ring S L disk disk' p q"
    "S + L \<le> length disk" "length disk' = length disk" "0 < L"
  shows "chain hash disk' g S L p hs q \<and> chain_index disk' S L p hs = chain_index disk S L p hs"
  using assms
proof (induction hs arbitrary: p)
  case (Cons h hs)
  have rest: "chain hash disk g S L (p + head_length h) hs q" using Cons.prems(1) by simp
  have "same_ring S L disk disk' p (p + head_length h)"
    using same_ring_sub [OF Cons.prems(2) order_refl chain_le [OF rest]] .
  note same = entry_at_same [OF conjunct1 [OF Cons.prems(1) [unfolded chain.simps]] this assms(3-5)]
  have "same_ring S L disk disk' (p + head_length h) q"
    by (rule same_ring_sub [OF Cons.prems(2)]) simp_all
  from Cons.IH [OF rest this assms(3-5)] show ?case using Cons.prems(1) same by simp
qed simp

section \<open>Writing an image\<close>

text \<open>The loop of \<^verbatim>\<open>Journal.write\<close>: one write, or two where the image crosses the ring's end.\<close>

function write_image :: "nat \<Rightarrow> nat \<Rightarrow> disk \<Rightarrow> nat \<Rightarrow> bytes \<Rightarrow> disk" where
  "write_image S L disk position img =
     (if img = [] \<or> L = 0 then disk
      else
        let off = fst (offset S L position); left = snd (offset S L position);
            n = min (length img) left
        in write_image S L (write_at off (take n img) disk) (position + n) (drop n img))"
  by pat_completeness auto

termination write_image
  by (relation "measure (\<lambda>(S, L, disk, position, img). length img)")
     (auto simp: offset_eq room_def)

declare write_image.simps [simp del]

definition written_at :: "nat \<Rightarrow> nat \<Rightarrow> nat \<Rightarrow> nat \<Rightarrow> nat \<Rightarrow> bool" where
  "written_at S L p n k \<longleftrightarrow> (\<exists>i. p \<le> i \<and> i < p + n \<and> k = S + i mod L)"

lemma chunk_fits: "0 < L \<Longrightarrow> n \<le> room L p \<Longrightarrow> S + p mod L + n \<le> S + L"
  using mod_less_divisor [of L p] unfolding room_def by linarith

lemma write_image_step:
  assumes "img \<noteq> []" "0 < L"
  shows "write_image S L disk p img =
    write_image S L (write_at (S + p mod L) (take (min (length img) (room L p)) img) disk)
      (p + min (length img) (room L p)) (drop (min (length img) (room L p)) img)"
  using assms by (subst write_image.simps) (simp add: offset_eq Let_def)

lemma length_write_image [simp]:
  assumes "S + L \<le> length disk"
  shows "length (write_image S L disk p img) = length disk"
  using assms
proof (induction S L disk p img rule: write_image.induct)
  case (1 S L disk p img)
  show ?case
  proof (cases "img = [] \<or> L = 0")
    case True
    then show ?thesis by (subst write_image.simps) simp
  next
    case False
    let ?n = "min (length img) (room L p)"
    have "S + p mod L + ?n \<le> S + L" using False by (intro chunk_fits) auto
    then have "length (write_at (S + p mod L) (take ?n img) disk) = length disk"
      using 1(2) by (intro length_write_at) simp
    then show ?thesis using 1(1) [OF False refl refl] 1(2) False
      by (simp add: write_image_step offset_eq)
  qed
qed

lemma write_image_miss:
  assumes "S + L \<le> length disk" "\<not> written_at S L p (length img) k" "k < length disk"
  shows "write_image S L disk p img ! k = disk ! k"
  using assms
proof (induction S L disk p img rule: write_image.induct)
  case (1 S L disk p img)
  show ?case
  proof (cases "img = [] \<or> L = 0")
    case True
    then show ?thesis by (subst write_image.simps) simp
  next
    case False
    let ?n = "min (length img) (room L p)"
    let ?disk = "write_at (S + p mod L) (take ?n img) disk"
    have fits: "S + p mod L + ?n \<le> S + L" using False by (intro chunk_fits) auto
    then have len: "length ?disk = length disk" using 1(2) by (intro length_write_at) simp
    have "\<not> written_at S L (p + ?n) (length (drop ?n img)) k"
      using 1(3) by (fastforce simp: written_at_def)
    then have "write_image S L disk p img ! k = ?disk ! k"
      using 1(1) [OF False refl refl] 1(2,4) False len by (simp add: write_image_step offset_eq)
    moreover have "\<not> (S + p mod L \<le> k \<and> k < S + p mod L + ?n)"
    proof
      assume k: "S + p mod L \<le> k \<and> k < S + p mod L + ?n"
      then have "(p + (k - S - p mod L)) mod L = p mod L + (k - S - p mod L)"
        using fits by (intro within_less) linarith
      then have "k = S + (p + (k - S - p mod L)) mod L" using k by simp
      moreover have "p + (k - S - p mod L) < p + length img" using k by linarith
      ultimately show False using 1(3) unfolding written_at_def by (meson le_add1)
    qed
    ultimately show ?thesis using 1(2,4) fits by (simp add: nth_write_at)
  qed
qed

lemma write_image_hit:
  assumes "S + L \<le> length disk" "length img \<le> L" "i < length img"
  shows "write_image S L disk p img ! (S + (p + i) mod L) = img ! i"
  using assms
proof (induction S L disk p img arbitrary: i rule: write_image.induct)
  case (1 S L disk p img)
  then have "\<not> (img = [] \<or> L = 0)" by auto
  let ?n = "min (length img) (room L p)"
  let ?disk = "write_at (S + p mod L) (take ?n img) disk"
  have "0 < L" "img \<noteq> []" using \<open>\<not> (img = [] \<or> L = 0)\<close> by auto
  have fits: "S + p mod L + ?n \<le> S + L" using \<open>0 < L\<close> by (intro chunk_fits) auto
  then have len: "length ?disk = length disk" using 1(2) by (intro length_write_at) simp
  have step: "write_image S L disk p img = write_image S L ?disk (p + ?n) (drop ?n img)"
    using \<open>img \<noteq> []\<close> \<open>0 < L\<close> by (rule write_image_step)
  show ?case
  proof (cases "i < ?n")
    case True
    have "\<not> written_at S L (p + ?n) (length (drop ?n img)) (S + (p + i) mod L)"
    proof
      assume "written_at S L (p + ?n) (length (drop ?n img)) (S + (p + i) mod L)"
      then obtain j where "p + ?n \<le> j" "j < p + length img" "(p + i) mod L = j mod L"
        by (auto simp: written_at_def)
      moreover from this have "p + i < j" "j < p + i + L" using True 1(3) by linarith+
      ultimately show False using apart by blast
    qed
    moreover have "S + (p + i) mod L < length ?disk"
      using 1(2) len mod_less_divisor [OF \<open>0 < L\<close>, of "p + i"] by linarith
    ultimately have "write_image S L disk p img ! (S + (p + i) mod L) = ?disk ! (S + (p + i) mod L)"
      unfolding step using 1(2) len by (intro write_image_miss) auto
    moreover have "(p + i) mod L = p mod L + i" using True fits by (intro within_less) linarith
    ultimately show ?thesis using True fits 1(2) by (simp add: nth_write_at)
  next
    case False
    then have "i - ?n < length (drop ?n img)" "length (drop ?n img) \<le> L"
      "p + ?n + (i - ?n) = p + i" using 1(3,4) by auto
    then show ?thesis
      using 1(1) [OF \<open>\<not> (img = [] \<or> L = 0)\<close> refl refl refl, of "i - ?n"] 1(2) len False step
      by (simp add: offset_eq)
  qed
qed

end
