(* ===== verification/Journal_State.thy ===== *)
theory Journal_State
  imports Journal_Ring "HOL-Library.AList" "HOL-Library.List_Lexorder" "HOL-Library.Char_ord"
begin

text \<open>
  The state of an open journal (\<^verbatim>\<open>Journal\<close> of \<^verbatim>\<open>journal/journal.go\<close>) and the operations on
  its index of live entries: \<^verbatim>\<open>index\<close>, \<^verbatim>\<open>liveTail\<close>, \<^verbatim>\<open>Trim\<close>, \<^verbatim>\<open>Held\<close>, \<^verbatim>\<open>Usage\<close>, \<^verbatim>\<open>Oldest\<close>,
  \<^verbatim>\<open>Shortfall\<close>.

  The source holds each entry once and points at it from \<open>live\<close> and from \<open>held\<close>. A position
  names an entry, so here \<open>held\<close> has copies, and killing an entry marks the entry of
  \<open>live\<close> with its position. Go's maps are association lists with distinct keys.
\<close>

section \<open>State\<close>

record held =
  held_entries :: "indexed list"
  held_bytes :: int

type_synonym held_map = "(string \<times> (u64 \<times> held) list) list"

record commit =
  commit_id :: nat
  commit_room :: nat
  commit_full :: bool

record journal =
  j_lease :: Lease
  j_identity :: identity
  j_generation :: u64
  j_ringStart :: nat
  j_ringLength :: nat
  j_formatted :: bool
  j_header :: slot
  j_current :: nat
  j_headerAt :: nat
  j_tail :: nat
  j_written :: nat
  j_next :: nat
  j_live :: "indexed list"
  j_held :: held_map
  j_fences :: "(string \<times> u64) list"
  j_queue :: "commit list"
  j_placed :: nat
  j_completed :: nat
  j_failed :: "error option"
  j_closed :: bool

definition epochs_of :: "held_map \<Rightarrow> string \<Rightarrow> (u64 \<times> held) list" where
  "epochs_of hm vm = (case map_of hm vm of None \<Rightarrow> [] | Some epochs \<Rightarrow> epochs)"

definition held_of :: "held_map \<Rightarrow> string \<Rightarrow> u64 \<Rightarrow> held" where
  "held_of hm vm epoch =
     (case map_of (epochs_of hm vm) epoch of
        None \<Rightarrow> \<lparr> held_entries = [], held_bytes = 0 \<rparr>
      | Some h \<Rightarrow> h)"

definition fence_of :: "journal \<Rightarrow> string \<Rightarrow> u64" where
  "fence_of j vm = (case map_of (j_fences j) vm of None \<Rightarrow> 0 | Some fence \<Rightarrow> fence)"

definition refusal :: "journal \<Rightarrow> error option" where
  "refusal j =
     (case j_failed j of
        Some err \<Rightarrow> Some err
      | None \<Rightarrow> if j_closed j then Some [JournalClosed] else None)"

section \<open>The index of live entries\<close>

definition index_held :: "held_map \<Rightarrow> indexed \<Rightarrow> held_map" where
  "index_held hm e =
     (let epochs = epochs_of hm (indexed_vm e);
          h = held_of hm (indexed_vm e) (indexed_epoch e);
          h = h\<lparr> held_entries := held_entries h @ [e],
                 held_bytes := held_bytes h + int (indexed_length e) \<rparr>
      in AList.update (indexed_vm e) (AList.update (indexed_epoch e) h epochs) hm)"

definition index :: "journal \<Rightarrow> indexed \<Rightarrow> journal" where
  "index j e = j\<lparr> j_live := j_live j @ [e], j_held := index_held (j_held j) e \<rparr>"

definition liveTail :: "journal \<Rightarrow> journal \<times> nat" where
  "liveTail j =
     (let live = dropWhile indexed_dead (j_live j)
      in (j\<lparr> j_live := live \<rparr>,
          case live of [] \<Rightarrow> j_written j | e # _ \<Rightarrow> indexed_position e))"

text \<open>\<^verbatim>\<open>j.tail = j.liveTail()\<close>.\<close>

definition set_tail :: "journal \<Rightarrow> journal" where
  "set_tail j = (let (j, tail) = liveTail j in j\<lparr> j_tail := tail \<rparr>)"

definition mark_dead :: "nat set \<Rightarrow> indexed list \<Rightarrow> indexed list" where
  "mark_dead positions live =
     map (\<lambda>e. if indexed_position e \<in> positions then e\<lparr> indexed_dead := True \<rparr> else e) live"

definition covers :: "(u64 \<times> nat) list \<Rightarrow> u64 \<Rightarrow> nat \<Rightarrow> bool" where
  "covers covered epoch position =
     (case map_of covered epoch of None \<Rightarrow> True | Some c \<Rightarrow> position \<le> c)"

definition trim_held :: "(u64 \<times> nat) list \<Rightarrow> u64 \<Rightarrow> held \<Rightarrow> held" where
  "trim_held covered epoch h =
     (let kept = filter (\<lambda>e. \<not> covers covered epoch (indexed_position e)) (held_entries h);
          gone = filter (\<lambda>e. covers covered epoch (indexed_position e)) (held_entries h)
      in h\<lparr> held_entries := kept,
            held_bytes := held_bytes h - (\<Sum>e\<leftarrow>gone. int (indexed_length e)) \<rparr>)"

definition Trim :: "journal \<Rightarrow> string \<Rightarrow> (u64 \<times> nat) list \<Rightarrow> journal" where
  "Trim j vm covered =
     (let epochs = epochs_of (j_held j) vm;
          gone = concat (map (\<lambda>(epoch, h).
                   filter (\<lambda>e. covers covered epoch (indexed_position e)) (held_entries h)) epochs);
          trimmed = map (\<lambda>(epoch, h). (epoch, trim_held covered epoch h)) epochs;
          left = filter (\<lambda>(epoch, h). held_entries h \<noteq> []) trimmed;
          hm = (if left = [] then AList.delete vm (j_held j) else AList.update vm left (j_held j))
      in set_tail (j\<lparr> j_live := mark_dead (indexed_position ` set gone) (j_live j), j_held := hm \<rparr>))"

section \<open>What the journal reports\<close>

record Held =
  Held_VM :: string
  Held_Epoch :: u64
  Held_Entries :: nat
  Held_Bytes :: int
  Held_First :: nat
  Held_Last :: nat

definition journal_Held :: "journal \<Rightarrow> Held list" where
  "journal_Held j =
     concat (map (\<lambda>vm.
       let epochs = epochs_of (j_held j) vm in
       map (\<lambda>epoch.
         let h = held_of (j_held j) vm epoch in
         \<lparr> Held_VM = vm, Held_Epoch = epoch, Held_Entries = length (held_entries h),
           Held_Bytes = held_bytes h,
           Held_First = indexed_position (hd (held_entries h)),
           Held_Last = indexed_position (last (held_entries h)) \<rparr>)
         (sort (map fst epochs)))
       (sort (map fst (j_held j))))"

record Usage =
  Usage_Ring :: nat
  Usage_Used :: nat
  Usage_Next :: nat

definition journal_Usage :: "journal \<Rightarrow> Usage" where
  "journal_Usage j = \<lparr> Usage_Ring = j_ringLength j, Usage_Used = j_next j - j_tail j, Usage_Next = j_next j \<rparr>"

fun oldest_from :: "nat \<Rightarrow> indexed list \<Rightarrow> string list \<Rightarrow> string list" where
  "oldest_from limit [] vms = vms"
| "oldest_from limit (e # live) vms =
     (if indexed_position e \<ge> limit then vms
      else if \<not> indexed_dead e \<and> indexed_vm e \<notin> set vms
           then oldest_from limit live (vms @ [indexed_vm e])
           else oldest_from limit live vms)"

definition Oldest :: "journal \<Rightarrow> int \<Rightarrow> string list" where
  "Oldest j bytes = oldest_from (j_tail j + nat (max bytes 0)) (j_live j) []"

definition reserve :: "nat \<Rightarrow> nat \<Rightarrow> nat" where
  "reserve r largest = r + largest + BlockBytes + 2 * minEntryBytes"

definition Shortfall :: "journal \<Rightarrow> nat \<Rightarrow> int" where
  "Shortfall j r =
     (let free = int (j_tail j) + int (j_ringLength j) - int (j_next j)
      in max 0 (int (reserve r r) - free))"

section \<open>The index agrees with the list of entries\<close>

definition live_of :: "journal \<Rightarrow> indexed list" where
  "live_of j = filter (\<lambda>e. \<not> indexed_dead e) (j_live j)"

definition owned_by :: "string \<Rightarrow> u64 \<Rightarrow> indexed list \<Rightarrow> indexed list" where
  "owned_by vm epoch es = filter (\<lambda>e. indexed_vm e = vm \<and> indexed_epoch e = epoch) es"

definition lengths :: "indexed list \<Rightarrow> int" where
  "lengths es = (\<Sum>e\<leftarrow>es. int (indexed_length e))"

definition held_keys_ok :: "held_map \<Rightarrow> bool" where
  "held_keys_ok hm \<longleftrightarrow> distinct (map fst hm)
     \<and> (\<forall>(vm, epochs) \<in> set hm. epochs \<noteq> [] \<and> distinct (map fst epochs)
          \<and> (\<forall>(epoch, h) \<in> set epochs. held_entries h \<noteq> []))"

definition index_ok :: "journal \<Rightarrow> bool" where
  "index_ok j \<longleftrightarrow> held_keys_ok (j_held j)
     \<and> (\<forall>vm epoch. held_entries (held_of (j_held j) vm epoch) = owned_by vm epoch (live_of j)
          \<and> held_bytes (held_of (j_held j) vm epoch) = lengths (owned_by vm epoch (live_of j)))
     \<and> sorted_wrt (<) (map indexed_position (j_live j))"

definition tail_ok :: "journal \<Rightarrow> bool" where
  "tail_ok j \<longleftrightarrow> j_tail j = (case live_of j of [] \<Rightarrow> j_written j | e # _ \<Rightarrow> indexed_position e)"

lemma map_of_filter_snd:
  "distinct (map fst xs) \<Longrightarrow> map_of (filter (\<lambda>(k, v). P v) xs) k =
     (case map_of xs k of None \<Rightarrow> None | Some v \<Rightarrow> if P v then Some v else None)"
  by (induction xs) (auto simp: map_of_eq_None_iff image_iff split: option.splits)

lemma map_of_map_snd: "map_of (map (\<lambda>(k, v). (k, f k v)) xs) k = map_option (f k) (map_of xs k)"
  by (induction xs) auto

lemma epochs_of_distinct: "held_keys_ok hm \<Longrightarrow> distinct (map fst (epochs_of hm vm))"
  by (auto simp: held_keys_ok_def epochs_of_def split: option.split dest!: map_of_SomeD)

lemma epochs_of_nonempty: "held_keys_ok hm \<Longrightarrow> (epoch, h) \<in> set (epochs_of hm vm) \<Longrightarrow> held_entries h \<noteq> []"
  by (fastforce simp: held_keys_ok_def epochs_of_def split: option.splits dest!: map_of_SomeD)

lemma epochs_of_update: "epochs_of (AList.update vm epochs hm) = (epochs_of hm)(vm := epochs)"
  by (auto simp: epochs_of_def update_conv fun_eq_iff)

lemma epochs_of_delete: "epochs_of (AList.delete vm hm) = (epochs_of hm)(vm := [])"
  by (auto simp: epochs_of_def delete_conv fun_eq_iff)

lemma in_update: "x \<in> set (AList.update k v xs) \<Longrightarrow> x = (k, v) \<or> x \<in> set xs"
  by (induction xs) (auto split: if_splits)

lemma held_of_index_held:
  "held_of (index_held hm e) vm epoch =
     (if vm = indexed_vm e \<and> epoch = indexed_epoch e
      then (held_of hm vm epoch)\<lparr> held_entries := held_entries (held_of hm vm epoch) @ [e],
             held_bytes := held_bytes (held_of hm vm epoch) + int (indexed_length e) \<rparr>
      else held_of hm vm epoch)"
  by (simp add: index_held_def Let_def held_of_def [of "AList.update _ _ _"] epochs_of_update update_conv)
     (simp add: held_of_def)

lemma held_keys_ok_update:
  assumes "held_keys_ok hm" "epochs \<noteq> []" "distinct (map fst epochs)"
    "\<And>epoch h. (epoch, h) \<in> set epochs \<Longrightarrow> held_entries h \<noteq> []"
  shows "held_keys_ok (AList.update vm epochs hm)"
  using assms by (auto simp: held_keys_ok_def distinct_update dest!: in_update)

lemma held_keys_ok_index: "held_keys_ok hm \<Longrightarrow> held_keys_ok (index_held hm e)"
  unfolding index_held_def Let_def
proof (rule held_keys_ok_update)
  assume ok: "held_keys_ok hm"
  let ?epochs = "AList.update (indexed_epoch e)
    (held_of hm (indexed_vm e) (indexed_epoch e)
      \<lparr> held_entries := held_entries (held_of hm (indexed_vm e) (indexed_epoch e)) @ [e],
        held_bytes := held_bytes (held_of hm (indexed_vm e) (indexed_epoch e)) + int (indexed_length e) \<rparr>)
    (epochs_of hm (indexed_vm e))"
  show "?epochs \<noteq> []" by (simp add: update_nonempty)
  show "distinct (map fst ?epochs)" using epochs_of_distinct [OF ok] by (simp add: distinct_update)
  show "held_entries h \<noteq> []" if "(epoch, h) \<in> set ?epochs" for epoch h
    using in_update [OF that] epochs_of_nonempty [OF ok] by auto
qed

text \<open>Indexing an entry adds it at the end of the live ones.\<close>

lemma live_of_index: "\<not> indexed_dead e \<Longrightarrow> live_of (index j e) = live_of j @ [e]"
  by (simp add: live_of_def index_def)

lemma index_ok_index:
  assumes "index_ok j" "\<not> indexed_dead e" "\<forall>e' \<in> set (j_live j). indexed_position e' < indexed_position e"
  shows "index_ok (index j e)"
proof -
  have live: "live_of (index j e) = live_of j @ [e]" using assms(2) by (rule live_of_index)
  have "sorted_wrt (<) (map indexed_position (j_live (index j e)))"
    using assms by (auto simp: index_ok_def index_def sorted_wrt_append)
  moreover have "held_keys_ok (j_held (index j e))"
    using assms(1) by (simp add: index_def index_ok_def held_keys_ok_index)
  moreover have "held_entries (held_of (j_held (index j e)) vm epoch) = owned_by vm epoch (live_of (index j e))
      \<and> held_bytes (held_of (j_held (index j e)) vm epoch) = lengths (owned_by vm epoch (live_of (index j e)))"
    for vm epoch
    using assms(1) unfolding live
    by (simp add: index_ok_def index_def held_of_index_held owned_by_def lengths_def)
  ultimately show ?thesis by (simp add: index_ok_def)
qed

text \<open>Dropping the dead entries at the front changes nothing that is live.\<close>

lemma filter_dropWhile_not: "filter (\<lambda>x. \<not> P x) (dropWhile P xs) = filter (\<lambda>x. \<not> P x) xs"
  by (induction xs) auto

lemma hd_live: "(case dropWhile indexed_dead es of [] \<Rightarrow> w | e # _ \<Rightarrow> indexed_position e)
    = (case filter (\<lambda>e. \<not> indexed_dead e) es of [] \<Rightarrow> w | e # _ \<Rightarrow> indexed_position e)"
  by (induction es) auto

lemma set_tail_simps [simp]:
  "live_of (set_tail j) = live_of j" "j_written (set_tail j) = j_written j"
  "j_next (set_tail j) = j_next j" "j_header (set_tail j) = j_header j"
  "j_ringLength (set_tail j) = j_ringLength j" "j_ringStart (set_tail j) = j_ringStart j"
  "j_generation (set_tail j) = j_generation j" "j_held (set_tail j) = j_held j"
  "j_current (set_tail j) = j_current j" "j_fences (set_tail j) = j_fences j"
  "j_lease (set_tail j) = j_lease j" "j_identity (set_tail j) = j_identity j"
  "j_failed (set_tail j) = j_failed j" "j_closed (set_tail j) = j_closed j"
  "j_queue (set_tail j) = j_queue j" "j_placed (set_tail j) = j_placed j"
  "j_completed (set_tail j) = j_completed j" "j_headerAt (set_tail j) = j_headerAt j"
  by (simp_all add: set_tail_def liveTail_def live_of_def Let_def filter_dropWhile_not)

lemma tail_ok_set_tail [simp]: "tail_ok (set_tail j)"
  by (simp add: tail_ok_def set_tail_def liveTail_def live_of_def Let_def hd_live filter_dropWhile_not
           split: list.split)

lemma set_tail_live: "\<exists>ds. j_live j = ds @ j_live (set_tail j)"
  by (intro exI [of _ "takeWhile indexed_dead (j_live j)"]) (simp add: set_tail_def liveTail_def Let_def)

lemma index_ok_set_tail: "index_ok j \<Longrightarrow> index_ok (set_tail j)"
  using set_tail_live [of j] by (auto simp: index_ok_def sorted_wrt_append)

section \<open>Trimming\<close>

definition trims :: "string \<Rightarrow> (u64 \<times> nat) list \<Rightarrow> indexed \<Rightarrow> bool" where
  "trims vm covered e \<longleftrightarrow> indexed_vm e = vm \<and> covers covered (indexed_epoch e) (indexed_position e)"

definition trim_gone :: "(u64 \<times> nat) list \<Rightarrow> (u64 \<times> held) list \<Rightarrow> indexed list" where
  "trim_gone covered epochs = concat (map (\<lambda>(epoch, h).
     filter (\<lambda>e. covers covered epoch (indexed_position e)) (held_entries h)) epochs)"

definition trim_left :: "(u64 \<times> nat) list \<Rightarrow> (u64 \<times> held) list \<Rightarrow> (u64 \<times> held) list" where
  "trim_left covered epochs =
     filter (\<lambda>(epoch, h). held_entries h \<noteq> []) (map (\<lambda>(epoch, h). (epoch, trim_held covered epoch h)) epochs)"

lemma in_epochs_of:
  "held_keys_ok hm \<Longrightarrow> (epoch, h) \<in> set (epochs_of hm vm) \<Longrightarrow> held_of hm vm epoch = h"
  by (simp add: held_of_def epochs_of_distinct)

lemma held_of_in_epochs:
  "e \<in> set (held_entries (held_of hm vm epoch)) \<Longrightarrow> (epoch, held_of hm vm epoch) \<in> set (epochs_of hm vm)"
  by (auto simp: held_of_def split: option.splits dest: map_of_SomeD)

lemma index_ok_held:
  "index_ok j \<Longrightarrow> set (held_entries (held_of (j_held j) vm epoch)) =
     {e \<in> set (live_of j). indexed_vm e = vm \<and> indexed_epoch e = epoch}"
  by (auto simp: index_ok_def owned_by_def)

lemma set_trim_gone:
  assumes "index_ok j"
  shows "set (trim_gone covered (epochs_of (j_held j) vm)) = {e \<in> set (live_of j). trims vm covered e}"
proof (intro equalityI subsetI)
  have keys: "held_keys_ok (j_held j)" using assms by (simp add: index_ok_def)
  fix e assume "e \<in> set (trim_gone covered (epochs_of (j_held j) vm))"
  then obtain epoch h where "(epoch, h) \<in> set (epochs_of (j_held j) vm)" "e \<in> set (held_entries h)"
    "covers covered epoch (indexed_position e)" by (auto simp: trim_gone_def)
  moreover from this have "held_of (j_held j) vm epoch = h" using in_epochs_of [OF keys] by blast
  ultimately show "e \<in> {e \<in> set (live_of j). trims vm covered e}"
    using index_ok_held [OF assms, of vm epoch] by (auto simp: trims_def)
next
  fix e assume e: "e \<in> {e \<in> set (live_of j). trims vm covered e}"
  then have held: "e \<in> set (held_entries (held_of (j_held j) vm (indexed_epoch e)))"
    using index_ok_held [OF assms, of vm "indexed_epoch e"] by (auto simp: trims_def)
  then show "e \<in> set (trim_gone covered (epochs_of (j_held j) vm))"
    using held_of_in_epochs [OF held] e by (fastforce simp: trim_gone_def trims_def)
qed

lemma sorted_positions_unique:
  assumes "sorted_wrt (<) (map indexed_position es)" "e \<in> set es" "e' \<in> set es"
    "indexed_position e = indexed_position e'"
  shows "e = e'"
proof -
  have "distinct (map indexed_position es)" using assms(1) strict_sorted_iff by blast
  then show ?thesis using assms(2-4) by (metis distinct_map inj_on_def)
qed

lemma live_mark_dead:
  assumes "sorted_wrt (<) (map indexed_position es)" "G \<subseteq> set es"
  shows "filter (\<lambda>e. \<not> indexed_dead e) (mark_dead (indexed_position ` G) es)
    = filter (\<lambda>e. e \<notin> G) (filter (\<lambda>e. \<not> indexed_dead e) es)"
proof -
  have "indexed_position e \<in> indexed_position ` G \<longleftrightarrow> e \<in> G" if "e \<in> set es" for e
    using sorted_positions_unique [OF assms(1) that] assms(2) by blast
  then have "mark_dead (indexed_position ` G) es
      = map (\<lambda>e. if e \<in> G then e\<lparr> indexed_dead := True \<rparr> else e) es"
    by (simp add: mark_dead_def)
  moreover have "filter (\<lambda>e. \<not> indexed_dead e) (map (\<lambda>e. if e \<in> G then e\<lparr> indexed_dead := True \<rparr> else e) es)
      = filter (\<lambda>e. e \<notin> G) (filter (\<lambda>e. \<not> indexed_dead e) es)"
    by (induction es) auto
  ultimately show ?thesis by simp
qed

lemma Trim_eq:
  "Trim j vm covered =
     set_tail (j\<lparr> j_live := mark_dead (indexed_position ` set (trim_gone covered (epochs_of (j_held j) vm))) (j_live j),
                 j_held := (if trim_left covered (epochs_of (j_held j) vm) = [] then AList.delete vm (j_held j)
                            else AList.update vm (trim_left covered (epochs_of (j_held j) vm)) (j_held j)) \<rparr>)"
  by (simp add: Trim_def Let_def trim_gone_def trim_left_def)

lemma epochs_of_Trim:
  "epochs_of (j_held (Trim j vm covered))
     = (epochs_of (j_held j))(vm := trim_left covered (epochs_of (j_held j) vm))"
  by (simp add: Trim_eq epochs_of_update epochs_of_delete)

text \<open>Trimming a VM leaves live exactly the entries it does not cover.\<close>

lemma live_of_Trim:
  assumes "index_ok j"
  shows "live_of (Trim j vm covered) = filter (\<lambda>e. \<not> trims vm covered e) (live_of j)"
proof -
  let ?G = "set (trim_gone covered (epochs_of (j_held j) vm))"
  have G: "?G = {e \<in> set (live_of j). trims vm covered e}" using assms by (rule set_trim_gone)
  then have "?G \<subseteq> set (j_live j)" by (auto simp: live_of_def)
  with assms have "live_of (Trim j vm covered) = filter (\<lambda>e. e \<notin> ?G) (live_of j)"
    by (simp add: Trim_eq live_of_def [of "j\<lparr>j_live := _, j_held := _\<rparr>"] live_mark_dead index_ok_def)
       (simp add: live_of_def)
  also have "\<dots> = filter (\<lambda>e. \<not> trims vm covered e) (live_of j)"
    by (rule filter_cong) (simp_all add: G)
  finally show ?thesis .
qed

lemma lengths_split: "lengths es - lengths (filter P es) = lengths (filter (\<lambda>e. \<not> P e) es)"
  by (induction es) (auto simp: lengths_def)

lemma map_of_trim_left:
  assumes "distinct (map fst epochs)"
  shows "map_of (trim_left covered epochs) epoch = (case map_of epochs epoch of
      None \<Rightarrow> None
    | Some h \<Rightarrow> if held_entries (trim_held covered epoch h) \<noteq> [] then Some (trim_held covered epoch h) else None)"
proof -
  let ?es = "map (\<lambda>(epoch, h). (epoch, trim_held covered epoch h)) epochs"
  have "distinct (map fst ?es)" using assms by (simp add: comp_def case_prod_beta)
  from map_of_filter_snd [OF this, of "\<lambda>h. held_entries h \<noteq> []" epoch] show ?thesis
    by (simp add: trim_left_def map_of_map_snd split: option.splits)
qed

lemma index_ok_keys: "index_ok j \<Longrightarrow> held_keys_ok (j_held j)"
  by (simp add: index_ok_def)

lemma held_of_Trim:
  assumes "index_ok j"
  shows "held_entries (held_of (j_held (Trim j vm covered)) vm' epoch)
      = filter (\<lambda>e. \<not> trims vm covered e) (held_entries (held_of (j_held j) vm' epoch))
    \<and> held_bytes (held_of (j_held (Trim j vm covered)) vm' epoch)
      = lengths (filter (\<lambda>e. \<not> trims vm covered e) (held_entries (held_of (j_held j) vm' epoch)))"
proof -
  let ?h = "held_of (j_held j) vm' epoch"
  have bytes: "held_bytes ?h = lengths (held_entries ?h)"
    and mem: "\<And>e. e \<in> set (held_entries ?h) \<Longrightarrow> indexed_vm e = vm' \<and> indexed_epoch e = epoch"
    using assms by (auto simp: index_ok_def owned_by_def)
  show ?thesis
  proof (cases "vm' = vm")
    case False
    then have "held_of (j_held (Trim j vm covered)) vm' epoch = ?h"
      by (simp add: held_of_def epochs_of_Trim)
    moreover have "filter (\<lambda>e. \<not> trims vm covered e) (held_entries ?h) = held_entries ?h"
      using mem False by (intro filter_True) (auto simp: trims_def)
    ultimately show ?thesis using bytes by simp
  next
    case True
    let ?keep = "filter (\<lambda>e. \<not> covers covered epoch (indexed_position e)) (held_entries ?h)"
    have keep: "filter (\<lambda>e. \<not> trims vm covered e) (held_entries ?h) = ?keep"
      using mem True by (intro filter_cong) (auto simp: trims_def)
    note sum = lengths_split [of "held_entries ?h" "\<lambda>e. covers covered epoch (indexed_position e)"]
    have "held_of (j_held (Trim j vm covered)) vm' epoch =
        (if ?keep = [] then \<lparr> held_entries = [], held_bytes = 0 \<rparr> else trim_held covered epoch ?h)"
      using map_of_trim_left [of "epochs_of (j_held j) vm" covered epoch] assms True
      by (simp add: held_of_def epochs_of_Trim epochs_of_distinct index_ok_keys trim_held_def Let_def
            split: option.split)
    then show ?thesis
      using keep bytes sum by (auto simp: trim_held_def Let_def lengths_def)
  qed
qed

lemma held_keys_ok_Trim: "index_ok j \<Longrightarrow> held_keys_ok (j_held (Trim j vm covered))"
proof -
  assume "index_ok j"
  then have ok: "held_keys_ok (j_held j)" by (simp add: index_ok_def)
  let ?left = "trim_left covered (epochs_of (j_held j) vm)"
  have "held_keys_ok (AList.update vm ?left (j_held j))" if "?left \<noteq> []"
  proof (rule held_keys_ok_update [OF ok that])
    show "distinct (map fst ?left)"
      using epochs_of_distinct [OF ok, of vm] unfolding trim_left_def
      by (intro distinct_map_filter) (simp add: comp_def case_prod_beta)
    show "held_entries h \<noteq> []" if "(epoch, h) \<in> set ?left" for epoch h
      using that by (simp add: trim_left_def)
  qed
  moreover have "held_keys_ok (AList.delete vm (j_held j))"
    using ok by (auto simp: held_keys_ok_def distinct_map_filter AList.delete_eq)
  ultimately show ?thesis by (simp add: Trim_eq)
qed

lemma positions_mark_dead [simp]: "map indexed_position (mark_dead P es) = map indexed_position es"
  by (induction es) (auto simp: mark_dead_def)

lemma Trim_live_sub: "\<exists>ds. map indexed_position (j_live j) = ds @ map indexed_position (j_live (Trim j vm covered))"
proof -
  define hm where "hm = (if trim_left covered (epochs_of (j_held j) vm) = [] then AList.delete vm (j_held j)
                            else AList.update vm (trim_left covered (epochs_of (j_held j) vm)) (j_held j))"
  define live where "live = mark_dead (indexed_position ` set (trim_gone covered (epochs_of (j_held j) vm))) (j_live j)"
  have Trim: "Trim j vm covered = set_tail (j\<lparr> j_live := live, j_held := hm \<rparr>)"
    by (simp add: Trim_eq hm_def live_def)
  obtain ds where "live = ds @ j_live (Trim j vm covered)"
    using set_tail_live [of "j\<lparr> j_live := live, j_held := hm \<rparr>"] unfolding Trim by auto
  then have "map indexed_position live = map indexed_position ds @ map indexed_position (j_live (Trim j vm covered))"
    by simp
  then show ?thesis by (auto simp: live_def)
qed

lemma index_ok_Trim:
  assumes "index_ok j"
  shows "index_ok (Trim j vm covered)"
proof -
  have "owned_by vm' epoch (filter P (live_of j)) = filter P (owned_by vm' epoch (live_of j))" for vm' epoch P
    by (simp add: owned_by_def conj_commute)
  moreover have "sorted_wrt (<) (map indexed_position (j_live (Trim j vm covered)))"
    using Trim_live_sub [of j vm covered] assms by (auto simp: index_ok_def sorted_wrt_append)
  ultimately show ?thesis
    using held_of_Trim [OF assms] held_keys_ok_Trim [OF assms] assms
    by (simp add: index_ok_def live_of_Trim [OF assms])
qed

lemma tail_ok_Trim [simp]: "tail_ok (Trim j vm covered)"
  by (simp add: Trim_eq)

lemma Trim_simps [simp]:
  "j_written (Trim j vm c) = j_written j" "j_next (Trim j vm c) = j_next j"
  "j_header (Trim j vm c) = j_header j" "j_ringLength (Trim j vm c) = j_ringLength j"
  "j_ringStart (Trim j vm c) = j_ringStart j" "j_generation (Trim j vm c) = j_generation j"
  "j_current (Trim j vm c) = j_current j" "j_fences (Trim j vm c) = j_fences j"
  "j_lease (Trim j vm c) = j_lease j" "j_identity (Trim j vm c) = j_identity j"
  "j_failed (Trim j vm c) = j_failed j" "j_closed (Trim j vm c) = j_closed j"
  "j_queue (Trim j vm c) = j_queue j" "j_placed (Trim j vm c) = j_placed j"
  "j_completed (Trim j vm c) = j_completed j"
  by (simp_all add: Trim_eq)

lemma tail_ok_tail_le:
  assumes "tail_ok j" "index_ok j" "e \<in> set (live_of j)"
  shows "j_tail j \<le> indexed_position e"
proof -
  have "sorted_wrt (<) (map indexed_position (live_of j))"
    using assms(2) by (simp add: index_ok_def live_of_def sorted_wrt_map sorted_wrt_filter)
  then show ?thesis using assms(1,3) by (auto simp: tail_ok_def split: list.splits)
qed

text \<open>Trimming only moves the tail on.\<close>

lemma Trim_tail_mono:
  assumes "tail_ok j" "index_ok j" "\<forall>e \<in> set (live_of j). indexed_position e < j_written j"
  shows "j_tail j \<le> j_tail (Trim j vm covered)"
proof (cases "live_of (Trim j vm covered)")
  case Nil
  then have "j_tail (Trim j vm covered) = j_written j"
    using tail_ok_Trim [of j vm covered] by (simp add: tail_ok_def)
  moreover have "j_tail j \<le> j_written j"
    using assms(1,3) by (auto simp: tail_ok_def split: list.splits)
  ultimately show ?thesis by simp
next
  case (Cons e es)
  then have "j_tail (Trim j vm covered) = indexed_position e"
    using tail_ok_Trim [of j vm covered] by (simp add: tail_ok_def)
  moreover have "e \<in> set (live_of j)" using Cons live_of_Trim [OF assms(2), of vm covered]
    by (metis filter_is_subset list.set_intros(1) subsetD)
  ultimately show ?thesis using tail_ok_tail_le [OF assms(1,2)] by simp
qed

end
