(* ===== verification/Journal_Writer.thy ===== *)
theory Journal_Writer
  imports Journal_State
begin

text \<open>
  The journal's writer (\<^verbatim>\<open>journal/writer.go\<close>): taking commits, forming batches, laying a batch
  out on the ring, and answering it.

  The capture of a commit is the caller's: what it made when the batch was formed is an
  argument. A batch is captured and placed in one step and completed in another, so that
  reads and trims come between them as they do in the source. A batch with no image
  (\<^verbatim>\<open>nil\<close>) has the empty list: an image that is not nil has a pad or an entry in it.
\<close>

section \<open>Taking commits\<close>

definition CommitHooked :: "journal \<Rightarrow> nat \<Rightarrow> int \<Rightarrow> error + journal" where
  "CommitHooked j ident r =
     (if r < 0 \<or> reserve (nat r) (nat r) > j_ringLength j then Inl [TooLarge]
      else case refusal j of
        Some err \<Rightarrow> Inl err
      | None \<Rightarrow> Inr (j\<lparr> j_queue := j_queue j
                  @ [\<lparr> commit_id = ident, commit_room = nat r, commit_full = False \<rparr>] \<rparr>))"

text \<open>A commit whose caller gives up leaves the queue, if it is still there.\<close>

definition give_up :: "journal \<Rightarrow> nat \<Rightarrow> journal" where
  "give_up j ident = j\<lparr> j_queue := filter (\<lambda>c. commit_id c \<noteq> ident) (j_queue j) \<rparr>"

fun fitting_from :: "journal \<Rightarrow> nat \<Rightarrow> nat \<Rightarrow> nat \<Rightarrow> commit list \<Rightarrow> nat" where
  "fitting_from j r largest n [] = n"
| "fitting_from j r largest n (c # queue) =
     (if n > 0 \<and> r + commit_room c > MaxBatchBytes then n
      else if j_next j + reserve (r + commit_room c) (max largest (commit_room c))
                > slot_tail (j_header j) + j_ringLength j then n
      else fitting_from j (r + commit_room c) (max largest (commit_room c)) (n + 1) queue)"

definition fitting :: "journal \<Rightarrow> nat" where
  "fitting j = fitting_from j 0 0 0 (j_queue j)"

abbreviation (input) tailHintInterval :: nat where "tailHintInterval \<equiv> 1000000000"

text \<open>What one pass of the loop of \<^verbatim>\<open>nextBatch\<close> does next.\<close>

datatype action =
    Stop error "commit list"
  | WriteTailHint
  | Batch "commit list"
  | AskFull commit
  | AwaitChange
  | AwaitTimer nat

definition nextBatch :: "journal \<Rightarrow> nat \<Rightarrow> journal \<times> action" where
  "nextBatch j now =
     (case refusal j of
        Some err \<Rightarrow> (j\<lparr> j_queue := [] \<rparr>, Stop err (j_queue j))
      | None \<Rightarrow>
          let moved = j_tail j \<noteq> slot_tail (j_header j);
              since = now - j_headerAt j;
              n = fitting j
          in if moved \<and> since \<ge> tailHintInterval then (j, WriteTailHint)
             else if n > 0 then (j\<lparr> j_queue := drop n (j_queue j) \<rparr>, Batch (take n (j_queue j)))
             else if j_queue j \<noteq> [] \<and> j_written j < j_next j then (j, Batch [])
             else if j_queue j \<noteq> [] \<and> \<not> commit_full (hd (j_queue j))
             then (j\<lparr> j_queue := (hd (j_queue j))\<lparr> commit_full := True \<rparr> # tl (j_queue j) \<rparr>,
                   AskFull (hd (j_queue j)))
             else if \<not> moved then (j, AwaitChange)
             else (j, AwaitTimer (tailHintInterval - since)))"

section \<open>Laying a batch out\<close>

record layout =
  lay_image :: bytes
  lay_position :: nat
  lay_entries :: "indexed list"

definition lay_pad :: "(bytes \<Rightarrow> identity) \<Rightarrow> u64 \<Rightarrow> nat \<Rightarrow> layout \<Rightarrow> layout" where
  "lay_pad hash generation len st =
     st\<lparr> lay_image := appendPad hash (lay_image st) len (lay_position st) generation,
         lay_position := lay_position st + len \<rparr>"

definition pad_length :: "nat \<Rightarrow> nat \<Rightarrow> nat \<Rightarrow> nat" where
  "pad_length L bound position =
     (let len = min (bound - position) (room L position)
      in if len > MaxEntryBytes then MaxEntryBytes div 2 else len)"

lemma pad_length_pos: "position < bound \<Longrightarrow> 0 < L \<Longrightarrow> 0 < pad_length L bound position"
  by (simp add: pad_length_def Let_def room_pos)

function pad_failed :: "(bytes \<Rightarrow> identity) \<Rightarrow> u64 \<Rightarrow> nat \<Rightarrow> nat \<Rightarrow> layout \<Rightarrow> layout" where
  "pad_failed hash generation L bound st =
     (if lay_position st < bound \<and> 0 < L
      then pad_failed hash generation L bound
             (lay_pad hash generation (pad_length L bound (lay_position st)) st)
      else st)"
  by pat_completeness auto

termination pad_failed
  by (relation "measure (\<lambda>(hash, generation, L, bound, st). bound - lay_position st)")
     (auto simp: lay_pad_def intro!: diff_less_mono2 pad_length_pos)

declare pad_failed.simps [simp del]

definition lay_entry :: "(bytes \<Rightarrow> identity) \<Rightarrow> u64 \<Rightarrow> nat \<Rightarrow> Entry \<Rightarrow> layout \<Rightarrow> layout \<times> nat" where
  "lay_entry hash generation L e st =
     (let size = entry_size e;
          left = room L (lay_position st);
          st = (if size \<noteq> left \<and> size + minEntryBytes > left then lay_pad hash generation left st else st);
          position = lay_position st
      in (st\<lparr> lay_entries := lay_entries st
                @ [\<lparr> indexed_position = position, indexed_length = size, indexed_vm = entry_VM e,
                     indexed_epoch = entry_Epoch e, indexed_dead = False \<rparr>],
              lay_image := appendEntry hash (lay_image st) e position generation,
              lay_position := position + size \<rparr>,
          position))"

fun lay_all :: "(bytes \<Rightarrow> identity) \<Rightarrow> u64 \<Rightarrow> nat \<Rightarrow> Entry list \<Rightarrow> layout \<Rightarrow> layout \<times> nat list" where
  "lay_all hash generation L [] st = (st, [])"
| "lay_all hash generation L (e # es) st =
     (let (st, position) = lay_entry hash generation L e st;
          (st, positions) = lay_all hash generation L es st
      in (st, position # positions))"

definition fenced :: "journal \<Rightarrow> Entry list \<Rightarrow> error option" where
  "fenced j es =
     (if \<exists>e \<in> set es. entry_Epoch e < fence_of j (entry_VM e) then Some [JournalFenced] else None)"

definition lay_commit :: "(bytes \<Rightarrow> identity) \<Rightarrow> journal \<Rightarrow> error + Entry list \<Rightarrow> layout \<Rightarrow>
    layout \<times> (error + nat list)" where
  "lay_commit hash j c st =
     (case c of
        Inl err \<Rightarrow> (st, Inl err)
      | Inr es \<Rightarrow>
          (case fenced j es of
             Some err \<Rightarrow> (st, Inl err)
           | None \<Rightarrow>
               let (st, positions) = lay_all hash (j_generation j) (j_ringLength j) es st
               in (st, Inr positions)))"

fun lay_commits :: "(bytes \<Rightarrow> identity) \<Rightarrow> journal \<Rightarrow> (error + Entry list) list \<Rightarrow> layout \<Rightarrow>
    layout \<times> (error + nat list) list" where
  "lay_commits hash j [] st = (st, [])"
| "lay_commits hash j (c # captured) st =
     (let (st, answer) = lay_commit hash j c st;
          (st, answers) = lay_commits hash j captured st
      in (st, answer # answers))"

definition block_gap :: "nat \<Rightarrow> nat" where
  "block_gap position =
     (let gap = (BlockBytes - position mod BlockBytes) mod BlockBytes
      in if gap > 0 \<and> gap < minEntryBytes then gap + BlockBytes else gap)"

record placement =
  place_start :: nat
  place_end :: nat
  place_image :: bytes
  place_entries :: "indexed list"

definition place :: "(bytes \<Rightarrow> identity) \<Rightarrow> journal \<Rightarrow> (error + Entry list) list \<Rightarrow>
    placement \<times> (error + nat list) list" where
  "place hash j captured =
     (let st = \<lparr> lay_image = [], lay_position = j_written j, lay_entries = [] \<rparr>;
          padded = j_written j < j_next j;
          st = pad_failed hash (j_generation j) (j_ringLength j) (j_next j) st;
          (st, answers) = lay_commits hash j captured st
      in if lay_entries st = [] \<and> \<not> padded
         then (\<lparr> place_start = j_written j, place_end = 0, place_image = [], place_entries = [] \<rparr>, answers)
         else
           let gap = block_gap (lay_position st);
               st = (if gap > 0 then lay_pad hash (j_generation j) gap st else st)
           in (\<lparr> place_start = j_written j, place_end = lay_position st, place_image = lay_image st,
                 place_entries = lay_entries st \<rparr>, answers))"

section \<open>Committing a batch\<close>

text \<open>What a capture made, checked against the format and the commit's room.\<close>

fun check_all :: "Entry list \<Rightarrow> error + nat" where
  "check_all [] = Inr 0"
| "check_all (e # es) =
     (case entry_check e of
        Inl err \<Rightarrow> Inl err
      | Inr _ \<Rightarrow> (case check_all es of Inl err \<Rightarrow> Inl err | Inr n \<Rightarrow> Inr (entry_size e + n)))"

definition capture :: "commit \<Rightarrow> error + Entry list \<Rightarrow> error + Entry list" where
  "capture c made =
     (case made of
        Inl err \<Rightarrow> Inl err
      | Inr es \<Rightarrow>
          (case check_all es of
             Inl err \<Rightarrow> Inl err
           | Inr n \<Rightarrow> if n > commit_room c then Inl [TooLarge] else Inr es))"

definition begin_batch :: "(bytes \<Rightarrow> identity) \<Rightarrow> journal \<Rightarrow> commit list \<Rightarrow> (error + Entry list) list \<Rightarrow>
    journal \<times> placement \<times> (error + nat list) list" where
  "begin_batch hash j batch made =
     (let (p, answers) = place hash j (map2 capture batch made)
      in (j\<lparr> j_placed := j_placed j + 1,
             j_next := (if place_image p \<noteq> [] then place_end p else j_next j) \<rparr>,
          p, answers))"

definition complete :: "journal \<Rightarrow> placement \<Rightarrow> (error + nat list) list \<Rightarrow> error option \<Rightarrow>
    journal \<times> (error + nat list) list" where
  "complete j p answers err =
     (let j = j\<lparr> j_completed := j_completed j + 1 \<rparr>
      in case err of
           None \<Rightarrow>
             let j = (if place_image p \<noteq> [] then j\<lparr> j_written := place_end p \<rparr> else j)
             in (set_tail (foldl index j (place_entries p)), answers)
         | Some e \<Rightarrow>
             (j, map (\<lambda>a. case a of Inl e' \<Rightarrow> Inl e' | Inr _ \<Rightarrow> Inl e) answers))"

text \<open>The commits whose \<^verbatim>\<open>Failed\<close> hook runs: their capture made entries and they did not land.\<close>

definition failed_hooks :: "(error + Entry list) list \<Rightarrow> (error + nat list) list \<Rightarrow> bool list" where
  "failed_hooks captured answers = map2 (\<lambda>c a. \<not> isl c \<and> isl a) captured answers"

end
