(* ===== verification/Journal_Layout.thy ===== *)
theory Journal_Layout
  imports Journal_Writer
begin

text \<open>
  Where the writer puts a batch. An image laid out from a position is a chain of whole
  entries from there (so reading back passes it), no entry crosses the ring's end, the batch
  ends on a 4 KiB boundary, and it takes no more than \<^verbatim>\<open>reserve\<close> counts.
\<close>

section \<open>Images and chains\<close>

definition image_at :: "nat \<Rightarrow> nat \<Rightarrow> disk \<Rightarrow> nat \<Rightarrow> bytes \<Rightarrow> bool" where
  "image_at S L disk p img \<longleftrightarrow> (\<forall>i < length img. disk ! (S + (p + i) mod L) = img ! i)"

lemma image_at_appendD:
  assumes "image_at S L disk p (xs @ ys)"
  shows "image_at S L disk p xs" and "image_at S L disk (p + length xs) ys"
proof -
  note at = assms [unfolded image_at_def, rule_format]
  show "image_at S L disk p xs" unfolding image_at_def
  proof (intro allI impI)
    fix i assume "i < length xs"
    then show "disk ! (S + (p + i) mod L) = xs ! i" using at [of i] by (simp add: nth_append)
  qed
  show "image_at S L disk (p + length xs) ys" unfolding image_at_def
  proof (intro allI impI)
    fix i assume "i < length ys"
    then show "disk ! (S + (p + length xs + i) mod L) = ys ! i"
      using at [of "length xs + i"] by (simp add: add.assoc)
  qed
qed

lemma image_at_bytes:
  assumes "image_at S L disk p img" "length img \<le> room L p" "S + L \<le> length disk" "0 < L"
  shows "bytes_at (S + p mod L) (length img) disk = img"
proof -
  have "ring_bytes S L disk p (length img) = img"
    using assms(1) by (intro nth_equalityI) (auto simp: ring_bytes_def image_at_def)
  then show ?thesis using bytes_at_ring [OF assms(2-4)] by simp
qed

lemma entry_at_image:
  assumes img: "image_at S L disk p b" "checkEntry hash b = Inr h" and h: "head_position h = p"
    "head_generation h = g" "head_length h \<le> room L p" and ring: "S + L \<le> length disk" "0 < L"
  shows "entry_at hash disk g S L p = Some h" and "bytes_at (S + p mod L) (head_length h) disk = b"
proof -
  have dec: "decodeHead b = Inr h" and len: "length b = head_length h"
    using img(2) by (auto simp: checkEntry_def split: sum.splits if_splits)
  show whole: "bytes_at (S + p mod L) (head_length h) disk = b"
    using image_at_bytes [OF img(1) _ ring] len h(3) by simp
  have size: "minEntryBytes \<le> head_length h" using decodeHead_length [OF dec] by simp
  have "decodeHead (take 48 b) = decodeHead b"
    using size len by (intro decodeHead_take) simp
  moreover have "bytes_at (S + p mod L) 48 disk = take 48 b"
    using take_bytes_at [of 48 "head_length h" "S + p mod L" disk] whole size by simp
  ultimately show "entry_at hash disk g S L p = Some h"
    using dec img(2) h size whole by (simp add: entry_at_def)
qed

text \<open>
  A layout whose image, once it is on the ring, is a chain of its pads and of the entries put
  at the positions \<open>puts\<close> says.
\<close>

definition indexed_of :: "nat \<times> Entry \<Rightarrow> indexed" where
  "indexed_of pe = \<lparr> indexed_position = fst pe, indexed_length = entry_size (snd pe),
     indexed_vm = entry_VM (snd pe), indexed_epoch = entry_Epoch (snd pe), indexed_dead = False \<rparr>"

definition stands :: "(bytes \<Rightarrow> identity) \<Rightarrow> u64 \<Rightarrow> nat \<Rightarrow> nat \<Rightarrow> disk \<Rightarrow> nat \<times> Entry \<Rightarrow> bool" where
  "stands hash g S L disk pe \<longleftrightarrow> entry_check (snd pe) = Inr () \<and> fst pe < 2 ^ 64
     \<and> entry_size (snd pe) \<le> room L (fst pe)
     \<and> bytes_at (S + fst pe mod L) (entry_size (snd pe)) disk
         = sealed hash (entry_body (snd pe) (fst pe) g)"

definition laid :: "(bytes \<Rightarrow> identity) \<Rightarrow> u64 \<Rightarrow> nat \<Rightarrow> nat \<Rightarrow> head list \<Rightarrow> (nat \<times> Entry) list \<Rightarrow> layout \<Rightarrow> bool" where
  "laid hash g L start hs puts st \<longleftrightarrow>
     lay_position st = start + length (lay_image st)
     \<and> lay_entries st = map indexed_of puts
     \<and> sorted_wrt (<) (map fst puts)
     \<and> (\<forall>pe \<in> set puts. start \<le> fst pe \<and> fst pe + entry_size (snd pe) \<le> lay_position st)
     \<and> (\<forall>S disk. S + L \<le> length disk \<longrightarrow> image_at S L disk start (lay_image st) \<longrightarrow>
          chain hash disk g S L start hs (lay_position st)
          \<and> chain_index disk S L start hs = lay_entries st
          \<and> (\<forall>pe \<in> set puts. stands hash g S L disk pe))"

lemma laid_start: "laid hash g L start [] [] \<lparr> lay_image = [], lay_position = start, lay_entries = [] \<rparr>"
  by (simp add: laid_def)

lemma laid_step:
  assumes "laid hash g L start hs puts st" "0 < L" "length b = head_length h"
    and b: "checkEntry hash b = Inr h" "head_position h = lay_position st" "head_generation h = g"
    "head_length h \<le> room L (lay_position st)"
    and st': "lay_image st' = lay_image st @ b" "lay_position st' = lay_position st + head_length h"
    "lay_entries st' = lay_entries st @ index_entry b h (lay_position st)"
    and adds: "index_entry b h (lay_position st) = map indexed_of adds"
    "\<And>pe. pe \<in> set adds \<Longrightarrow> fst pe = lay_position st \<and> entry_size (snd pe) = head_length h
       \<and> entry_check (snd pe) = Inr () \<and> fst pe < 2 ^ 64 \<and> b = sealed hash (entry_body (snd pe) (fst pe) g)"
  shows "laid hash g L start (hs @ [h]) (puts @ adds) st'"
proof -
  have p: "lay_position st = start + length (lay_image st)" using assms(1) by (simp add: laid_def)
  have disk: "chain hash disk g S L start (hs @ [h]) (lay_position st')
      \<and> chain_index disk S L start (hs @ [h]) = lay_entries st'
      \<and> (\<forall>pe \<in> set (puts @ adds). stands hash g S L disk pe)"
    if ring: "S + L \<le> length disk" and img: "image_at S L disk start (lay_image st')" for S and disk :: disk
  proof -
    have before: "chain hash disk g S L start hs (lay_position st)"
      "chain_index disk S L start hs = lay_entries st" "\<forall>pe \<in> set puts. stands hash g S L disk pe"
      using assms(1) ring image_at_appendD(1) [OF img [unfolded st'(1)]] by (auto simp: laid_def)
    have "image_at S L disk (lay_position st) b"
      using image_at_appendD(2) [OF img [unfolded st'(1)]] p by simp
    note entry = entry_at_image [OF this b ring assms(2)]
    have "stands hash g S L disk pe" if "pe \<in> set adds" for pe
      using adds(2) [OF that] entry(2) b(4) by (auto simp: stands_def)
    then show ?thesis
      using before entry st'(2,3) by (auto simp: chain_index_append [OF before(1)])
  qed
  have "length adds \<le> 1"
    using arg_cong [OF adds(1), of length] by (simp add: index_entry_def split: if_splits)
  then have one: "adds = [] \<or> (\<exists>pe. adds = [pe])" by (cases adds) auto
  have past: "fst pe < lay_position st" if "pe \<in> set puts" for pe
    using that assms(1) entry_size_min [of "snd pe"] by (force simp: laid_def)
  show ?thesis unfolding laid_def
  proof (intro conjI)
    show "sorted_wrt (<) (map fst (puts @ adds))"
      using assms(1) one adds(2) past by (auto simp: laid_def sorted_wrt_append)
    show "\<forall>pe \<in> set (puts @ adds). start \<le> fst pe \<and> fst pe + entry_size (snd pe) \<le> lay_position st'"
      using assms(1) adds(2) p st'(2) by (fastforce simp: laid_def)
  qed (use assms(1,3) st' adds(1) disk in \<open>auto simp: laid_def\<close>)
qed

lemma laid_pad:
  assumes "laid hash g L start hs puts st" "0 < L" "pad_ok len" "len \<le> room L (lay_position st)"
    "lay_position st < 2 ^ 64"
  shows "laid hash g L start (hs @ [pad_head len (lay_position st) g]) puts (lay_pad hash g len st)"
proof -
  let ?b = "sealed hash (pad_body len (lay_position st) g)"
  have "length ?b = head_length (pad_head len (lay_position st) g)"
    using assms(3) length_pad_body [of len] by (simp add: pad_ok_def pad_head_def)
  from laid_step [OF assms(1,2) this, of "lay_pad hash g len st" "[]"] show ?thesis
    using assms by (simp add: pad_head_def [of len] lay_pad_def appendPad_eq index_entry_def)
qed

lemma entryVM_entry: "entryVM (sealed hash (entry_body e p g)) (entry_head e p g) = entry_VM e"
  by (simp add: entryVM_def sealed_def entry_body_def entry_head_def bytes_at_def)

definition put_entry :: "(bytes \<Rightarrow> identity) \<Rightarrow> u64 \<Rightarrow> Entry \<Rightarrow> layout \<Rightarrow> layout" where
  "put_entry hash g e st =
     st\<lparr> lay_entries := lay_entries st @ [indexed_of (lay_position st, e)],
         lay_image := appendEntry hash (lay_image st) e (lay_position st) g,
         lay_position := lay_position st + entry_size e \<rparr>"

lemma put_entry_position [simp]: "lay_position (put_entry hash g e st) = lay_position st + entry_size e"
  by (simp add: put_entry_def)

lemma lay_entry_eq:
  "lay_entry hash g L e st =
     (let left = room L (lay_position st);
          st = (if entry_size e \<noteq> left \<and> entry_size e + minEntryBytes > left then lay_pad hash g left st else st)
      in (put_entry hash g e st, lay_position st))"
  by (simp add: lay_entry_def put_entry_def indexed_of_def Let_def)

lemma laid_put:
  assumes "laid hash g L start hs puts st" "0 < L" "entry_check e = Inr ()"
    "entry_size e \<le> room L (lay_position st)" "lay_position st < 2 ^ 64"
  shows "laid hash g L start (hs @ [entry_head e (lay_position st) g])
    (puts @ [(lay_position st, e)]) (put_entry hash g e st)"
proof (rule laid_step [OF assms(1,2)])
  let ?b = "sealed hash (entry_body e (lay_position st) g)"
  show "length ?b = head_length (entry_head e (lay_position st) g)"
    using length_entry_body [OF assms(3)] by (simp add: entry_head_def)
  show "checkEntry hash ?b = Inr (entry_head e (lay_position st) g)" using assms by simp
  show index: "index_entry ?b (entry_head e (lay_position st) g) (lay_position st)
      = map indexed_of [(lay_position st, e)]"
    by (simp add: index_entry_def entryVM_entry indexed_of_def) (simp add: entry_head_def)
  show "lay_entries (put_entry hash g e st)
      = lay_entries st @ index_entry ?b (entry_head e (lay_position st) g) (lay_position st)"
    unfolding index by (simp add: put_entry_def)
qed (use assms in \<open>auto simp: entry_head_def put_entry_def appendEntry_eq\<close>)

section \<open>Where entries fit\<close>

definition ring_ok :: "nat \<Rightarrow> bool" where
  "ring_ok L \<longleftrightarrow> BlockBytes dvd L \<and> minRingSize \<le> L"

definition good_position :: "nat \<Rightarrow> nat \<Rightarrow> bool" where
  "good_position L p \<longleftrightarrow> 8 dvd p \<and> minEntryBytes \<le> room L p"

lemma ring_ok_pos: "ring_ok L \<Longrightarrow> 0 < L"
  by (simp add: ring_ok_def)

lemma dvd_room:
  assumes "k dvd L" "k dvd p"
  shows "k dvd room L p"
  using assms unfolding room_def by (intro dvd_diff_nat) (simp_all add: dvd_mod)

lemma dvd_8_4096: "4096 dvd n \<Longrightarrow> 8 dvd (n :: nat)"
  by (rule dvd_trans [of _ 4096]) simp_all

lemma dvd_8_ring: "ring_ok L \<Longrightarrow> 8 dvd L"
  by (simp add: ring_ok_def dvd_8_4096)

lemma block_position_good: "ring_ok L \<Longrightarrow> BlockBytes dvd p \<Longrightarrow> good_position L p"
  using dvd_room [of 4096 L p] room_pos [of L p] dvd_imp_le [of 4096 "room L p"]
  by (simp add: good_position_def dvd_8_4096 ring_ok_def)

lemma ring_start_good: "ring_ok L \<Longrightarrow> 8 dvd p \<Longrightarrow> good_position L (p + room L p)"
  using dvd_room [of 8 L p] by (simp add: good_position_def room_ring_start ring_ok_pos dvd_8_ring)
     (simp add: ring_ok_def)

lemma pad_length_ok:
  assumes ok: "ring_ok L" "good_position L p" and b: "p < bound" "64 \<le> bound - p" "BlockBytes dvd bound"
  defines "l \<equiv> pad_length L bound p"
  shows "pad_ok l \<and> l \<le> room L p \<and> good_position L (p + l)
    \<and> (p + l = bound \<or> p + l < bound \<and> 64 \<le> bound - (p + l))"
proof -
  have room: "8 dvd room L p" "64 \<le> room L p" "8 dvd p"
    using ok dvd_room [of 8 L p] by (auto simp: good_position_def dvd_8_ring)
  have gap: "8 dvd bound - p" using room(3) b by (intro dvd_diff_nat) (simp_all add: dvd_8_4096)
  have l: "l = (if MaxEntryBytes < min (bound - p) (room L p) then MaxEntryBytes div 2
      else min (bound - p) (room L p))" by (simp add: l_def pad_length_def Let_def)
  consider (big) "l = MaxEntryBytes div 2" "MaxEntryBytes < bound - p" "MaxEntryBytes < room L p"
    | (last) "l = bound - p" "bound - p \<le> room L p" "l \<le> MaxEntryBytes"
    | (end_of_ring) "l = room L p" "room L p < bound - p" "l \<le> MaxEntryBytes"
    using l by (cases "bound - p \<le> room L p") (auto split: if_splits)
  then show ?thesis
  proof cases
    case big
    then have "room L (p + l) = room L p - l" using ring_ok_pos [OF ok(1)] by (intro room_add) auto
    moreover have "8 dvd l" using big by simp
    ultimately show ?thesis using big room b by (auto simp: pad_ok_def good_position_def)
  next
    case last
    then have "good_position L (p + l)" using block_position_good [OF ok(1) b(3)] b(1) by simp
    then show ?thesis using last gap b by (auto simp: pad_ok_def elim: dvd_imp_mod_0)
  next
    case end_of_ring
    have "BlockBytes dvd p + room L p"
      using mod_room [of L p] ok(1) by (metis dvd_trans mod_0_imp_dvd ring_ok_def ring_ok_pos)
    then have "BlockBytes dvd bound - (p + l)" using b(3) end_of_ring by (intro dvd_diff_nat) auto
    then have "64 \<le> bound - (p + l)" using dvd_imp_le [of 4096 "bound - (p + l)"] end_of_ring by linarith
    then show ?thesis
      using end_of_ring room ring_start_good [OF ok(1) room(3)] by (auto simp: pad_ok_def elim: dvd_imp_mod_0)
  qed
qed

lemma pad_failed_laid:
  assumes "laid hash g L start hs puts st" "ring_ok L" "good_position L (lay_position st)"
    "lay_position st = bound \<or> lay_position st < bound \<and> 64 \<le> bound - lay_position st \<and> BlockBytes dvd bound"
    "bound < 2 ^ 64"
  shows "\<exists>hs'. laid hash g L start hs' puts (pad_failed hash g L bound st)
    \<and> lay_position (pad_failed hash g L bound st) = bound
    \<and> good_position L bound"
  using assms
proof (induction hash g L bound st arbitrary: hs rule: pad_failed.induct)
  case (1 hash g L bound st)
  show ?case
  proof (cases "lay_position st = bound")
    case True
    then have "pad_failed hash g L bound st = st" by (simp add: pad_failed.simps)
    then show ?thesis using 1(2,4) True by auto
  next
    case False
    then have less: "lay_position st < bound" "64 \<le> bound - lay_position st" "BlockBytes dvd bound"
      using 1(5) by auto
    let ?l = "pad_length L bound (lay_position st)"
    let ?st = "lay_pad hash g ?l st"
    note ok = pad_length_ok [OF 1(3,4) less]
    have "laid hash g L start (hs @ [pad_head ?l (lay_position st) g]) puts ?st"
      using ok less 1(6) ring_ok_pos [OF 1(3)] by (intro laid_pad [OF 1(2)]) auto
    moreover have "good_position L (lay_position ?st)" using ok by (simp add: lay_pad_def)
    moreover have "lay_position ?st = bound \<or> lay_position ?st < bound \<and> 64 \<le> bound - lay_position ?st
        \<and> BlockBytes dvd bound" using ok less by (auto simp: lay_pad_def)
    moreover have "pad_failed hash g L bound st = pad_failed hash g L bound ?st"
      using less ring_ok_pos [OF 1(3)] by (subst pad_failed.simps) simp
    ultimately show ?thesis using 1(1) [of "hs @ [pad_head ?l (lay_position st) g]"] less 1(3,6)
      ring_ok_pos [OF 1(3)] by simp
  qed
qed

text \<open>
  Where the entries of a batch may be once \<open>t\<close> bytes of them are laid out from \<open>n\<close>, the
  largest of \<open>m\<close> bytes: short of the ring's end, or past it with one pad behind.
\<close>

definition spot :: "nat \<Rightarrow> nat \<Rightarrow> nat \<Rightarrow> nat \<Rightarrow> nat \<Rightarrow> bool" where
  "spot L n t m p \<longleftrightarrow> 8 dvd p \<and>
     (p = n + t \<and> p + 64 \<le> n + room L n
      \<or> n + room L n \<le> p \<and> p \<le> n + room L n + t \<and> p \<le> n + t + m + 63)"

lemma spot_start: "good_position L n \<Longrightarrow> spot L n 0 m n"
  by (simp add: spot_def good_position_def)

lemma room_before_end: "0 < L \<Longrightarrow> n \<le> p \<Longrightarrow> p < n + room L n \<Longrightarrow> room L p = n + room L n - p"
  using room_add [of L "p - n" n] by simp

lemma room_after_end:
  assumes "0 < L" "n + room L n \<le> p" "p < n + room L n + L"
  shows "room L p = n + room L n + L - p"
proof -
  have "0 < L" "p - (n + room L n) < L" using assms by linarith+
  then show ?thesis
    using room_add [of L "p - (n + room L n)" "n + room L n"] assms room_ring_start [of L n] by simp
qed

lemma spot_good:
  assumes "spot L n t m p" "ring_ok L" "t + 64 \<le> L"
  shows "good_position L p"
proof (cases "p < n + room L n")
  case True
  then have "room L p = n + room L n - p"
    using assms ring_ok_pos by (intro room_before_end) (auto simp: spot_def)
  then show ?thesis using assms(1) True by (auto simp: spot_def good_position_def)
next
  case False
  then have "room L p = n + room L n + L - p"
    using assms ring_ok_pos by (intro room_after_end) (auto simp: spot_def)
  then show ?thesis using assms(1,3) False by (auto simp: spot_def good_position_def)
qed

lemma lay_entry_laid:
  assumes "laid hash g L start hs puts st" "ring_ok L" "spot L n t m (lay_position st)"
    and e: "entry_check e = Inr ()" "entry_size e \<le> m" "t + entry_size e + 64 \<le> L"
    "n + t + entry_size e + m + 64 \<le> 2 ^ 64"
  obtains hs' st' p where "lay_entry hash g L e st = (st', p)"
    "laid hash g L start hs' (puts @ [(p, e)]) st'" "spot L n (t + entry_size e) m (lay_position st')"
proof -
  let ?p = "lay_position st" and ?left = "room L (lay_position st)" and ?s = "entry_size e"
  have pos: "0 < L" using assms(2) by (rule ring_ok_pos)
  have good: "good_position L ?p" using spot_good [OF assms(3,2)] e(3) by simp
  have eight: "8 dvd ?s" by (simp add: mod_0_imp_dvd)
  have small: "?p < 2 ^ 64" using assms(3) e(4) entry_size_min [of e] by (auto simp: spot_def)
  show ?thesis
  proof (cases "?s \<noteq> ?left \<and> ?s + 64 > ?left")
    case False
    have laid: "laid hash g L start (hs @ [entry_head e ?p g]) (puts @ [(?p, e)]) (put_entry hash g e st)"
      using False e(1) small by (intro laid_put [OF assms(1) pos]) auto
    have "spot L n (t + ?s) m (?p + ?s)"
      unfolding spot_def
    proof
      show "8 dvd ?p + ?s" using good eight by (simp add: good_position_def)
      show "?p + ?s = n + (t + ?s) \<and> ?p + ?s + 64 \<le> n + room L n \<or>
          n + room L n \<le> ?p + ?s \<and> ?p + ?s \<le> n + room L n + (t + ?s) \<and> ?p + ?s \<le> n + (t + ?s) + m + 63"
      proof (cases "?p < n + room L n")
        case True
        then have "?left = n + room L n - ?p"
          using assms(3) pos by (intro room_before_end) (auto simp: spot_def)
        moreover have "?p = n + t" using True assms(3) by (auto simp: spot_def)
        ultimately show ?thesis using True \<open>\<not> (?s \<noteq> ?left \<and> ?s + 64 > ?left)\<close> by linarith
      next
        case False
        then have "?p \<le> n + room L n + t" "?p \<le> n + t + m + 63" using assms(3) by (auto simp: spot_def)
        then show ?thesis using False by linarith
      qed
    qed
    moreover have "lay_entry hash g L e st = (put_entry hash g e st, ?p)"
      unfolding lay_entry_eq Let_def if_not_P [OF False] ..
    ultimately show ?thesis using that [OF _ laid] by simp
  next
    case True
    have before: "?p < n + room L n"
    proof (rule ccontr)
      assume "\<not> ?p < n + room L n"
      moreover from this have "?left = n + room L n + L - ?p"
        using assms(3) e(3) pos by (intro room_after_end) (auto simp: spot_def)
      ultimately show False using True assms(3) e(3) by (auto simp: spot_def)
    qed
    then have left: "?left = n + room L n - ?p"
      using assms(3) pos by (intro room_before_end) (auto simp: spot_def)
    let ?st = "lay_pad hash g ?left st"
    have at: "lay_position ?st = n + room L n" using left before by (simp add: lay_pad_def)
    have "8 dvd ?left" using good dvd_room [of 8 L ?p] dvd_8_ring [OF assms(2)] by (simp add: good_position_def)
    then have "pad_ok ?left"
      using True good e(1) by (auto simp: pad_ok_def good_position_def entry_check_ok)
    then have "laid hash g L start (hs @ [pad_head ?left ?p g]) puts ?st"
      using small by (intro laid_pad [OF assms(1) pos]) auto
    moreover have "room L (lay_position ?st) = L" using at room_ring_start [OF pos] by simp
    moreover have "lay_position ?st < 2 ^ 64" using at left before True assms(3) e(2,4) by (auto simp: spot_def)
    ultimately have laid: "laid hash g L start (hs @ [pad_head ?left ?p g] @ [entry_head e (lay_position ?st) g])
        (puts @ [(lay_position ?st, e)]) (put_entry hash g e ?st)"
      using laid_put [of hash g L start "hs @ [pad_head ?left ?p g]" puts ?st e] pos e(1,3) by simp
    have "spot L n (t + ?s) m (lay_position ?st + ?s)"
      unfolding spot_def
    proof
      have "8 dvd ?p + ?left + ?s" using good eight \<open>8 dvd ?left\<close> by (simp add: good_position_def)
      then show "8 dvd lay_position ?st + ?s" by (simp add: lay_pad_def)
      have "?p = n + t" using before assms(3) by (auto simp: spot_def)
      then show "lay_position ?st + ?s = n + (t + ?s) \<and> lay_position ?st + ?s + 64 \<le> n + room L n \<or>
          n + room L n \<le> lay_position ?st + ?s \<and> lay_position ?st + ?s \<le> n + room L n + (t + ?s)
          \<and> lay_position ?st + ?s \<le> n + (t + ?s) + m + 63"
        using at left before True e(2) by linarith
    qed
    moreover have "lay_entry hash g L e st = (put_entry hash g e ?st, lay_position ?st)"
      unfolding lay_entry_eq Let_def if_P [OF True] ..
    ultimately show ?thesis using that [OF _ laid] by simp
  qed
qed

definition sizes :: "Entry list \<Rightarrow> nat" where
  "sizes es = (\<Sum>e\<leftarrow>es. entry_size e)"

lemma sizes_simps [simp]: "sizes [] = 0" "sizes (e # es) = entry_size e + sizes es"
  by (simp_all add: sizes_def)

lemma lay_all_laid:
  assumes "laid hash g L start hs puts st" "ring_ok L" "spot L n t m (lay_position st)"
    and "\<forall>e \<in> set es. entry_check e = Inr () \<and> entry_size e \<le> m" "t + sizes es + 64 \<le> L"
    "n + t + sizes es + m + 64 \<le> 2 ^ 64"
  shows "\<exists>hs' st' ps. lay_all hash g L es st = (st', ps) \<and> length ps = length es
    \<and> laid hash g L start hs' (puts @ zip ps es) st' \<and> spot L n (t + sizes es) m (lay_position st')"
  using assms
proof (induction es arbitrary: hs puts st t)
  case (Cons e es)
  have sums: "t + entry_size e + sizes es + 64 \<le> L" "n + t + entry_size e + sizes es + m + 64 \<le> 2 ^ 64"
    "entry_check e = Inr ()" "entry_size e \<le> m" "\<forall>e \<in> set es. entry_check e = Inr () \<and> entry_size e \<le> m"
    using Cons.prems(4-6) by simp_all
  obtain hs1 st1 p where one: "lay_entry hash g L e st = (st1, p)"
    "laid hash g L start hs1 (puts @ [(p, e)]) st1" "spot L n (t + entry_size e) m (lay_position st1)"
  proof (rule lay_entry_laid [OF Cons.prems(1-3) sums(3,4)])
    show "t + entry_size e + 64 \<le> L" "n + t + entry_size e + m + 64 \<le> 2 ^ 64" using sums(1,2) by linarith+
  qed
  have "n + (t + entry_size e) + sizes es + m + 64 \<le> 2 ^ 64" using sums(2) by linarith
  from Cons.IH [OF one(2) Cons.prems(2) one(3) sums(5,1) this] obtain hs' st' ps where
    "lay_all hash g L es st1 = (st', ps)" "length ps = length es"
    "laid hash g L start hs' ((puts @ [(p, e)]) @ zip ps es) st'"
    "spot L n (t + entry_size e + sizes es) m (lay_position st')" by blast
  then show ?case using one(1)
    by (intro exI [of _ hs'] exI [of _ st'] exI [of _ "p # ps"]) (simp add: add.assoc)
qed auto

section \<open>Batches\<close>

text \<open>The entries a batch's commits were answered for, with their positions.\<close>

definition accepted1 :: "error + Entry list \<Rightarrow> error + nat list \<Rightarrow> (nat \<times> Entry) list" where
  "accepted1 c a = (case (c, a) of (Inr es, Inr ps) \<Rightarrow> zip ps es | _ \<Rightarrow> [])"

definition accepted :: "(error + Entry list) list \<Rightarrow> (error + nat list) list \<Rightarrow> (nat \<times> Entry) list" where
  "accepted captured answers = concat (map2 accepted1 captured answers)"

definition captured_size :: "error + Entry list \<Rightarrow> nat" where
  "captured_size c = (case c of Inl _ \<Rightarrow> 0 | Inr es \<Rightarrow> sizes es)"

definition captured_ok :: "nat \<Rightarrow> error + Entry list \<Rightarrow> bool" where
  "captured_ok m c \<longleftrightarrow> (case c of Inl _ \<Rightarrow> True
     | Inr es \<Rightarrow> \<forall>e \<in> set es. entry_check e = Inr () \<and> entry_size e \<le> m)"

lemma spot_mono: "spot L n t m p \<Longrightarrow> t \<le> t' \<Longrightarrow> n + room L n \<le> p \<Longrightarrow> spot L n t' m p"
  by (auto simp: spot_def)

lemma lay_commit_laid:
  assumes "laid hash (j_generation j) (j_ringLength j) start hs puts st" "ring_ok (j_ringLength j)"
    "spot (j_ringLength j) n t m (lay_position st)" "captured_ok m c"
    "t + captured_size c + 64 \<le> j_ringLength j" "n + t + captured_size c + m + 64 \<le> 2 ^ 64"
  obtains hs' st' a t' where "lay_commit hash j c st = (st', a)" "t' \<le> t + captured_size c"
    "laid hash (j_generation j) (j_ringLength j) start hs' (puts @ accepted1 c a) st'"
    "spot (j_ringLength j) n t' m (lay_position st')"
proof (cases "\<exists>es. c = Inr es \<and> fenced j es = None")
  case True
  then obtain es where es: "c = Inr es" "fenced j es = None" by blast
  from lay_all_laid [OF assms(1-3), of es] assms(4-6) es obtain hs' st' ps where
    "lay_all hash (j_generation j) (j_ringLength j) es st = (st', ps)"
    "laid hash (j_generation j) (j_ringLength j) start hs' (puts @ zip ps es) st'"
    "spot (j_ringLength j) n (t + sizes es) m (lay_position st')"
    by (auto simp: captured_ok_def captured_size_def)
  then show ?thesis using es
    by (intro that [of st' "Inr ps" "t + sizes es" hs']) (simp_all add: captured_size_def accepted1_def lay_commit_def)
next
  case False
  then have "\<exists>err. lay_commit hash j c st = (st, Inl err)"
    by (auto simp: lay_commit_def split: sum.split option.split)
  then obtain err where "lay_commit hash j c st = (st, Inl err)" by blast
  moreover have "accepted1 c (Inl err) = []" by (simp add: accepted1_def split: sum.splits)
  ultimately show ?thesis using assms(1,3) by (intro that [of st "Inl err" t hs]) simp_all
qed

lemma lay_commits_laid:
  assumes "laid hash (j_generation j) (j_ringLength j) start hs puts st" "ring_ok (j_ringLength j)"
    "spot (j_ringLength j) n t m (lay_position st)" "\<forall>c \<in> set captured. captured_ok m c"
    "t + (\<Sum>c\<leftarrow>captured. captured_size c) + 64 \<le> j_ringLength j"
    "n + t + (\<Sum>c\<leftarrow>captured. captured_size c) + m + 64 \<le> 2 ^ 64"
  shows "\<exists>hs' st' answers t'. lay_commits hash j captured st = (st', answers)
    \<and> length answers = length captured \<and> t' \<le> t + (\<Sum>c\<leftarrow>captured. captured_size c)
    \<and> laid hash (j_generation j) (j_ringLength j) start hs' (puts @ accepted captured answers) st'
    \<and> spot (j_ringLength j) n t' m (lay_position st')"
  using assms
proof (induction captured arbitrary: hs puts st t)
  case Nil
  then show ?case by (auto simp: accepted_def)
next
  case (Cons c captured)
  let ?rest = "\<Sum>c\<leftarrow>captured. captured_size c"
  have sums: "t + captured_size c + ?rest + 64 \<le> j_ringLength j"
    "n + t + captured_size c + ?rest + m + 64 \<le> 2 ^ 64" "captured_ok m c"
    "\<forall>c \<in> set captured. captured_ok m c" using Cons.prems(4-6) by simp_all
  obtain hs1 st1 a t1 where one: "lay_commit hash j c st = (st1, a)" "t1 \<le> t + captured_size c"
      "laid hash (j_generation j) (j_ringLength j) start hs1 (puts @ accepted1 c a) st1"
      "spot (j_ringLength j) n t1 m (lay_position st1)"
  proof (rule lay_commit_laid [OF Cons.prems(1-3) sums(3)])
    show "t + captured_size c + 64 \<le> j_ringLength j" "n + t + captured_size c + m + 64 \<le> 2 ^ 64"
      using sums(1,2) by linarith+
  qed
  have "t1 + ?rest + 64 \<le> j_ringLength j" "n + t1 + ?rest + m + 64 \<le> 2 ^ 64"
    using sums(1,2) one(2) by linarith+
  from Cons.IH [OF one(3) Cons.prems(2) one(4) sums(4) this] obtain hs' st' as t' where rest:
    "lay_commits hash j captured st1 = (st', as)" "length as = length captured" "t' \<le> t1 + ?rest"
    "laid hash (j_generation j) (j_ringLength j) start hs' ((puts @ accepted1 c a) @ accepted captured as) st'"
    "spot (j_ringLength j) n t' m (lay_position st')" by blast
  have "lay_commits hash j (c # captured) st = (st', a # as)"
    using one(1) rest(1) by simp
  moreover have "t' \<le> t + (\<Sum>c\<leftarrow>c # captured. captured_size c)" using rest(3) one(2) by simp
  moreover have "accepted (c # captured) (a # as) = accepted1 c a @ accepted captured as"
    by (simp add: accepted_def)
  ultimately show ?case using rest(2,4,5)
    by (intro exI [of _ hs'] exI [of _ st'] exI [of _ "a # as"] exI [of _ t']) simp
qed

lemma block_gap_ok:
  assumes "ring_ok L" "good_position L p"
  shows "BlockBytes dvd p + block_gap p" and "block_gap p \<le> BlockBytes + 63"
    and "0 < block_gap p \<Longrightarrow> pad_ok (block_gap p) \<and> block_gap p \<le> room L p"
proof -
  define r where "r = p mod 4096"
  define d where "d = (if r = 0 then 0 else 4096 - r)"
  have r: "r < 4096" "p = 4096 * (p div 4096) + r" by (simp_all add: r_def)
  have "(4096 - r) mod 4096 = d" using r(1) by (simp add: d_def)
  then have bg: "block_gap p = (if d > 0 \<and> d < 64 then d + 4096 else d)"
    by (simp add: block_gap_def Let_def r_def)
  have "r = 0 \<and> d = 0 \<or> d = 4096 - r" by (auto simp: d_def)
  then have "p + d = 4096 * (p div 4096) \<or> p + d = 4096 * (p div 4096) + 4096"
    using r by linarith
  then have near: "4096 dvd p + d" by auto
  show block: "4096 dvd p + block_gap p"
  proof (cases "d > 0 \<and> d < 64")
    case True
    then have "p + block_gap p = p + d + 4096" by (simp add: bg)
    moreover have "4096 dvd p + d + 4096" using near by (rule dvd_add) simp
    ultimately show ?thesis by metis
  qed (use near in \<open>auto simp: bg\<close>)
  have "d \<le> 4096" by (simp add: d_def)
  then show small: "block_gap p \<le> 4096 + 63" unfolding bg by simp
  assume pos: "0 < block_gap p"
  have "4096 dvd L" "0 < L" using assms(1) by (simp_all add: ring_ok_def)
  then have room: "4096 dvd p + room L p" using mod_room [of L p] dvd_trans mod_0_imp_dvd by blast
  have "block_gap p \<le> room L p"
  proof (rule ccontr)
    assume "\<not> block_gap p \<le> room L p"
    then have less: "room L p < block_gap p" by simp
    have "4096 dvd (p + block_gap p) - (p + room L p)" using block room by (rule dvd_diff_nat)
    then have "4096 \<le> block_gap p - room L p" using less dvd_imp_le [of 4096 "block_gap p - room L p"] by simp
    moreover have "64 \<le> room L p" using assms(2) by (simp add: good_position_def)
    ultimately show False using small by linarith
  qed
  moreover have "8 dvd block_gap p"
    using dvd_8_4096 [OF block] assms(2) by (simp add: good_position_def dvd_add_right_iff)
  moreover have "64 \<le> block_gap p" using pos unfolding bg by (simp split: if_splits)
  ultimately show "pad_ok (block_gap p) \<and> block_gap p \<le> room L p"
    using small by (simp add: pad_ok_def)
qed

lemma block_gap_0: "BlockBytes dvd p \<Longrightarrow> block_gap p = 0"
  by (simp add: block_gap_def Let_def dvd_imp_mod_0)

text \<open>What a placed batch is.\<close>

definition placed_ok :: "(bytes \<Rightarrow> identity) \<Rightarrow> journal \<Rightarrow> nat \<Rightarrow> placement \<Rightarrow> (nat \<times> Entry) list \<Rightarrow> bool" where
  "placed_ok hash j bound p puts \<longleftrightarrow>
     place_start p = j_written j
     \<and> (if place_image p = [] then puts = [] \<and> place_entries p = [] \<and> j_written j = j_next j
        else BlockBytes dvd place_end p \<and> j_next j \<le> place_end p \<and> place_end p \<le> bound
          \<and> j_written j + minEntryBytes \<le> place_end p
          \<and> (\<exists>hs. laid hash (j_generation j) (j_ringLength j) (j_written j) hs puts
                 \<lparr> lay_image = place_image p, lay_position = place_end p, lay_entries = place_entries p \<rparr>))"

definition cursor_ok :: "journal \<Rightarrow> bool" where
  "cursor_ok j \<longleftrightarrow> good_position (j_ringLength j) (j_written j)
     \<and> (j_written j = j_next j
        \<or> j_written j < j_next j \<and> 64 \<le> j_next j - j_written j \<and> BlockBytes dvd j_next j)"

lemma place_ok:
  assumes ring: "ring_ok (j_ringLength j)" and cursor: "cursor_ok j"
    and captured: "\<forall>c \<in> set captured. captured_ok m c"
    and fits: "reserve (\<Sum>c\<leftarrow>captured. captured_size c) m \<le> j_ringLength j"
    "j_next j + reserve (\<Sum>c\<leftarrow>captured. captured_size c) m \<le> 2 ^ 64"
  obtains p answers where "place hash j captured = (p, answers)" "length answers = length captured"
    "placed_ok hash j (j_next j + reserve (\<Sum>c\<leftarrow>captured. captured_size c) m) p (accepted captured answers)"
    "captured = [] \<longrightarrow> place_image p \<noteq> [] \<longrightarrow> place_end p = j_next j"
proof -
  let ?g = "j_generation j" and ?L = "j_ringLength j" and ?T = "\<Sum>c\<leftarrow>captured. captured_size c"
  define st0 where "st0 = \<lparr> lay_image = [], lay_position = j_written j, lay_entries = [] \<rparr>"
  define st1 where "st1 = pad_failed hash ?g ?L (j_next j) st0"
  have "laid hash ?g ?L (j_written j) [] [] st0" unfolding st0_def by (rule laid_start)
  moreover have "good_position ?L (lay_position st0)" "lay_position st0 = j_next j \<or> lay_position st0 < j_next j
      \<and> 64 \<le> j_next j - lay_position st0 \<and> BlockBytes dvd j_next j"
    using cursor by (simp_all add: st0_def cursor_ok_def)
  moreover have "j_next j < 2 ^ 64" using fits(2) by (simp add: reserve_def)
  ultimately obtain hs1 where
    st1: "laid hash ?g ?L (j_written j) hs1 [] st1" "lay_position st1 = j_next j" "good_position ?L (j_next j)"
    using pad_failed_laid [OF _ ring] unfolding st1_def by blast
  have spot: "spot ?L (j_next j) 0 m (lay_position st1)" using st1 spot_start by simp
  have sums: "0 + ?T + 64 \<le> ?L" "j_next j + 0 + ?T + m + 64 \<le> 2 ^ 64"
    using fits by (simp_all add: reserve_def)
  obtain hs2 st2 answers t where
    st2: "lay_commits hash j captured st1 = (st2, answers)" "length answers = length captured" "t \<le> ?T"
    "laid hash ?g ?L (j_written j) hs2 (accepted captured answers) st2" "spot ?L (j_next j) t m (lay_position st2)"
    using lay_commits_laid [OF st1(1) ring spot captured sums] unfolding append_Nil add_0 by blast
  have good: "good_position ?L (lay_position st2)"
    using spot_good [OF st2(5) ring] st2(3) fits by (simp add: reserve_def)
  have at: "j_next j \<le> lay_position st2" "lay_position st2 \<le> j_next j + ?T + m + 63"
    using st2(3,5) by (auto simp: spot_def)
  have entries: "lay_entries st2 = map indexed_of (accepted captured answers)" using st2(4) by (simp add: laid_def)
  let ?gap = "block_gap (lay_position st2)"
  define st3 where "st3 = (if ?gap > 0 then lay_pad hash ?g ?gap st2 else st2)"
  note gap = block_gap_ok [OF ring good]
  have at3: "lay_position st3 = lay_position st2 + ?gap" by (simp add: st3_def lay_pad_def)
  have "lay_position st2 < 2 ^ 64" using at(2) fits(2) by (simp add: reserve_def)
  note pad = laid_pad [OF st2(4) ring_ok_pos [OF ring] _ _ this, of ?gap]
  obtain hs3 where st3: "laid hash ?g ?L (j_written j) hs3 (accepted captured answers) st3"
  proof (cases "?gap > 0")
    case True
    then show ?thesis using pad gap(3) [OF True] that unfolding st3_def if_P [OF True] by blast
  next
    case False
    then show ?thesis using st2(4) that unfolding st3_def if_not_P [OF False] by blast
  qed
  have place: "place hash j captured =
      (if lay_entries st2 = [] \<and> \<not> j_written j < j_next j
       then (\<lparr> place_start = j_written j, place_end = 0, place_image = [], place_entries = [] \<rparr>, answers)
       else (\<lparr> place_start = j_written j, place_end = lay_position st3, place_image = lay_image st3,
                place_entries = lay_entries st3 \<rparr>, answers))"
    using st2(1) by (simp add: place_def Let_def st0_def st1_def st3_def)
  show ?thesis
  proof (cases "lay_entries st2 = [] \<and> \<not> j_written j < j_next j")
    case True
    then have "place hash j captured = (\<lparr> place_start = j_written j, place_end = 0, place_image = [],
        place_entries = [] \<rparr>, answers)" using place by simp
    from that [OF this st2(2)] show ?thesis
      using True cursor entries by (simp add: placed_ok_def cursor_ok_def)
  next
    case False
    have far: "j_written j + 64 \<le> lay_position st3"
    proof (cases "j_written j < j_next j")
      case False
      then have "accepted captured answers \<noteq> []" using \<open>\<not> (lay_entries st2 = [] \<and> _)\<close> entries by auto
      then obtain pe where "pe \<in> set (accepted captured answers)" by (meson list.set_sel(1))
      then have "j_written j \<le> fst pe \<and> fst pe + entry_size (snd pe) \<le> lay_position st3"
        using st3 unfolding laid_def by blast
      then show ?thesis using entry_size_min [of "snd pe"] by linarith
    qed (use at at3 cursor in \<open>auto simp: cursor_ok_def\<close>)
    moreover have "lay_position st3 = j_written j + length (lay_image st3)" using st3 by (simp add: laid_def)
    ultimately have img: "lay_image st3 \<noteq> []" by auto
    have "placed_ok hash j (j_next j + reserve ?T m)
        \<lparr> place_start = j_written j, place_end = lay_position st3, place_image = lay_image st3,
          place_entries = lay_entries st3 \<rparr> (accepted captured answers)"
      unfolding placed_ok_def placement.simps if_not_P [OF img]
    proof (intro conjI exI)
      show "laid hash ?g ?L (j_written j) hs3 (accepted captured answers)
          \<lparr> lay_image = lay_image st3, lay_position = lay_position st3, lay_entries = lay_entries st3 \<rparr>"
      proof -
        have eq: "\<lparr> lay_image = lay_image st3, lay_position = lay_position st3, lay_entries = lay_entries st3 \<rparr> = st3"
          by (rule layout.equality) simp_all
        show ?thesis unfolding eq by (rule st3)
      qed
      show "4096 dvd lay_position st3" "j_next j \<le> lay_position st3" using gap(1) at(1) at3 by simp_all
      show "lay_position st3 \<le> j_next j + reserve ?T m" using gap(2) at(2) at3 by (simp add: reserve_def)
    qed (use far in simp_all)
    moreover have "place hash j captured = (\<lparr> place_start = j_written j, place_end = lay_position st3,
        place_image = lay_image st3, place_entries = lay_entries st3 \<rparr>, answers)"
      using place unfolding if_not_P [OF False] .
    moreover have "lay_position st3 = j_next j" if "captured = []"
    proof -
      have "st2 = st1" "accepted captured answers = []" using that st2(1) by (simp_all add: accepted_def)
      then have "j_written j < j_next j" using False entries by simp
      then have "BlockBytes dvd j_next j" using cursor by (simp add: cursor_ok_def)
      then show ?thesis using at3 \<open>st2 = st1\<close> st1(2) by (simp add: block_gap_0)
    qed
    ultimately show ?thesis using that [OF _ st2(2)] by simp
  qed
qed

end
