(* ===== verification/Journal_Open.thy ===== *)
theory Journal_Open
  imports Journal_Layout
begin

text \<open>
  The journal and its disk: the header's two slots, the lease, opening a disk, serving reads
  and closing (\<^verbatim>\<open>journal/journal.go\<close>, \<^verbatim>\<open>journal/read.go\<close>).

  A write that fails is an argument: \<open>fault\<close> is the error the disk answers with, if any. What
  such a write leaves on the disk is for the system that uses these definitions to say.
\<close>

section \<open>The header\<close>

definition slot_at :: "(bytes \<Rightarrow> identity) \<Rightarrow> disk \<Rightarrow> nat \<Rightarrow> error + slot" where
  "slot_at hash disk i = decodeSlot hash (bytes_at (i * slotBytes) slotBytes disk)"

definition readHeader :: "(bytes \<Rightarrow> identity) \<Rightarrow> disk \<Rightarrow> error + slot \<times> nat" where
  "readHeader hash disk =
     (case readFull disk 0 (2 * slotBytes) of
        Inl err \<Rightarrow> Inl err
      | Inr _ \<Rightarrow>
          let s0 = slot_at hash disk 0; s1 = slot_at hash disk 1 in
          if s0 = Inl [Version] \<or> s1 = Inl [Version] then Inl [Version]
          else case s0 of
            Inr a \<Rightarrow> (case s1 of
                Inr b \<Rightarrow> if slot_counter b > slot_counter a then Inr (b, 1) else Inr (a, 0)
              | Inl _ \<Rightarrow> Inr (a, 0))
          | Inl _ \<Rightarrow> (case s1 of Inr b \<Rightarrow> Inr (b, 1) | Inl _ \<Rightarrow> Inl [NoSlot]))"

text \<open>The slot \<^verbatim>\<open>writeSlot\<close> writes, and where.\<close>

definition next_slot :: "journal \<Rightarrow> slot \<Rightarrow> slot" where
  "next_slot j s = s\<lparr> slot_counter := slot_counter (j_header j) + 1, slot_lease := j_lease j \<rparr>"

definition writeSlot :: "(bytes \<Rightarrow> identity) \<Rightarrow> journal \<Rightarrow> disk \<Rightarrow> slot \<Rightarrow> error option \<Rightarrow>
    error + journal \<times> disk" where
  "writeSlot hash j disk s fault =
     (case fault of
        Some err \<Rightarrow> Inl err
      | None \<Rightarrow>
          let s = next_slot j s; at = 1 - j_current j
          in Inr (j\<lparr> j_header := s, j_current := at \<rparr>,
                  write_at (at * slotBytes) (encodeSlot hash s) disk))"

definition CheckLease :: "(bytes \<Rightarrow> identity) \<Rightarrow> journal \<Rightarrow> disk \<Rightarrow> journal \<times> (error + unit)" where
  "CheckLease hash j disk =
     (case readHeader hash disk of
        Inl err \<Rightarrow> (j, Inl err)
      | Inr (found, _) \<Rightarrow>
          if slot_lease found = j_lease j then (j, Inr ())
          else (j\<lparr> j_failed := (case j_failed j of None \<Rightarrow> Some [Leased] | Some err \<Rightarrow> Some err) \<rparr>,
                Inl [Leased]))"

text \<open>
  The lease is read and the slot written in one step. On a disk two hosts have mounted, another host
  may open it between the two; that interleaving is not modelled, and what is shown of a disk opened
  by a newer holder is about what the old one does from then on.
\<close>

definition writeHeader :: "(bytes \<Rightarrow> identity) \<Rightarrow> journal \<Rightarrow> disk \<Rightarrow> bool \<Rightarrow> nat \<Rightarrow> error option \<Rightarrow>
    journal \<times> (error + disk)" where
  "writeHeader hash j disk is_empty now fault =
     (let j = j\<lparr> j_headerAt := now \<rparr>
      in case CheckLease hash j disk of
           (j, Inl err) \<Rightarrow> (j, Inl err)
         | (j, Inr _) \<Rightarrow>
             let s = (j_header j)\<lparr> slot_tail := j_tail j, slot_empty := is_empty \<rparr>
             in (case writeSlot hash j disk s fault of
                   Inl err \<Rightarrow> (j, Inl err)
                 | Inr (j, disk) \<Rightarrow> (j, Inr disk)))"

section \<open>Opening\<close>

record Config =
  config_Identity :: identity
  config_Lease :: Lease

definition new_journal :: "Config \<Rightarrow> slot \<Rightarrow> nat \<Rightarrow> bool \<Rightarrow> nat \<Rightarrow> journal" where
  "new_journal config found current formatted now =
     \<lparr> j_lease = config_Lease config, j_identity = config_Identity config,
       j_generation = slot_generation found, j_ringStart = nat (slot_ringStart found),
       j_ringLength = nat (slot_ringLength found), j_formatted = formatted,
       j_header = found, j_current = current, j_headerAt = now,
       j_tail = 0, j_written = 0, j_next = 0, j_live = [], j_held = [], j_fences = [],
       j_queue = [], j_placed = 0, j_completed = 0, j_failed = None, j_closed = False \<rparr>"

definition readBack :: "(bytes \<Rightarrow> identity) \<Rightarrow> journal \<Rightarrow> disk \<Rightarrow> error + journal" where
  "readBack hash j disk =
     (let start = slot_tail (j_header j)
      in case readBack_from hash disk (j_generation j) (j_ringStart j) (j_ringLength j) start
                (new_reader (j_ringStart j) (j_ringLength j)) start [] of
           Inl err \<Rightarrow> Inl err
         | Inr (position, found) \<Rightarrow>
             Inr (set_tail ((foldl index j found)\<lparr> j_written := position, j_next := position \<rparr>)))"

definition formatted_slot :: "Config \<Rightarrow> u64 \<Rightarrow> nat \<Rightarrow> slot" where
  "formatted_slot config entropy bytes =
     (let len = (bytes - ringOffset) div BlockBytes * BlockBytes
      in \<lparr> slot_empty = False, slot_counter = 0, slot_identity = config_Identity config,
           slot_generation = entropy, slot_ringStart = int ringOffset, slot_ringLength = int len,
           slot_tail = len, slot_lease = \<lparr> lease_assigned = 0, lease_member = 0 \<rparr> \<rparr>)"

text \<open>The header \<^verbatim>\<open>Open\<close> goes on with: what it found and may take, or a new one.\<close>

definition open_header :: "(bytes \<Rightarrow> identity) \<Rightarrow> disk \<Rightarrow> Config \<Rightarrow> u64 \<Rightarrow> error + slot \<times> nat \<times> bool" where
  "open_header hash disk config entropy =
     (let bytes = length disk in
      if bytes < ringOffset + minRingSize then Inl [Other 3]
      else case readHeader hash disk of
        Inl err \<Rightarrow>
          if NoSlot \<in> set err then Inr (formatted_slot config entropy bytes, 1, True) else Inl err
      | Inr (found, current) \<Rightarrow>
          if slot_identity found \<noteq> config_Identity config then Inl [WrongDisk]
          else if slot_ringStart found \<noteq> int ringOffset \<or> slot_ringLength found < int minRingSize
                  \<or> slot_ringLength found mod int BlockBytes \<noteq> 0
                  \<or> slot_ringStart found + slot_ringLength found > int bytes then Inl [Other 4]
          else if lease_assigned (slot_lease found) > lease_assigned (config_Lease config)
                  \<or> lease_assigned (slot_lease found) = lease_assigned (config_Lease config)
                    \<and> lease_member (slot_lease found) \<noteq> lease_member (config_Lease config)
          then Inl [Leased]
          else Inr (found, current, False))"

definition journal_Open :: "(bytes \<Rightarrow> identity) \<Rightarrow> disk \<Rightarrow> Config \<Rightarrow> u64 \<Rightarrow> nat \<Rightarrow> error option \<Rightarrow>
    error + journal \<times> disk" where
  "journal_Open hash disk config entropy now fault =
     (case open_header hash disk config entropy of
        Inl err \<Rightarrow> Inl err
      | Inr (found, current, formatted) \<Rightarrow>
          let j = new_journal config found current formatted now
          in (case writeSlot hash j disk (found\<lparr> slot_empty := False \<rparr>) fault of
                Inl err \<Rightarrow> Inl err
              | Inr (j, disk) \<Rightarrow>
                  (case readBack hash j disk of
                     Inl err \<Rightarrow> Inl err
                   | Inr j \<Rightarrow> Inr (j, disk))))"

text \<open>
  The source first waits for the writer to stop. Here the close is a step of its own, taken when no
  batch is in flight, as the condition of that step in Journal_System says.
\<close>

definition journal_Close :: "(bytes \<Rightarrow> identity) \<Rightarrow> journal \<Rightarrow> disk \<Rightarrow> nat \<Rightarrow> error option \<Rightarrow>
    journal \<times> (error + bool \<times> disk)" where
  "journal_Close hash j disk now fault =
     (if j_closed j then (j, Inl [JournalClosed])
      else
        let j = j\<lparr> j_closed := True \<rparr>; is_empty = (j_live j = [])
        in case j_failed j of
             Some err \<Rightarrow> (j, Inl err)
           | None \<Rightarrow>
               (case writeHeader hash j disk is_empty now fault of
                  (j, Inl err) \<Rightarrow> (j, Inl err)
                | (j, Inr disk) \<Rightarrow> (j, Inr (is_empty, disk))))"

section \<open>Serving reads\<close>

record ReadRequest =
  read_VM :: string
  read_Epoch :: u64
  read_After :: nat
  read_Generation :: u64
  read_Reader :: u64

definition read_fence :: "journal \<Rightarrow> ReadRequest \<Rightarrow> error + journal" where
  "read_fence j request =
     (if read_Generation request \<noteq> j_generation j then Inl [WrongGeneration]
      else if read_Reader request \<le> read_Epoch request then Inl [Other 5]
      else case refusal j of
        Some err \<Rightarrow> Inl err
      | None \<Rightarrow>
          if fence_of j (read_VM request) < read_Reader request
          then Inr (j\<lparr> j_fences := AList.update (read_VM request) (read_Reader request) (j_fences j) \<rparr>)
          else Inr j)"

text \<open>Once the batches placed before the fence have completed:\<close>

definition read_wanted :: "journal \<Rightarrow> ReadRequest \<Rightarrow> indexed list" where
  "read_wanted j request =
     (let wanted = concat (map (\<lambda>(epoch, h).
            if epoch \<noteq> read_Epoch request then []
            else filter (\<lambda>e. indexed_position e > read_After request) (held_entries h))
          (epochs_of (j_held j) (read_VM request)))
      in sort_key indexed_position wanted)"

fun read_entries :: "(bytes \<Rightarrow> identity) \<Rightarrow> journal \<Rightarrow> disk \<Rightarrow> (Entry \<Rightarrow> error option) \<Rightarrow> ringReader \<Rightarrow>
    indexed list \<Rightarrow> Entry list \<times> error option" where
  "read_entries hash j disk yield reader [] = ([], None)"
| "read_entries hash j disk yield reader (e # wanted) =
     (case reader_read disk reader (fst (offset (j_ringStart j) (j_ringLength j) (indexed_position e)))
             (indexed_length e) of
        Inl err \<Rightarrow> ([], Some err)
      | Inr (b, reader) \<Rightarrow>
          (case decodeEntry hash b of
             Inl _ \<Rightarrow> ([], Some [Trimmed])
           | Inr (h, entry) \<Rightarrow>
               if head_kind h \<noteq> kindBlocks \<or> head_position h \<noteq> indexed_position e
                  \<or> head_generation h \<noteq> j_generation j then ([], Some [Trimmed])
               else case yield (the entry) of
                 Some err \<Rightarrow> ([the entry], Some err)
               | None \<Rightarrow>
                   (let (es, err) = read_entries hash j disk yield reader wanted
                    in (the entry # es, err))))"

text \<open>A whole read, with no batch in flight: what \<open>yield\<close> is handed, and the error, if any.\<close>

definition journal_Read :: "(bytes \<Rightarrow> identity) \<Rightarrow> journal \<Rightarrow> disk \<Rightarrow> ReadRequest \<Rightarrow> (Entry \<Rightarrow> error option) \<Rightarrow>
    journal \<times> Entry list \<times> error option" where
  "journal_Read hash j disk request yield =
     (case read_fence j request of
        Inl err \<Rightarrow> (j, [], Some err)
      | Inr j \<Rightarrow>
          (j, read_entries hash j disk yield (new_reader (j_ringStart j) (j_ringLength j))
                (read_wanted j request)))"

section \<open>The slots and the ring lie apart\<close>

lemma bytes_at_write:
  assumes "off + length bs \<le> length disk" "i + n \<le> length disk" "i + n \<le> off \<or> off + length bs \<le> i"
  shows "bytes_at i n (write_at off bs disk) = bytes_at i n disk"
proof (rule nth_equalityI)
  show "length (bytes_at i n (write_at off bs disk)) = length (bytes_at i n disk)" using assms by simp
  fix k assume "k < length (bytes_at i n (write_at off bs disk))"
  then have "k < n" using assms by simp
  then show "bytes_at i n (write_at off bs disk) ! k = bytes_at i n disk ! k"
    using assms by (auto simp: nth_bytes_at nth_write_at)
qed

lemma bytes_at_written:
  assumes "off + length bs \<le> length disk"
  shows "bytes_at off (length bs) (write_at off bs disk) = bs"
  using assms by (simp add: bytes_at_def write_at_def)

definition same_ring_bytes_of :: "disk \<Rightarrow> disk \<Rightarrow> bool" where
  "same_ring_bytes_of disk disk' \<longleftrightarrow>
     length disk' = length disk \<and> (\<forall>k. ringOffset \<le> k \<and> k < length disk \<longrightarrow> disk' ! k = disk ! k)"

lemma slot_write:
  assumes "at < 2" "ringOffset \<le> length disk" "slot_wf s"
    and disk'_def: "disk' = write_at (at * slotBytes) (encodeSlot hash s) disk"
  shows "slot_at hash disk' at = Inr s" "slot_at hash disk' (1 - at) = slot_at hash disk (1 - at)"
    "same_ring_bytes_of disk disk'"
proof -
  have fits: "at * 4096 + length (encodeSlot hash s) \<le> length disk" using assms(1,2) by simp
  show "slot_at hash disk' at = Inr s"
    using bytes_at_written [OF fits] assms(3) by (simp add: slot_at_def disk'_def)
  have "at = 0 \<or> at = 1" using assms(1) by linarith
  then show "slot_at hash disk' (1 - at) = slot_at hash disk (1 - at)"
    using fits assms(2) by (auto simp: slot_at_def disk'_def intro!: arg_cong [of _ _ "decodeSlot hash"] bytes_at_write)
  show "same_ring_bytes_of disk disk'"
    using fits assms(1) by (auto simp: same_ring_bytes_of_def disk'_def nth_write_at)
qed

lemma same_ring_same:
  assumes "same_ring_bytes_of disk disk'" "ringOffset + L \<le> length disk" "0 < L"
  shows "same_ring ringOffset L disk disk' p q"
  unfolding same_ring_def
proof (intro allI impI)
  fix i
  have "ringOffset + i mod L < length disk" using mod_less_divisor [OF assms(3), of i] assms(2) by linarith
  then show "disk ! (ringOffset + i mod L) = disk' ! (ringOffset + i mod L)"
    using assms(1) by (simp add: same_ring_bytes_of_def)
qed

lemma stands_same:
  assumes "stands hash g S L disk pe" "same_ring S L disk disk' (fst pe) (fst pe + entry_size (snd pe))"
    "S + L \<le> length disk" "length disk' = length disk" "0 < L"
  shows "stands hash g S L disk' pe"
  using assms same_ring_bytes [OF assms(2) order_refl order_refl _ assms(3-5)] by (simp add: stands_def)

text \<open>The header read from two slots.\<close>

lemma readHeader_two:
  assumes "ringOffset \<le> length disk" "i < 2" "slot_at hash disk i = Inr a"
    "slot_at hash disk (1 - i) = Inl [NoSlot] \<or> (\<exists>b. slot_at hash disk (1 - i) = Inr b \<and> slot_counter b < slot_counter a)"
  shows "readHeader hash disk = Inr (a, i)"
proof -
  have "i = 0 \<or> i = 1" using assms(2) by linarith
  then show ?thesis using assms by (auto simp: readHeader_def readFull_def Let_def)
qed

lemma readHeader_slot:
  assumes "readHeader hash disk = Inr (a, i)"
  shows "i < 2" "slot_at hash disk i = Inr a"
    "slot_at hash disk (1 - i) = Inl [NoSlot]
     \<or> (\<exists>b. slot_at hash disk (1 - i) = Inr b \<and> slot_counter b \<le> slot_counter a)"
proof -
  have "slot_at hash disk k = Inl err \<Longrightarrow> err = [NoSlot] \<or> err = [Version]" for k err
    by (auto simp: slot_at_def decodeSlot_def split: if_splits)
  then show "i < 2" "slot_at hash disk i = Inr a" "slot_at hash disk (1 - i) = Inl [NoSlot]
     \<or> (\<exists>b. slot_at hash disk (1 - i) = Inr b \<and> slot_counter b \<le> slot_counter a)"
    using assms by (auto simp: readHeader_def Let_def not_less split: sum.splits if_splits)
qed

lemma slot_at_wf: "slot_at hash disk i = Inr s \<Longrightarrow> slot_wf s"
  by (simp add: slot_at_def decodeSlot_wf)

end
