(* ===== verification/Journal_Inv.thy ===== *)
theory Journal_Inv
  imports Journal_Open
begin

text \<open>
  What an open journal keeps true of itself and its disk (\<open>journal_inv\<close>), what a disk keeps
  whether a journal is open on it or not (\<open>recoverable\<close>), and that every operation, crash and
  opening goes from one to the other. \<open>owed\<close> is the entries the journal was answered for and
  has not been told to trim.
\<close>

section \<open>Invariants\<close>

text \<open>Reading back from \<open>t\<close> passes whole entries up to \<open>q\<close>, these among them.\<close>

definition covers_from :: "(bytes \<Rightarrow> identity) \<Rightarrow> disk \<Rightarrow> u64 \<Rightarrow> nat \<Rightarrow> nat \<Rightarrow> nat \<Rightarrow> indexed set \<Rightarrow> bool" where
  "covers_from hash disk g L t q es \<longleftrightarrow>
     (\<exists>hs. chain hash disk g ringOffset L t hs q
        \<and> (\<forall>h \<in> set hs. head_position h < t + L)
        \<and> es \<subseteq> set (chain_index disk ringOffset L t hs))"

definition header_fits :: "slot \<Rightarrow> disk \<Rightarrow> bool" where
  "header_fits h disk \<longleftrightarrow> slot_ringStart h = int ringOffset \<and> 0 \<le> slot_ringLength h
     \<and> ring_ok (nat (slot_ringLength h)) \<and> ringOffset + nat (slot_ringLength h) \<le> length disk
     \<and> 8 dvd slot_tail h"

definition owed_on :: "(bytes \<Rightarrow> identity) \<Rightarrow> u64 \<Rightarrow> nat \<Rightarrow> disk \<Rightarrow> (nat \<times> Entry) list \<Rightarrow> bool" where
  "owed_on hash g L disk owed \<longleftrightarrow> (\<forall>pe \<in> set owed. stands hash g ringOffset L disk pe)"

definition serves :: "(bytes \<Rightarrow> identity) \<Rightarrow> slot \<Rightarrow> disk \<Rightarrow> (nat \<times> Entry) list \<Rightarrow> bool" where
  "serves hash h disk owed \<longleftrightarrow> header_fits h disk
     \<and> (\<exists>q. covers_from hash disk (slot_generation h) (nat (slot_ringLength h)) (slot_tail h) q
              (indexed_of ` set owed))
     \<and> owed_on hash (slot_generation h) (nat (slot_ringLength h)) disk owed"

definition recoverable :: "(bytes \<Rightarrow> identity) \<Rightarrow> disk \<Rightarrow> (nat \<times> Entry) list \<Rightarrow> bool" where
  "recoverable hash disk owed \<longleftrightarrow> ringOffset + minRingSize \<le> length disk \<and> length disk < 2 ^ 63
     \<and> (case readHeader hash disk of
          Inl err \<Rightarrow> err = [NoSlot] \<and> owed = []
        | Inr (h, _) \<Rightarrow> serves hash h disk owed)"

text \<open>The header on the disk, and the other slot: nothing, an older header, or a header whose
  write failed and landed all the same.\<close>

definition own_header :: "journal \<Rightarrow> slot \<Rightarrow> bool" where
  "own_header j s \<longleftrightarrow> slot_ringStart s = int ringOffset \<and> slot_ringLength s = int (j_ringLength j)
     \<and> slot_generation s = j_generation j \<and> slot_lease s = j_lease j \<and> slot_identity s = j_identity j
     \<and> 8 dvd slot_tail s \<and> slot_tail (j_header j) \<le> slot_tail s \<and> slot_tail s \<le> j_tail j"

definition slots_ok :: "(bytes \<Rightarrow> identity) \<Rightarrow> journal \<Rightarrow> disk \<Rightarrow> bool" where
  "slots_ok hash j disk \<longleftrightarrow> j_current j < 2 \<and> own_header j (j_header j)
     \<and> slot_at hash disk (j_current j) = Inr (j_header j)
     \<and> (\<forall>err. slot_at hash disk (1 - j_current j) = Inl err \<longrightarrow> err = [NoSlot])
     \<and> (\<forall>s. slot_at hash disk (1 - j_current j) = Inr s \<longrightarrow>
          slot_counter s < slot_counter (j_header j)
            \<or> slot_counter (j_header j) < slot_counter s \<and> own_header j s
              \<and> covers_from hash disk (j_generation j) (j_ringLength j) (slot_tail s) (j_written j) (set (live_of j)))"

definition journal_inv :: "(bytes \<Rightarrow> identity) \<Rightarrow> journal \<Rightarrow> disk \<Rightarrow> (nat \<times> Entry) list \<Rightarrow> bool" where
  "journal_inv hash j disk owed \<longleftrightarrow>
     j_ringStart j = ringOffset \<and> ring_ok (j_ringLength j) \<and> ringOffset + j_ringLength j \<le> length disk
     \<and> length disk < 2 ^ 63
     \<and> slots_ok hash j disk
     \<and> covers_from hash disk (j_generation j) (j_ringLength j) (slot_tail (j_header j)) (j_written j) (set (live_of j))
     \<and> index_ok j \<and> tail_ok j \<and> cursor_ok j
     \<and> (\<forall>e \<in> set (j_live j). indexed_position e < j_written j)
     \<and> (j_written j < j_next j \<longrightarrow> j_next j \<le> slot_tail (j_header j) + j_ringLength j)
     \<and> j_next j < 2 ^ 64
     \<and> indexed_of ` set owed \<subseteq> set (live_of j)
     \<and> owed_on hash (j_generation j) (j_ringLength j) disk owed"

section \<open>Changes of the disk that keep what is covered\<close>

lemma covers_from_same:
  assumes "covers_from hash disk g L t q es" "same_ring ringOffset L disk disk' t q"
    "ringOffset + L \<le> length disk" "length disk' = length disk" "0 < L"
  shows "covers_from hash disk' g L t q es"
  using assms(1) chain_same [OF _ assms(2-5)] unfolding covers_from_def by metis

lemma covers_from_sub: "covers_from hash disk g L t q es \<Longrightarrow> es' \<subseteq> es \<Longrightarrow> covers_from hash disk g L t q es'"
  unfolding covers_from_def by blast

lemma chain_index_member:
  assumes "chain hash disk g S L p hs q" "e \<in> set (chain_index disk S L p hs)"
  shows "p \<le> indexed_position e \<and> indexed_position e + indexed_length e \<le> q \<and> 64 \<le> indexed_length e
    \<and> (\<exists>hs1 hs2. hs = hs1 @ hs2 \<and> chain hash disk g S L p hs1 (indexed_position e)
        \<and> chain hash disk g S L (indexed_position e) hs2 q)"
  using assms
proof (induction hs arbitrary: p)
  case (Cons h hs)
  then have rest: "chain hash disk g S L (p + head_length h) hs q" by simp
  show ?case
  proof (cases "e \<in> set (index_entry (bytes_at (S + p mod L) (head_length h) disk) h p)")
    case True
    then have "indexed_position e = p" "indexed_length e = head_length h"
      by (auto simp: index_entry_def split: if_splits)
    moreover have "64 \<le> head_length h" using Cons.prems(1) entry_at_length by fastforce
    moreover have "h # hs = [] @ (h # hs)" "chain hash disk g S L p [] p" by simp_all
    ultimately show ?thesis using Cons.prems(1) chain_le [OF rest] by (metis order_refl)
  next
    case False
    then have "e \<in> set (chain_index disk S L (p + head_length h) hs)" using Cons.prems(2) by simp
    from Cons.IH [OF rest this] obtain hs1 hs2 where
      "p + head_length h \<le> indexed_position e" "indexed_position e + indexed_length e \<le> q" "64 \<le> indexed_length e" "hs = hs1 @ hs2"
      "chain hash disk g S L (p + head_length h) hs1 (indexed_position e)"
      "chain hash disk g S L (indexed_position e) hs2 q" by blast
    moreover from this have "h # hs = (h # hs1) @ hs2" "chain hash disk g S L p (h # hs1) (indexed_position e)"
      using Cons.prems(1) by simp_all
    ultimately show ?thesis by (meson add_leE)
  qed
qed simp

lemma chain_heads:
  assumes "chain hash disk g S L p hs q" "h \<in> set hs"
  shows "p \<le> head_position h \<and> head_position h + head_length h \<le> q \<and> 64 \<le> head_length h"
  using assms
proof (induction hs arbitrary: p)
  case (Cons h' hs)
  have rest: "chain hash disk g S L (p + head_length h') hs q" using Cons.prems(1) by simp
  show ?case
  proof (cases "h = h'")
    case True
    then show ?thesis using Cons.prems(1) entry_at_length chain_le [OF rest] by fastforce
  next
    case False
    then show ?thesis using Cons.IH [OF rest] Cons.prems(2) by simp
  qed
qed simp

text \<open>The tail may move to any entry that is covered, past the ones that are not asked for.\<close>

lemma covers_from_tail:
  assumes "covers_from hash disk g L t q es" "\<forall>e \<in> es. t' \<le> indexed_position e"
    "t' = q \<or> (\<exists>e \<in> es. indexed_position e = t')"
  shows "covers_from hash disk g L t' q es"
proof -
  obtain hs where hs: "chain hash disk g ringOffset L t hs q" "\<forall>h \<in> set hs. head_position h < t + L"
    "es \<subseteq> set (chain_index disk ringOffset L t hs)" using assms(1) unfolding covers_from_def by blast
  have "\<exists>hs1 hs2. hs = hs1 @ hs2 \<and> chain hash disk g ringOffset L t hs1 t' \<and> chain hash disk g ringOffset L t' hs2 q"
  proof (cases "t' = q")
    case True
    then show ?thesis using hs(1) by (intro exI [of _ hs] exI [of _ "[]"]) simp
  next
    case False
    then show ?thesis using assms(3) chain_index_member [OF hs(1)] hs(3) by blast
  qed
  then obtain hs1 hs2 where split: "hs = hs1 @ hs2" "chain hash disk g ringOffset L t hs1 t'"
    "chain hash disk g ringOffset L t' hs2 q" by blast
  have "es \<subseteq> set (chain_index disk ringOffset L t' hs2)"
  proof
    fix e assume "e \<in> es"
    then have "e \<in> set (chain_index disk ringOffset L t hs1) \<union> set (chain_index disk ringOffset L t' hs2)"
      using hs(3) split chain_index_append [OF split(2)] by auto
    moreover have "e \<notin> set (chain_index disk ringOffset L t hs1)"
    proof
      assume e: "e \<in> set (chain_index disk ringOffset L t hs1)"
      have "indexed_position e < t'" using chain_index_member [OF split(2) e] by linarith
      then show False using assms(2) \<open>e \<in> es\<close> by fastforce
    qed
    ultimately show "e \<in> set (chain_index disk ringOffset L t' hs2)" by blast
  qed
  moreover have "head_position h < t' + L" if "h \<in> set hs2" for h
  proof -
    have "head_position h < t + L" using hs(2) split(1) that by simp
    then show ?thesis using chain_le [OF split(2)] by linarith
  qed
  ultimately show ?thesis using split(3) unfolding covers_from_def by blast
qed

lemma covers_from_member:
  assumes "covers_from hash disk g L t q es" "e \<in> es"
  shows "t \<le> indexed_position e" "indexed_position e + indexed_length e \<le> q"
  using assms chain_index_member unfolding covers_from_def by (meson subsetD)+

lemma covers_from_le: "covers_from hash disk g L t q es \<Longrightarrow> t \<le> q"
  unfolding covers_from_def using chain_le by blast

lemma owed_on_same:
  assumes "owed_on hash g L disk owed" "same_ring ringOffset L disk disk' t q"
    "\<forall>pe \<in> set owed. t \<le> fst pe \<and> fst pe + entry_size (snd pe) \<le> q"
    "ringOffset + L \<le> length disk" "length disk' = length disk" "0 < L"
  shows "owed_on hash g L disk' owed"
  unfolding owed_on_def
proof
  fix pe assume "pe \<in> set owed"
  then show "stands hash g ringOffset L disk' pe"
    using assms(1,3) same_ring_sub [OF assms(2)] by (intro stands_same [OF _ _ assms(4-6)]) (auto simp: owed_on_def)
qed

section \<open>What a failure may leave on the disk\<close>

text \<open>A write of a batch that failed, or was cut short by a crash, leaves anything between
  \<open>written\<close> and \<open>next\<close>.\<close>

definition torn_ring :: "journal \<Rightarrow> disk \<Rightarrow> disk \<Rightarrow> bool" where
  "torn_ring j disk disk' \<longleftrightarrow> length disk' = length disk
     \<and> (\<forall>k < length disk. \<not> written_at ringOffset (j_ringLength j) (j_written j) (j_next j - j_written j) k
          \<longrightarrow> disk' ! k = disk ! k)"

text \<open>A write of a slot that failed leaves the slot as it was, as it was to be, or holding no
  header.\<close>

definition torn_slot :: "(bytes \<Rightarrow> identity) \<Rightarrow> nat \<Rightarrow> slot option \<Rightarrow> disk \<Rightarrow> disk \<Rightarrow> bool" where
  "torn_slot hash at s disk disk' \<longleftrightarrow> length disk' = length disk
     \<and> (\<forall>k < length disk. \<not> (at * slotBytes \<le> k \<and> k < at * slotBytes + slotBytes) \<longrightarrow> disk' ! k = disk ! k)
     \<and> (slot_at hash disk' at = slot_at hash disk at \<or> slot_at hash disk' at = Inl [NoSlot]
        \<or> (\<exists>s'. s = Some s' \<and> slot_at hash disk' at = Inr s'))"

lemma torn_ring_slots:
  assumes "torn_ring j disk disk'" "ringOffset \<le> length disk" "i < 2"
  shows "slot_at hash disk' i = slot_at hash disk i"
proof -
  have "bytes_at (i * 4096) 4096 disk' = bytes_at (i * 4096) 4096 disk"
    using assms by (intro nth_equalityI) (auto simp: nth_bytes_at torn_ring_def written_at_def)
  then show ?thesis by (simp add: slot_at_def)
qed

lemma torn_ring_same:
  assumes "torn_ring j disk disk'" "ringOffset + j_ringLength j \<le> length disk" "0 < j_ringLength j"
    "j_next j \<le> t + j_ringLength j"
  shows "same_ring ringOffset (j_ringLength j) disk disk' t (j_written j)"
  unfolding same_ring_def
proof (intro allI impI)
  let ?L = "j_ringLength j"
  fix i assume i: "t \<le> i \<and> i < j_written j"
  have "ringOffset + i mod ?L < length disk" using mod_less_divisor [OF assms(3), of i] assms(2) by linarith
  moreover have "\<not> written_at ringOffset ?L (j_written j) (j_next j - j_written j) (ringOffset + i mod ?L)"
  proof
    assume "written_at ringOffset ?L (j_written j) (j_next j - j_written j) (ringOffset + i mod ?L)"
    then obtain k where "j_written j \<le> k" "k < j_written j + (j_next j - j_written j)" "i mod ?L = k mod ?L"
      by (auto simp: written_at_def)
    moreover from this have "i < k" "k < i + ?L" using i assms(4) by linarith+
    ultimately show False using apart by blast
  qed
  ultimately show "disk ! (ringOffset + i mod ?L) = disk' ! (ringOffset + i mod ?L)"
    using assms(1) by (simp add: torn_ring_def)
qed

lemma torn_slot_other:
  assumes "torn_slot hash at s disk disk'" "ringOffset \<le> length disk" "at < 2"
  shows "slot_at hash disk' (1 - at) = slot_at hash disk (1 - at)" "same_ring_bytes_of disk disk'"
proof -
  have "at = 0 \<or> at = 1" using assms(3) by linarith
  then have "bytes_at ((1 - at) * 4096) 4096 disk' = bytes_at ((1 - at) * 4096) 4096 disk"
    using assms(1,2) by (intro nth_equalityI) (auto simp: nth_bytes_at torn_slot_def)
  then show "slot_at hash disk' (1 - at) = slot_at hash disk (1 - at)" by (simp add: slot_at_def)
  show "same_ring_bytes_of disk disk'" using assms(1,3) by (auto simp: same_ring_bytes_of_def torn_slot_def)
qed

section \<open>Preservation\<close>

lemmas journal_inv_defs = journal_inv_def slots_ok_def own_header_def

lemma journal_inv_cong:
  assumes "j_lease j' = j_lease j" "j_identity j' = j_identity j" "j_generation j' = j_generation j"
    "j_ringStart j' = j_ringStart j" "j_ringLength j' = j_ringLength j" "j_header j' = j_header j"
    "j_current j' = j_current j" "j_tail j' = j_tail j" "j_written j' = j_written j" "j_next j' = j_next j"
    "j_live j' = j_live j" "j_held j' = j_held j"
  shows "journal_inv hash j' disk owed = journal_inv hash j disk owed"
  unfolding journal_inv_defs index_ok_def tail_ok_def cursor_ok_def live_of_def assms ..

lemma journal_inv_updates [simp]:
  "journal_inv hash (j\<lparr>j_queue := q\<rparr>) disk owed = journal_inv hash j disk owed"
  "journal_inv hash (j\<lparr>j_headerAt := t\<rparr>) disk owed = journal_inv hash j disk owed"
  "journal_inv hash (j\<lparr>j_fences := f\<rparr>) disk owed = journal_inv hash j disk owed"
  "journal_inv hash (j\<lparr>j_closed := c\<rparr>) disk owed = journal_inv hash j disk owed"
  "journal_inv hash (j\<lparr>j_failed := e\<rparr>) disk owed = journal_inv hash j disk owed"
  "journal_inv hash (j\<lparr>j_placed := n\<rparr>) disk owed = journal_inv hash j disk owed"
  "journal_inv hash (j\<lparr>j_completed := n\<rparr>) disk owed = journal_inv hash j disk owed"
  by (rule journal_inv_cong; simp)+

lemma inv_ring: "journal_inv hash j disk owed \<Longrightarrow> 0 < j_ringLength j \<and> ringOffset + j_ringLength j \<le> length disk
    \<and> ringOffset \<le> length disk"
  by (auto simp: journal_inv_def ring_ok_pos)

lemma inv_live_owed:
  assumes "journal_inv hash j disk owed" "pe \<in> set owed"
  shows "slot_tail (j_header j) \<le> fst pe \<and> j_tail j \<le> fst pe \<and> fst pe + entry_size (snd pe) \<le> j_written j"
proof -
  have live: "indexed_of pe \<in> set (live_of j)" using assms by (auto simp: journal_inv_def)
  have "covers_from hash disk (j_generation j) (j_ringLength j) (slot_tail (j_header j)) (j_written j) (set (live_of j))"
    using assms(1) by (simp add: journal_inv_def)
  moreover have "j_tail j \<le> indexed_position (indexed_of pe)"
    using tail_ok_tail_le [OF _ _ live] assms(1) by (simp add: journal_inv_def)
  ultimately show ?thesis using covers_from_member [OF _ live] by (fastforce simp: indexed_of_def)
qed

text \<open>A disk that keeps the slots and what is between the tail hint and \<open>written\<close>.\<close>

lemma journal_inv_disk:
  assumes inv: "journal_inv hash j disk owed" and len: "length disk' = length disk"
    and same: "same_ring ringOffset (j_ringLength j) disk disk' (slot_tail (j_header j)) (j_written j)"
    and cur: "slot_at hash disk' (j_current j) = slot_at hash disk (j_current j)"
    and other: "slot_at hash disk' (1 - j_current j) = slot_at hash disk (1 - j_current j)
      \<or> slot_at hash disk' (1 - j_current j) = Inl [NoSlot]
      \<or> (\<exists>s. slot_at hash disk' (1 - j_current j) = Inr s \<and> slot_counter (j_header j) < slot_counter s
            \<and> own_header j s \<and> covers_from hash disk (j_generation j) (j_ringLength j) (slot_tail s)
                (j_written j) (set (live_of j)))"
  shows "journal_inv hash j disk' owed"
proof -
  note ring = conjunct1 [OF conjunct2 [OF inv_ring [OF inv]]] conjunct1 [OF inv_ring [OF inv]]
  have covers: "covers_from hash disk' (j_generation j) (j_ringLength j) t (j_written j) (set (live_of j))"
    if "covers_from hash disk (j_generation j) (j_ringLength j) t (j_written j) (set (live_of j))"
      "slot_tail (j_header j) \<le> t" for t
    using covers_from_same [OF that(1) same_ring_sub [OF same that(2) order_refl] ring(1) len ring(2)] .
  have "owed_on hash (j_generation j) (j_ringLength j) disk' owed"
    using inv_live_owed [OF inv] inv by (intro owed_on_same [OF _ same _ ring(1) len ring(2)]) (auto simp: journal_inv_def)
  moreover have "slots_ok hash j disk'"
    unfolding slots_ok_def
  proof (intro conjI allI impI)
    have ok: "slots_ok hash j disk" using inv by (simp add: journal_inv_def)
    show "j_current j < 2" "own_header j (j_header j)" "slot_at hash disk' (j_current j) = Inr (j_header j)"
      using ok cur by (simp_all add: slots_ok_def)
    fix err assume "slot_at hash disk' (1 - j_current j) = Inl err"
    then show "err = [NoSlot]" using ok other by (auto simp: slots_ok_def)
  next
    have ok: "slots_ok hash j disk" using inv by (simp add: journal_inv_def)
    fix s assume s: "slot_at hash disk' (1 - j_current j) = Inr s"
    then have "slot_counter s < slot_counter (j_header j)
        \<or> slot_counter (j_header j) < slot_counter s \<and> own_header j s
          \<and> covers_from hash disk (j_generation j) (j_ringLength j) (slot_tail s) (j_written j) (set (live_of j))"
      using ok other unfolding slots_ok_def by (metis (no_types, lifting) Inr_inject Inr_not_Inl)
    then show "slot_counter s < slot_counter (j_header j)
        \<or> slot_counter (j_header j) < slot_counter s \<and> own_header j s
          \<and> covers_from hash disk' (j_generation j) (j_ringLength j) (slot_tail s) (j_written j) (set (live_of j))"
      using covers by (auto simp: own_header_def)
  qed
  ultimately show ?thesis using inv covers len by (simp add: journal_inv_def)
qed

lemma inv_torn_ring:
  assumes inv: "journal_inv hash j disk owed" and torn: "torn_ring j disk disk'"
  shows "journal_inv hash j disk' owed"
proof (rule journal_inv_disk [OF inv])
  note ring = inv_ring [OF inv]
  show "length disk' = length disk" using torn by (simp add: torn_ring_def)
  show "slot_at hash disk' (j_current j) = slot_at hash disk (j_current j)"
    using ring inv by (intro torn_ring_slots [OF torn]) (auto simp: journal_inv_defs)
  show "slot_at hash disk' (1 - j_current j) = slot_at hash disk (1 - j_current j)
      \<or> slot_at hash disk' (1 - j_current j) = Inl [NoSlot]
      \<or> (\<exists>s. slot_at hash disk' (1 - j_current j) = Inr s \<and> slot_counter (j_header j) < slot_counter s
            \<and> own_header j s \<and> covers_from hash disk (j_generation j) (j_ringLength j) (slot_tail s)
                (j_written j) (set (live_of j)))"
    using ring by (intro disjI1 torn_ring_slots [OF torn]) auto
  show "same_ring ringOffset (j_ringLength j) disk disk' (slot_tail (j_header j)) (j_written j)"
  proof (cases "j_written j < j_next j")
    case True
    then show ?thesis using inv ring by (intro torn_ring_same [OF torn]) (auto simp: journal_inv_def)
  next
    case False
    then have "same_ring_bytes_of disk disk'"
      using torn by (auto simp: same_ring_bytes_of_def torn_ring_def written_at_def)
    then show ?thesis using ring by (intro same_ring_same) auto
  qed
qed

text \<open>Whatever a crash leaves, the disk can be read back.\<close>

lemma inv_header_serves:
  assumes inv: "journal_inv hash j disk owed" and s: "own_header j s"
    and covers: "covers_from hash disk (j_generation j) (j_ringLength j) (slot_tail s) (j_written j) (set (live_of j))"
  shows "serves hash s disk owed"
  using assms covers_from_sub [OF covers, of "indexed_of ` set owed"]
  by (auto simp: serves_def header_fits_def journal_inv_def own_header_def)

lemma inv_readHeader:
  assumes inv: "journal_inv hash j disk owed"
  obtains s i where "readHeader hash disk = Inr (s, i)" "own_header j s"
    "covers_from hash disk (j_generation j) (j_ringLength j) (slot_tail s) (j_written j) (set (live_of j))"
proof -
  note ring = inv_ring [OF inv]
  have slots: "slots_ok hash j disk" and cur: "j_current j < 2" "1 - (1 - j_current j) = j_current j"
    using inv by (auto simp: journal_inv_defs)
  show ?thesis
  proof (cases "\<exists>s. slot_at hash disk (1 - j_current j) = Inr s \<and> slot_counter (j_header j) < slot_counter s")
    case True
    then obtain s where s: "slot_at hash disk (1 - j_current j) = Inr s" "slot_counter (j_header j) < slot_counter s"
      by blast
    then have "readHeader hash disk = Inr (s, 1 - j_current j)"
      using slots ring cur by (intro readHeader_two) (auto simp: slots_ok_def)
    then show ?thesis using s slots that by (auto simp: slots_ok_def)
  next
    case False
    then have "readHeader hash disk = Inr (j_header j, j_current j)"
      using slots ring cur
      by (intro readHeader_two; cases "slot_at hash disk (1 - j_current j)") (auto simp: slots_ok_def)
    then show ?thesis using inv that by (auto simp: journal_inv_defs)
  qed
qed

lemma inv_recoverable:
  assumes inv: "journal_inv hash j disk owed" and torn: "torn_slot hash (1 - j_current j) None disk disk'"
  shows "recoverable hash disk' owed"
proof -
  note ring = inv_ring [OF inv]
  have cur: "j_current j < 2" "1 - (1 - j_current j) = j_current j"
    using inv by (auto simp: journal_inv_defs)
  note keep = torn_slot_other [OF torn, unfolded cur(2)]
  have same: "same_ring ringOffset (j_ringLength j) disk disk' p q" for p q
    using keep(2) ring by (intro same_ring_same) auto
  have inv': "journal_inv hash j disk' owed"
    using torn keep ring cur by (intro journal_inv_disk [OF inv _ same]) (auto simp: torn_slot_def)
  obtain s i where s: "readHeader hash disk' = Inr (s, i)" "own_header j s"
    "covers_from hash disk' (j_generation j) (j_ringLength j) (slot_tail s) (j_written j) (set (live_of j))"
    by (rule inv_readHeader [OF inv'])
  have "serves hash s disk' owed" by (rule inv_header_serves [OF inv' s(2,3)])
  moreover have "ringOffset + minRingSize \<le> length disk'" "length disk' < 2 ^ 63"
    using inv' by (auto simp: journal_inv_def ring_ok_def)
  ultimately show ?thesis using s(1) by (simp add: recoverable_def)
qed

end
