(* ===== verification/Journal_Keep.thy ===== *)
theory Journal_Keep
  imports Journal_Inv
begin

text \<open>
  Each operation of the journal keeps \<open>journal_inv\<close>: header writes, trims, fences, batches,
  and \<^verbatim>\<open>Open\<close>, which restores it from what a crash left.
\<close>

section \<open>Header writes\<close>

definition tail_slot :: "journal \<Rightarrow> bool \<Rightarrow> slot" where
  "tail_slot j e = next_slot j ((j_header j)\<lparr> slot_tail := j_tail j, slot_empty := e \<rparr>)"

lemma chain_dvd:
  "chain hash disk g S L p hs q \<Longrightarrow> 8 dvd p \<Longrightarrow> 8 dvd q \<and> (\<forall>h \<in> set hs. 8 dvd head_position h)"
proof (induction hs arbitrary: p)
  case (Cons h hs)
  then have "8 dvd head_length h" "head_position h = p" using entry_at_length by fastforce+
  then show ?case using Cons.IH [of "p + head_length h"] Cons.prems by simp
qed simp

lemma covers_from_dvd:
  assumes "covers_from hash disk g L t q es" "8 dvd t"
  shows "8 dvd q \<and> (\<forall>e \<in> es. 8 dvd indexed_position e)"
proof -
  obtain hs where hs: "chain hash disk g ringOffset L t hs q" "es \<subseteq> set (chain_index disk ringOffset L t hs)"
    using assms(1) unfolding covers_from_def by blast
  have "8 dvd indexed_position e" if "e \<in> es" for e
    using chain_index_member [OF hs(1), of e] hs(2) that chain_dvd assms(2) by blast
  then show ?thesis using chain_dvd [OF hs(1) assms(2)] by blast
qed

lemma tail_cases:
  assumes "tail_ok j"
  shows "j_tail j = j_written j \<and> live_of j = [] \<or> (\<exists>e \<in> set (live_of j). indexed_position e = j_tail j)"
  using assms by (cases "live_of j") (auto simp: tail_ok_def)

lemma inv_tail:
  assumes inv: "journal_inv hash j disk owed"
  shows "8 dvd j_tail j" "slot_tail (j_header j) \<le> j_tail j" "j_tail j \<le> j_written j" "j_written j \<le> j_next j"
    "covers_from hash disk (j_generation j) (j_ringLength j) (j_tail j) (j_written j) (set (live_of j))"
proof -
  have covers: "covers_from hash disk (j_generation j) (j_ringLength j) (slot_tail (j_header j)) (j_written j)
      (set (live_of j))" and tail: "tail_ok j" "index_ok j" and h: "8 dvd slot_tail (j_header j)"
    using inv by (simp_all add: journal_inv_defs)
  note cases = tail_cases [OF tail(1)] covers_from_dvd [OF covers h]
  show "8 dvd j_tail j" using cases by auto
  show "slot_tail (j_header j) \<le> j_tail j" using inv by (simp add: journal_inv_defs)
  show "j_tail j \<le> j_written j" using cases(1) covers_from_member(2) [OF covers] by fastforce
  show "j_written j \<le> j_next j" using inv by (auto simp: journal_inv_def cursor_ok_def)
  show "covers_from hash disk (j_generation j) (j_ringLength j) (j_tail j) (j_written j) (set (live_of j))"
    using cases(1) tail_ok_tail_le [OF tail] by (intro covers_from_tail [OF covers]) auto
qed

lemma inv_tail_slot:
  assumes inv: "journal_inv hash j disk owed"
  shows "own_header j (tail_slot j e)" "slot_wf (tail_slot j e)" "slot_tail (tail_slot j e) = j_tail j"
proof -
  have "slot_wf (j_header j)" "j_next j < 2 ^ 64" using inv by (auto simp: journal_inv_defs dest: slot_at_wf)
  then show "own_header j (tail_slot j e)" "slot_wf (tail_slot j e)" "slot_tail (tail_slot j e) = j_tail j"
    using inv_tail [OF inv] inv
    by (auto simp: journal_inv_defs tail_slot_def next_slot_def slot_wf_def)
qed

lemma inv_header_fails:
  assumes inv: "journal_inv hash j disk owed" and torn: "torn_slot hash (1 - j_current j) (Some (tail_slot j e)) disk disk'"
    and counter: "slot_counter (j_header j) < slot_counter (j_header j) + 1"
  shows "journal_inv hash j disk' owed"
proof -
  note ring = inv_ring [OF inv]
  have cur: "j_current j < 2" "1 - (1 - j_current j) = j_current j"
    using inv by (auto simp: journal_inv_defs)
  note keep = torn_slot_other [OF torn, unfolded cur(2)]
  have same: "same_ring ringOffset (j_ringLength j) disk disk' p q" for p q
    using keep(2) ring by (intro same_ring_same) auto
  have "slot_counter (tail_slot j e) = slot_counter (j_header j) + 1" by (simp add: tail_slot_def next_slot_def)
  then show ?thesis
    using torn keep(1) ring cur counter inv_tail(5) [OF inv] inv_tail_slot [OF inv, of e]
    by (intro journal_inv_disk [OF inv _ same]) (auto simp: torn_slot_def)
qed

lemma inv_header_written:
  assumes inv: "journal_inv hash j disk owed"
    and w: "writeSlot hash j disk ((j_header j)\<lparr> slot_tail := j_tail j, slot_empty := e \<rparr>) None = Inr (j', disk')"
    and counter: "slot_counter (j_header j) < slot_counter (j_header j) + 1"
  shows "journal_inv hash j' disk' owed"
proof -
  note ring = inv_ring [OF inv] and slot = inv_tail_slot [OF inv, of e] and tail = inv_tail [OF inv]
  have cur: "j_current j < 2" "1 - (1 - j_current j) = j_current j" "1 - j_current j < 2"
    using inv by (auto simp: journal_inv_defs)
  have j': "j' = j\<lparr> j_header := tail_slot j e, j_current := 1 - j_current j \<rparr>"
    and disk': "disk' = write_at ((1 - j_current j) * slotBytes) (encodeSlot hash (tail_slot j e)) disk"
    using w by (auto simp: writeSlot_def tail_slot_def Let_def)
  note written = slot_write [OF cur(3) _ slot(2) disk', unfolded cur(2)]
  have len: "length disk' = length disk" using written(3) ring by (auto simp: same_ring_bytes_of_def)
  have same: "same_ring ringOffset (j_ringLength j) disk disk' p q" for p q
    using written(3) ring by (intro same_ring_same) auto
  have covers: "covers_from hash disk' (j_generation j) (j_ringLength j) (j_tail j) (j_written j) (set (live_of j))"
    using covers_from_same [OF tail(5) same] ring len by auto
  have "slots_ok hash j' disk'"
  proof -
    have "slot_at hash disk (j_current j) = Inr (j_header j)" using inv by (simp add: journal_inv_defs)
    moreover have "slot_counter (j_header j) < slot_counter (tail_slot j e)"
      using counter by (simp add: tail_slot_def next_slot_def)
    moreover have "own_header j' (tail_slot j e)" using slot(1,3) by (simp add: own_header_def j')
    ultimately show ?thesis
      using written(1,2) ring cur unfolding slots_ok_def by (simp add: j')
  qed
  moreover have "owed_on hash (j_generation j) (j_ringLength j) disk' owed"
    using inv_live_owed [OF inv] inv ring len
    by (intro owed_on_same [OF _ same [of "slot_tail (j_header j)" "j_written j"]]) (auto simp: journal_inv_def)
  moreover have "index_ok j' = index_ok j" "tail_ok j' = tail_ok j" "cursor_ok j' = cursor_ok j" "live_of j' = live_of j"
    by (simp_all add: j' index_ok_def tail_ok_def cursor_ok_def live_of_def split: list.split)
  moreover have "j_written j < j_next j \<longrightarrow> j_next j \<le> j_tail j + j_ringLength j"
    using inv tail(2) by (auto simp: journal_inv_def)
  ultimately show ?thesis
    using inv covers len slot(3) unfolding journal_inv_def by (simp add: j')
qed

section \<open>Trims\<close>

definition trim_owed :: "string \<Rightarrow> (u64 \<times> nat) list \<Rightarrow> (nat \<times> Entry) list \<Rightarrow> (nat \<times> Entry) list" where
  "trim_owed vm covered owed = filter (\<lambda>pe. \<not> trims vm covered (indexed_of pe)) owed"

lemma slots_ok_weaken:
  assumes ok: "slots_ok hash j disk" and same: "j_current j' = j_current j" "j_header j' = j_header j"
    "\<And>i. i < 2 \<Longrightarrow> slot_at hash disk' i = slot_at hash disk i"
    and own: "\<And>s. own_header j s \<Longrightarrow> own_header j' s"
    and covers: "\<And>s. own_header j s \<Longrightarrow>
      covers_from hash disk (j_generation j) (j_ringLength j) (slot_tail s) (j_written j) (set (live_of j)) \<Longrightarrow>
      covers_from hash disk' (j_generation j') (j_ringLength j') (slot_tail s) (j_written j') (set (live_of j'))"
  shows "slots_ok hash j' disk'"
proof -
  have slots: "slot_at hash disk' (j_current j) = slot_at hash disk (j_current j)"
    "slot_at hash disk' (1 - j_current j) = slot_at hash disk (1 - j_current j)"
    by (rule same(3), use ok in \<open>simp add: slots_ok_def\<close>)+
  show ?thesis unfolding slots_ok_def same(1,2) slots
  proof (intro conjI allI impI)
    fix s assume "slot_at hash disk (1 - j_current j) = Inr s"
    then have "slot_counter s < slot_counter (j_header j)
        \<or> slot_counter (j_header j) < slot_counter s \<and> own_header j s
          \<and> covers_from hash disk (j_generation j) (j_ringLength j) (slot_tail s) (j_written j) (set (live_of j))"
      using ok unfolding slots_ok_def by blast
    then show "slot_counter s < slot_counter (j_header j)
        \<or> slot_counter (j_header j) < slot_counter s \<and> own_header j' s
          \<and> covers_from hash disk' (j_generation j') (j_ringLength j') (slot_tail s) (j_written j') (set (live_of j'))"
      using own covers by blast
  qed (use ok own in \<open>auto simp: slots_ok_def\<close>)
qed

lemma inv_trim:
  assumes inv: "journal_inv hash j disk owed"
  shows "journal_inv hash (Trim j vm covered) disk (trim_owed vm covered owed)"
proof -
  have ok: "index_ok j" "tail_ok j" "\<forall>e \<in> set (j_live j). indexed_position e < j_written j"
    using inv by (simp_all add: journal_inv_def)
  let ?j = "Trim j vm covered"
  have live: "set (live_of ?j) \<subseteq> set (live_of j)" using live_of_Trim [OF ok(1)] by auto
  have "\<forall>e \<in> set (live_of j). indexed_position e < j_written j" using ok(3) by (simp add: live_of_def)
  then have mono: "j_tail j \<le> j_tail ?j" using Trim_tail_mono [OF ok(2,1)] by blast
  obtain ds where "map indexed_position (j_live j) = ds @ map indexed_position (j_live ?j)"
    using Trim_live_sub by blast
  then have "set (map indexed_position (j_live ?j)) \<subseteq> set (map indexed_position (j_live j))" by simp
  then have past: "\<forall>e \<in> set (j_live ?j). indexed_position e < j_written j" using ok(3) by fastforce
  have own: "own_header ?j s" if "own_header j s" for s using that mono by (auto simp: own_header_def)
  have covers: "covers_from hash disk g L t q (set (live_of ?j))" if "covers_from hash disk g L t q (set (live_of j))"
    for g L t q using covers_from_sub [OF that live] .
  have "indexed_of ` set (trim_owed vm covered owed) \<subseteq> set (live_of ?j)"
    using inv by (auto simp: trim_owed_def live_of_Trim [OF ok(1)] journal_inv_def)
  moreover have "owed_on hash (j_generation j) (j_ringLength j) disk (trim_owed vm covered owed)"
    using inv by (auto simp: journal_inv_def owed_on_def trim_owed_def)
  moreover have "cursor_ok ?j" using inv by (simp add: journal_inv_def cursor_ok_def)
  moreover have "slots_ok hash ?j disk"
  proof (rule slots_ok_weaken)
    show "slots_ok hash j disk" using inv by (simp add: journal_inv_def)
  qed (simp_all add: own covers)
  moreover have "covers_from hash disk (j_generation j) (j_ringLength j) (slot_tail (j_header j)) (j_written j)
      (set (live_of ?j))" using inv by (intro covers) (simp add: journal_inv_def)
  ultimately show ?thesis
    using inv past index_ok_Trim [OF ok(1)] unfolding journal_inv_def by simp
qed

section \<open>Batches\<close>

definition rooms :: "commit list \<Rightarrow> nat" where
  "rooms cs = (\<Sum>c\<leftarrow>cs. commit_room c)"

definition largest :: "commit list \<Rightarrow> nat" where
  "largest cs = foldr (\<lambda>c m. max (commit_room c) m) cs 0"

lemma rooms_simps [simp]: "rooms [] = 0" "rooms (c # cs) = commit_room c + rooms cs"
  "largest [] = 0" "largest (c # cs) = max (commit_room c) (largest cs)"
  by (simp_all add: rooms_def largest_def)

text \<open>The commits of a batch fit before the durable tail.\<close>

lemma fitting_from_fits:
  "\<exists>k. fitting_from j r l n queue = n + k \<and> k \<le> length queue
    \<and> (0 < k \<longrightarrow> j_next j + reserve (r + rooms (take k queue)) (max l (largest (take k queue)))
         \<le> slot_tail (j_header j) + j_ringLength j)"
proof (induction queue arbitrary: r l n)
  case (Cons c queue)
  show ?case
  proof (cases "n > 0 \<and> r + commit_room c > MaxBatchBytes
      \<or> j_next j + reserve (r + commit_room c) (max l (commit_room c)) > slot_tail (j_header j) + j_ringLength j")
    case True
    then show ?thesis by (intro exI [of _ 0]) auto
  next
    case False
    then have one: "j_next j + reserve (r + commit_room c) (max l (commit_room c)) \<le> slot_tail (j_header j) + j_ringLength j"
      by simp
    obtain k where k: "fitting_from j (r + commit_room c) (max l (commit_room c)) (n + 1) queue = n + 1 + k"
      "k \<le> length queue"
      "0 < k \<longrightarrow> j_next j + reserve (r + commit_room c + rooms (take k queue))
         (max (max l (commit_room c)) (largest (take k queue))) \<le> slot_tail (j_header j) + j_ringLength j"
      using Cons.IH by blast
    have "fitting_from j r l n (c # queue) = n + Suc k" using False k(1) by auto
    moreover have "j_next j + reserve (r + rooms (take (Suc k) (c # queue))) (max l (largest (take (Suc k) (c # queue))))
        \<le> slot_tail (j_header j) + j_ringLength j"
      using k(3) one by (cases "k = 0") (simp_all add: add.assoc max.assoc)
    ultimately show ?thesis using k(2) by (intro exI [of _ "Suc k"]) simp
  qed
qed simp

lemma fitting_fits:
  assumes "0 < fitting j"
  shows "j_next j + reserve (rooms (take (fitting j) (j_queue j))) (largest (take (fitting j) (j_queue j)))
    \<le> slot_tail (j_header j) + j_ringLength j"
  using assms fitting_from_fits [of j 0 0 0 "j_queue j"] unfolding fitting_def by auto

lemma check_all_ok:
  "check_all es = Inr n \<Longrightarrow> n = sizes es \<and> (\<forall>e \<in> set es. entry_check e = Inr ())"
  by (induction es arbitrary: n) (auto split: sum.splits)

lemma size_le_sizes: "e \<in> set es \<Longrightarrow> entry_size e \<le> sizes es"
  by (induction es) auto

lemma capture_captured: "captured_ok (commit_room c) (capture c made) \<and> captured_size (capture c made) \<le> commit_room c"
proof (cases "capture c made")
  case (Inr es)
  then obtain n where n: "check_all es = Inr n" "n \<le> commit_room c"
    by (auto simp: capture_def split: sum.splits if_splits)
  then have "n = sizes es" "\<forall>e \<in> set es. entry_check e = Inr ()" using check_all_ok by blast+
  moreover from this have "entry_size e \<le> commit_room c" if "e \<in> set es" for e
    using size_le_sizes [OF that] n(2) by simp
  ultimately show ?thesis using Inr n(2) by (simp add: captured_ok_def captured_size_def)
qed (simp add: captured_ok_def captured_size_def)

lemma captured_ok_mono: "captured_ok m c \<Longrightarrow> m \<le> m' \<Longrightarrow> captured_ok m' c"
  by (auto simp: captured_ok_def split: sum.splits)

lemma captured_batch:
  "(\<Sum>c\<leftarrow>map2 capture cs made. captured_size c) \<le> rooms cs
   \<and> (\<forall>c \<in> set (map2 capture cs made). captured_ok (largest cs) c)"
proof (induction cs made rule: list_induct2')
  case (4 c cs m ms)
  have "captured_ok (max (commit_room c) (largest cs)) (capture c m)"
    using capture_captured [of c m] captured_ok_mono by fastforce
  moreover have "captured_ok (max (commit_room c) (largest cs)) d" if "d \<in> set (map2 capture cs ms)" for d
    using 4 that captured_ok_mono by fastforce
  ultimately show ?case using 4 capture_captured [of c m] by auto
qed simp_all

lemma reserve_mono: "r \<le> r' \<Longrightarrow> reserve r m \<le> reserve r' m"
  by (simp add: reserve_def)

definition positions_left :: "journal \<Rightarrow> bool" where
  "positions_left j \<longleftrightarrow> slot_tail (j_header j) + j_ringLength j + ringOffset \<le> 2 ^ 64"

definition flight_ok :: "(bytes \<Rightarrow> identity) \<Rightarrow> journal \<Rightarrow> placement \<Rightarrow> (nat \<times> Entry) list \<Rightarrow> bool" where
  "flight_ok hash j p puts \<longleftrightarrow> place_start p = j_written j
     \<and> (if place_image p = [] then puts = [] \<and> place_entries p = []
        else j_next j = place_end p \<and> BlockBytes dvd place_end p
          \<and> place_end p \<le> slot_tail (j_header j) + j_ringLength j
          \<and> (\<exists>hs. laid hash (j_generation j) (j_ringLength j) (j_written j) hs puts
                 \<lparr> lay_image = place_image p, lay_position = place_end p, lay_entries = place_entries p \<rparr>))"

lemma nextBatch_cases:
  assumes "nextBatch j now = (j1, Batch cs)"
  obtains "0 < fitting j" "j1 = j\<lparr> j_queue := drop (fitting j) (j_queue j) \<rparr>" "cs = take (fitting j) (j_queue j)"
  | "j1 = j" "cs = []" "j_written j < j_next j"
proof -
  have "0 < fitting j \<and> j1 = j\<lparr> j_queue := drop (fitting j) (j_queue j) \<rparr> \<and> cs = take (fitting j) (j_queue j)
      \<or> j1 = j \<and> cs = [] \<and> j_written j < j_next j"
    using assms unfolding nextBatch_def Let_def by (simp split: option.splits if_splits)
  then show ?thesis using that by blast
qed

text \<open>What the layout of a batch needs holds of every batch the writer forms.\<close>

lemma batch_fits:
  assumes inv: "journal_inv hash j disk owed" and left: "positions_left j"
    and batch: "nextBatch j now = (j1, Batch cs)"
    and T_def: "T = (\<Sum>c\<leftarrow>map2 capture cs made. captured_size c)"
  shows "reserve T (largest cs) \<le> j_ringLength j" "j_next j + reserve T (largest cs) \<le> 2 ^ 64"
    "cs \<noteq> [] \<Longrightarrow> j_next j + reserve T (largest cs) \<le> slot_tail (j_header j) + j_ringLength j"
proof -
  have T: "T \<le> rooms cs" using captured_batch [of cs made] by (simp add: T_def)
  have tail: "slot_tail (j_header j) \<le> j_next j" using inv_tail [OF inv] by linarith
  have L: "minRingSize \<le> j_ringLength j" using inv by (simp add: journal_inv_def ring_ok_def)
  from batch show "reserve T (largest cs) \<le> j_ringLength j" "j_next j + reserve T (largest cs) \<le> 2 ^ 64"
    "cs \<noteq> [] \<Longrightarrow> j_next j + reserve T (largest cs) \<le> slot_tail (j_header j) + j_ringLength j"
  proof (atomize (full), cases rule: nextBatch_cases)
    case 1
    then have "j_next j + reserve T (largest cs) \<le> slot_tail (j_header j) + j_ringLength j"
      using fitting_fits [of j] reserve_mono [OF T, of "largest cs"] by simp
    then show "reserve T (largest cs) \<le> j_ringLength j \<and> j_next j + reserve T (largest cs) \<le> 2 ^ 64
        \<and> (cs \<noteq> [] \<longrightarrow> j_next j + reserve T (largest cs) \<le> slot_tail (j_header j) + j_ringLength j)"
      using tail left by (auto simp: positions_left_def)
  next
    case 2
    then have "T = 0" "largest cs = 0" using T by simp_all
    moreover have "j_next j \<le> slot_tail (j_header j) + j_ringLength j" using inv 2(3) by (simp add: journal_inv_def)
    ultimately show "reserve T (largest cs) \<le> j_ringLength j \<and> j_next j + reserve T (largest cs) \<le> 2 ^ 64
        \<and> (cs \<noteq> [] \<longrightarrow> j_next j + reserve T (largest cs) \<le> slot_tail (j_header j) + j_ringLength j)"
      using left L 2(2) by (simp add: reserve_def positions_left_def)
  qed
qed

lemma inv_begin:
  assumes inv: "journal_inv hash j disk owed" and left: "positions_left j"
    and batch: "nextBatch j now = (j1, Batch cs)" "begin_batch hash j1 cs made = (j2, p, answers)"
  shows "journal_inv hash j2 disk owed" "flight_ok hash j2 p (accepted (map2 capture cs made) answers)"
proof -
  let ?captured = "map2 capture cs made" and ?T = "\<Sum>c\<leftarrow>map2 capture cs made. captured_size c"
  have j1: "j1 = j \<or> j1 = j\<lparr> j_queue := drop (fitting j) (j_queue j) \<rparr>"
    using batch(1) by (rule nextBatch_cases) simp_all
  then have inv1: "journal_inv hash j1 disk owed" using inv by auto
  have same: "j_next j1 = j_next j" "j_ringLength j1 = j_ringLength j" "j_header j1 = j_header j"
    "j_written j1 = j_written j" using j1 by auto
  note fits = batch_fits [OF inv left batch(1) refl, of made, folded same(1,2)]
  have ok: "ring_ok (j_ringLength j1)" "cursor_ok j1" using inv1 by (simp_all add: journal_inv_def)
  obtain q as where q0: "place hash j1 ?captured = (q, as)" "length as = length ?captured" and q1:
    "placed_ok hash j1 (j_next j1 + reserve ?T (largest cs)) q (accepted ?captured as)"
    "?captured = [] \<longrightarrow> place_image q \<noteq> [] \<longrightarrow> place_end q = j_next j1"
    by (rule place_ok [where hash = hash, OF ok conjunct2 [OF captured_batch, of cs made] fits(1,2)])
  note q = q0(1) q1
  have eqs: "q = p" "as = answers"
    "j2 = j1\<lparr> j_placed := j_placed j1 + 1, j_next := (if place_image p \<noteq> [] then place_end p else j_next j1) \<rparr>"
    using batch(2) q(1) by (auto simp: begin_batch_def)
  have placed: "BlockBytes dvd place_end p" "j_written j + 64 \<le> place_end p"
    "place_end p \<le> slot_tail (j_header j) + j_ringLength j" if "place_image p \<noteq> []"
  proof -
    show "BlockBytes dvd place_end p" and far: "j_written j + 64 \<le> place_end p"
      using q(2) that same unfolding eqs(1) by (simp_all add: placed_ok_def)
    have end_: "place_end p \<le> j_next j + reserve ?T (largest cs)"
      using q(2) that same unfolding eqs(1) by (simp add: placed_ok_def)
    show "place_end p \<le> slot_tail (j_header j) + j_ringLength j"
    proof (cases "?captured = []")
      case True
      then have "place_end p = j_next j" using q(3) that same unfolding eqs(1) by simp
      then show ?thesis using inv far by (simp add: journal_inv_def)
    next
      case False
      then have "cs \<noteq> []" by auto
      then show ?thesis using fits(3) end_ same by simp
    qed
  qed
  show "flight_ok hash j2 p (accepted ?captured answers)"
    using q(2) placed same unfolding eqs(1,2) by (auto simp: flight_ok_def placed_ok_def eqs(3))
  show "journal_inv hash j2 disk owed"
  proof (cases "place_image p = []")
    case True
    then show ?thesis using inv1 by (simp add: eqs(3))
  next
    case False
    let ?j = "j1\<lparr> j_next := place_end p \<rparr>"
    have "cursor_ok ?j" "index_ok ?j = index_ok j1" "tail_ok ?j = tail_ok j1" "live_of ?j = live_of j1"
      "slots_ok hash ?j disk = slots_ok hash j1 disk"
      using placed [OF False] ok(2) same
      by (simp_all add: cursor_ok_def index_ok_def tail_ok_def live_of_def slots_ok_def own_header_def split: list.split)
    moreover have "place_end p < 2 ^ 64" using placed(3) [OF False] left by (simp add: positions_left_def)
    ultimately have "journal_inv hash ?j disk owed"
      using inv1 placed(3) [OF False] same unfolding journal_inv_def by simp
    then show ?thesis using False unfolding eqs(3) by (subst journal_inv_cong [where j = ?j]) simp_all
  qed
qed

text \<open>Indexing a batch's entries.\<close>

lemma foldl_index_simps [simp]:
  "j_written (foldl index j es) = j_written j" "j_next (foldl index j es) = j_next j"
  "j_header (foldl index j es) = j_header j" "j_ringLength (foldl index j es) = j_ringLength j"
  "j_ringStart (foldl index j es) = j_ringStart j" "j_generation (foldl index j es) = j_generation j"
  "j_current (foldl index j es) = j_current j" "j_lease (foldl index j es) = j_lease j"
  "j_identity (foldl index j es) = j_identity j" "j_live (foldl index j es) = j_live j @ es"
  "j_fences (foldl index j es) = j_fences j" "j_failed (foldl index j es) = j_failed j"
  "j_closed (foldl index j es) = j_closed j" "j_queue (foldl index j es) = j_queue j"
  "j_placed (foldl index j es) = j_placed j" "j_completed (foldl index j es) = j_completed j"
  by (induction es arbitrary: j) (simp_all add: index_def)

lemma live_of_foldl_index:
  "\<forall>e \<in> set es. \<not> indexed_dead e \<Longrightarrow> live_of (foldl index j es) = live_of j @ es"
  by (simp add: live_of_def)

lemma index_ok_foldl:
  assumes "index_ok j" "\<forall>e \<in> set es. \<not> indexed_dead e" "sorted_wrt (<) (map indexed_position (j_live j @ es))"
  shows "index_ok (foldl index j es)"
  using assms
proof (induction es arbitrary: j)
  case (Cons e es)
  have "index_ok (index j e)"
    using Cons.prems by (intro index_ok_index) (auto simp: sorted_wrt_append)
  moreover have "sorted_wrt (<) (map indexed_position (j_live (index j e) @ es))"
    using Cons.prems(3) by (simp add: index_def)
  ultimately show ?case using Cons.IH [of "index j e"] Cons.prems(2) by simp
qed simp

lemma indexed_of_simps [simp]: "indexed_position (indexed_of pe) = fst pe" "\<not> indexed_dead (indexed_of pe)"
  "indexed_length (indexed_of pe) = entry_size (snd pe)" "indexed_vm (indexed_of pe) = entry_VM (snd pe)"
  "indexed_epoch (indexed_of pe) = entry_Epoch (snd pe)"
  by (simp_all add: indexed_of_def)

text \<open>Coverage grows by a batch that is on the disk.\<close>

lemma covers_from_append:
  assumes "covers_from hash disk g L t q es" "chain hash disk g ringOffset L q hs r" "r \<le> t + L"
    "es' \<subseteq> set (chain_index disk ringOffset L q hs)"
  shows "covers_from hash disk g L t r (es \<union> es')"
proof -
  obtain hs0 where hs0: "chain hash disk g ringOffset L t hs0 q" "\<forall>h \<in> set hs0. head_position h < t + L"
    "es \<subseteq> set (chain_index disk ringOffset L t hs0)" using assms(1) unfolding covers_from_def by blast
  have "head_position h < t + L" if "h \<in> set hs" for h
    using chain_heads [OF assms(2) that] assms(3) by linarith
  then show ?thesis unfolding covers_from_def
    using hs0 assms(2,4) chain_index_append [OF hs0(1), of hs]
    by (intro exI [of _ "hs0 @ hs"]) auto
qed

lemma image_at_write_image:
  assumes "S + L \<le> length disk" "length img \<le> L"
  shows "image_at S L (write_image S L disk p img) p img"
  using write_image_hit [OF assms] by (simp add: image_at_def)

lemma write_image_torn:
  assumes "j_ringStart j = ringOffset" "ringOffset + j_ringLength j \<le> length disk" "j_next j = j_written j + length img"
  shows "torn_ring j disk (write_image ringOffset (j_ringLength j) disk (j_written j) img)"
  using assms write_image_miss [OF assms(2)] by (simp add: torn_ring_def)

lemma inv_complete:
  assumes inv: "journal_inv hash j disk owed" and flight: "flight_ok hash j p puts" and img: "place_image p \<noteq> []"
    and disk': "disk' = write_image ringOffset (j_ringLength j) disk (j_written j) (place_image p)"
    and j': "j' = set_tail (foldl index (j\<lparr> j_written := place_end p \<rparr>) (place_entries p))"
  shows "journal_inv hash j' disk' (owed @ puts)"
proof -
  let ?L = "j_ringLength j" and ?g = "j_generation j" and ?t = "slot_tail (j_header j)"
  note ring = inv_ring [OF inv] and tail = inv_tail [OF inv]
  obtain hs where laid: "laid hash ?g ?L (j_written j) hs puts
      \<lparr> lay_image = place_image p, lay_position = place_end p, lay_entries = place_entries p \<rparr>"
    and p: "j_next j = place_end p" "BlockBytes dvd place_end p" "place_end p \<le> ?t + ?L"
    using flight img by (auto simp: flight_ok_def)
  have len: "place_end p = j_written j + length (place_image p)" "length (place_image p) \<le> ?L"
    using laid p(3) tail by (auto simp: laid_def)
  have "torn_ring j disk disk'"
    using len p ring inv unfolding disk' by (intro write_image_torn) (auto simp: journal_inv_def)
  then have inv': "journal_inv hash j disk' owed" by (rule inv_torn_ring [OF inv])
  have len': "length disk' = length disk" using ring by (simp add: disk')
  have "image_at ringOffset ?L disk' (j_written j) (place_image p)"
    unfolding disk' using ring len(2) by (intro image_at_write_image) auto
  then have on: "chain hash disk' ?g ringOffset ?L (j_written j) hs (place_end p)"
    "chain_index disk' ringOffset ?L (j_written j) hs = place_entries p"
    "\<forall>pe \<in> set puts. stands hash ?g ringOffset ?L disk' pe"
    using laid ring len' unfolding laid_def by auto
  have entries: "place_entries p = map indexed_of puts" using laid by (simp add: laid_def)
  have live: "live_of j' = live_of j @ place_entries p"
    unfolding j' by (simp add: live_of_foldl_index entries) (simp add: live_of_def)
  have more: "covers_from hash disk' ?g ?L t (place_end p) (set (live_of j'))"
    if "covers_from hash disk' ?g ?L t (j_written j) (set (live_of j))" "?t \<le> t" for t
    unfolding live set_append using that p(3) on(2)
    by (intro covers_from_append [OF that(1) on(1)]) auto
  have fields: "j_written j' = place_end p" "j_next j' = place_end p" "j_header j' = j_header j"
    "j_current j' = j_current j" "j_ringLength j' = ?L" "j_ringStart j' = j_ringStart j" "j_generation j' = ?g"
    "j_lease j' = j_lease j" "j_identity j' = j_identity j" "tail_ok j'" using p(1) by (simp_all add: j')
  have place: "j_written j \<le> fst pe \<and> fst pe < place_end p" if "pe \<in> set puts" for pe
    using laid that entry_size_min [of "snd pe"] by (fastforce simp: laid_def)
  have old: "\<forall>e \<in> set (j_live j). indexed_position e < j_written j" "index_ok j" "tail_ok j"
    using inv by (simp_all add: journal_inv_def)
  have "index_ok (foldl index (j\<lparr> j_written := place_end p \<rparr>) (place_entries p))"
  proof (rule index_ok_foldl)
    show "sorted_wrt (<) (map indexed_position (j_live (j\<lparr> j_written := place_end p \<rparr>) @ place_entries p))"
      using old place laid by (fastforce simp: entries sorted_wrt_append index_ok_def laid_def comp_def)
  qed (use old(2) in \<open>simp_all add: entries index_ok_def live_of_def\<close>)
  then have index: "index_ok j'" unfolding j' by (rule index_ok_set_tail)
  obtain ds where "j_live j @ place_entries p = ds @ j_live j'"
    using set_tail_live [of "foldl index (j\<lparr> j_written := place_end p \<rparr>) (place_entries p)"] unfolding j' by auto
  then have "set (j_live j') \<subseteq> set (j_live j) \<union> set (place_entries p)" by (metis set_append sup_ge2)
  then have past: "\<forall>e \<in> set (j_live j'). indexed_position e < place_end p"
    using old(1) place len(1) by (fastforce simp: entries)
  have tails: "j_tail j \<le> j_tail j'"
  proof (cases "live_of j")
    case Nil
    then have "j_tail j = j_written j" using old(3) by (simp add: tail_ok_def)
    moreover have "j_written j \<le> j_tail j'"
      using tail_cases [OF fields(10)] fields(1) len(1) live Nil place by (auto simp: entries)
    ultimately show ?thesis by simp
  next
    case (Cons e es)
    then show ?thesis using old(3) fields(10) live by (simp add: tail_ok_def)
  qed
  have "slots_ok hash j' disk'"
  proof (rule slots_ok_weaken)
    show "slots_ok hash j disk'" using inv' by (simp add: journal_inv_def)
  qed (use fields tails more in \<open>auto simp: own_header_def\<close>)
  moreover have "covers_from hash disk' ?g ?L ?t (place_end p) (set (live_of j'))"
    using inv' by (intro more) (simp_all add: journal_inv_def)
  moreover have "cursor_ok j'"
    using fields p(2) inv by (simp add: cursor_ok_def block_position_good journal_inv_def)
  moreover have "indexed_of ` set (owed @ puts) \<subseteq> set (live_of j')"
    using inv live by (auto simp: entries journal_inv_def)
  moreover have "owed_on hash ?g ?L disk' (owed @ puts)"
    using inv' on(3) by (auto simp: owed_on_def journal_inv_def)
  ultimately show ?thesis using inv' fields index past p(1) unfolding journal_inv_def by simp
qed

end
