(* ===== verification/Journal_Recover.thy ===== *)
theory Journal_Recover
  imports Journal_Keep
begin

text \<open>
  Opening a disk a crash left restores the invariant, with every entry that was owed; and a
  read serves every live entry whole.
\<close>

section \<open>Opening\<close>

lemma plus_one_less: "x + 1 \<noteq> 0 \<Longrightarrow> x < (x + 1 :: 'a::len word)"
proof -
  assume "x + 1 \<noteq> 0"
  then have "x \<noteq> - 1" by auto
  then show ?thesis using less_plus_one word_order.not_eq_extremum by blast
qed

lemma chain_index_sorted:
  "chain hash disk g S L p hs q \<Longrightarrow> sorted_wrt (<) (map indexed_position (chain_index disk S L p hs))
     \<and> (\<forall>e \<in> set (chain_index disk S L p hs). \<not> indexed_dead e)"
proof (induction hs arbitrary: p)
  case (Cons h hs)
  then have rest: "chain hash disk g S L (p + head_length h) hs q" and h: "64 \<le> head_length h"
    using entry_at_length by fastforce+
  have "p < indexed_position e" if "e \<in> set (chain_index disk S L (p + head_length h) hs)" for e
    using chain_index_member [OF rest that] h by linarith
  then show ?case using Cons.IH [OF rest] by (auto simp: sorted_wrt_append index_entry_def)
qed simp

lemma formatted_slot_ok:
  assumes "ringOffset + minRingSize \<le> length disk" "length disk < 2 ^ 63"
  shows "slot_wf (formatted_slot config entropy (length disk))"
    "serves hash (formatted_slot config entropy (length disk)) disk []"
proof -
  define len where "len = (length disk - ringOffset) div BlockBytes * BlockBytes"
  have len: "BlockBytes dvd len" "minRingSize \<le> len" "ringOffset + len \<le> length disk"
  proof -
    show "BlockBytes dvd len" by (simp add: len_def)
    have "minRingSize div BlockBytes \<le> (length disk - ringOffset) div BlockBytes"
      using assms(1) by (intro div_le_mono) simp
    then show "minRingSize \<le> len" by (simp add: len_def)
    have "len \<le> length disk - ringOffset" by (simp add: len_def)
    then show "ringOffset + len \<le> length disk" using assms(1) by simp
  qed
  have slot: "formatted_slot config entropy (length disk) = \<lparr> slot_empty = False, slot_counter = 0,
      slot_identity = config_Identity config, slot_generation = entropy, slot_ringStart = int ringOffset,
      slot_ringLength = int len, slot_tail = len, slot_lease = \<lparr> lease_assigned = 0, lease_member = 0 \<rparr> \<rparr>"
    by (simp add: formatted_slot_def Let_def len_def)
  show "slot_wf (formatted_slot config entropy (length disk))"
    using len assms(2) by (simp add: slot slot_wf_def)
  have "covers_from hash disk entropy len len len {}"
    unfolding covers_from_def by (intro exI [of _ "[]"]) simp
  then show "serves hash (formatted_slot config entropy (length disk)) disk []"
    using len dvd_8_4096 [OF len(1)] by (auto simp: serves_def header_fits_def ring_ok_def owed_on_def slot)
qed

definition takes :: "(bytes \<Rightarrow> identity) \<Rightarrow> disk \<Rightarrow> Config \<Rightarrow> slot \<Rightarrow> nat \<Rightarrow> bool" where
  "takes hash disk config found current \<longleftrightarrow> current < 2 \<and> slot_wf found
     \<and> slot_identity found = config_Identity config
     \<and> (slot_at hash disk current = Inr found \<or> slot_at hash disk current = Inl [NoSlot])
     \<and> (slot_at hash disk (1 - current) = Inl [NoSlot]
        \<or> (\<exists>s. slot_at hash disk (1 - current) = Inr s \<and> slot_counter s \<le> slot_counter found))"

lemma readHeader_none:
  assumes "readHeader hash disk = Inl [NoSlot]"
  shows "slot_at hash disk 0 = Inl [NoSlot]" "slot_at hash disk 1 = Inl [NoSlot]"
proof -
  have err: "slot_at hash disk k = Inl err \<Longrightarrow> err = [NoSlot] \<or> err = [Version]" for k err
    by (auto simp: slot_at_def decodeSlot_def split: if_splits)
  show "slot_at hash disk 0 = Inl [NoSlot]" "slot_at hash disk 1 = Inl [NoSlot]"
    using assms err by (auto simp: readHeader_def readFull_def Let_def split: sum.splits if_splits)
qed

lemma open_header_takes:
  assumes rec: "recoverable hash disk owed" and "open_header hash disk config entropy = Inr (found, current, f)"
  shows "takes hash disk config found current" "serves hash found disk owed"
proof -
  have len: "ringOffset + minRingSize \<le> length disk" "length disk < 2 ^ 63" using rec by (simp_all add: recoverable_def)
  have "takes hash disk config found current \<and> serves hash found disk owed"
  proof (cases "readHeader hash disk")
    case (Inl err)
    then have none: "err = [NoSlot]" "owed = []" using rec by (simp_all add: recoverable_def)
    then have "found = formatted_slot config entropy (length disk)" "current = 1"
      using assms(2) Inl len by (simp_all add: open_header_def Let_def)
    moreover have "slot_identity (formatted_slot config entropy (length disk)) = config_Identity config"
      by (simp add: formatted_slot_def Let_def)
    ultimately show ?thesis
      using formatted_slot_ok [OF len] readHeader_none [of hash disk] Inl none by (simp add: takes_def)
  next
    case (Inr si)
    then obtain s i where si: "readHeader hash disk = Inr (s, i)" by (cases si) auto
    then have "found = s" "current = i" "slot_identity s = config_Identity config"
      using assms(2) len by (auto simp: open_header_def Let_def split: if_splits)
    moreover have "serves hash s disk owed" using rec si by (simp add: recoverable_def)
    moreover have "slot_wf s" using readHeader_slot(2) [OF si] by (rule slot_at_wf)
    ultimately show ?thesis
      using readHeader_slot [OF si] by (simp add: takes_def)
  qed
  then show "takes hash disk config found current" "serves hash found disk owed" by simp_all
qed

text \<open>The slot \<^verbatim>\<open>Open\<close> writes to take the lease.\<close>

definition lease_slot :: "Config \<Rightarrow> slot \<Rightarrow> slot" where
  "lease_slot config found = found\<lparr> slot_empty := False, slot_counter := slot_counter found + 1,
     slot_lease := config_Lease config \<rparr>"

lemma serves_same:
  assumes "serves hash h disk owed" "same_ring_bytes_of disk disk'"
    "slot_generation h' = slot_generation h" "slot_ringStart h' = slot_ringStart h"
    "slot_ringLength h' = slot_ringLength h" "slot_tail h' = slot_tail h"
  shows "serves hash h' disk' owed"
proof -
  let ?L = "nat (slot_ringLength h)"
  have "ring_ok ?L" using assms(1) by (simp add: serves_def header_fits_def)
  from ring_ok_pos [OF this] have ring: "ringOffset + ?L \<le> length disk" "0 < ?L" "length disk' = length disk"
    using assms(1,2) by (auto simp: serves_def header_fits_def same_ring_bytes_of_def)
  have same: "same_ring ringOffset ?L disk disk' p q" for p q
    by (rule same_ring_same [OF assms(2) ring(1,2)])
  have "owed_on hash (slot_generation h) ?L disk' owed"
    using assms(1) stands_same [OF _ same ring(1,3,2)] by (auto simp: serves_def owed_on_def)
  moreover obtain q where "covers_from hash disk (slot_generation h) ?L (slot_tail h) q (indexed_of ` set owed)"
    using assms(1) unfolding serves_def by blast
  then have "covers_from hash disk' (slot_generation h) ?L (slot_tail h) q (indexed_of ` set owed)"
    by (rule covers_from_same [OF _ same ring(1,3,2)])
  ultimately show ?thesis
    using assms ring(3) unfolding serves_def header_fits_def by auto
qed

lemma Open_Inr:
  assumes "journal_Open hash disk config entropy now fault = Inr (j, disk')"
  obtains found current f where "open_header hash disk config entropy = Inr (found, current, f)"
    "disk' = write_at ((1 - current) * slotBytes) (encodeSlot hash (lease_slot config found)) disk"
    "readBack hash ((new_journal config found current f now)\<lparr> j_header := lease_slot config found,
        j_current := 1 - current \<rparr>) disk' = Inr j" "fault = None"
  using assms unfolding journal_Open_def writeSlot_def next_slot_def new_journal_def lease_slot_def Let_def
  by (auto split: sum.splits option.splits)

lemma lease_slot_written:
  assumes "takes hash disk config found current" "ringOffset \<le> length disk"
    and disk': "disk' = write_at ((1 - current) * slotBytes) (encodeSlot hash (lease_slot config found)) disk"
  shows "slot_at hash disk' (1 - current) = Inr (lease_slot config found)"
    "slot_at hash disk' current = slot_at hash disk current" "same_ring_bytes_of disk disk'"
proof -
  have at: "1 - current < 2" "1 - (1 - current) = current" using assms(1) by (auto simp: takes_def)
  have "slot_wf (lease_slot config found)" using assms(1) by (simp add: takes_def lease_slot_def slot_wf_def)
  from slot_write [OF at(1) assms(2) this disk', unfolded at(2)]
  show "slot_at hash disk' (1 - current) = Inr (lease_slot config found)"
    "slot_at hash disk' current = slot_at hash disk current" "same_ring_bytes_of disk disk'" by simp_all
qed

text \<open>What reading back makes of a journal: the chain from the tail hint, to the position it
  ends at.\<close>

lemma readBack_reads:
  assumes "readBack hash j0 disk = Inr j" "j_live j0 = []" "j_held j0 = []"
    "j_ringStart j0 + j_ringLength j0 \<le> length disk" "0 < j_ringLength j0"
  obtains hs where "chain hash disk (j_generation j0) (j_ringStart j0) (j_ringLength j0) (slot_tail (j_header j0)) hs (j_written j)"
    "\<forall>h \<in> set hs. head_position h - slot_tail (j_header j0) < j_ringLength j0"
    "j = set_tail ((foldl index j0 (chain_index disk (j_ringStart j0) (j_ringLength j0) (slot_tail (j_header j0)) hs))
       \<lparr> j_written := j_written j, j_next := j_written j \<rparr>)"
    "(j_written j, chain_index disk (j_ringStart j0) (j_ringLength j0) (slot_tail (j_header j0)) hs)
       = scan hash disk (j_generation j0) (j_ringStart j0) (j_ringLength j0) (slot_tail (j_header j0)) (slot_tail (j_header j0))"
proof -
  let ?t = "slot_tail (j_header j0)" and ?S = "j_ringStart j0" and ?L = "j_ringLength j0" and ?g = "j_generation j0"
  let ?scan = "scan hash disk ?g ?S ?L ?t ?t"
  have "readBack_from hash disk ?g ?S ?L ?t (new_reader ?S ?L) ?t [] = Inr (fst ?scan, [] @ snd ?scan)"
    using assms(4,5) by (intro readBack_from_scan new_reader_ok) (simp_all add: new_reader_def)
  then have j: "j = set_tail ((foldl index j0 (snd ?scan))\<lparr> j_written := fst ?scan, j_next := fst ?scan \<rparr>)"
    using assms(1) by (simp add: readBack_def Let_def case_prod_beta)
  then have w: "j_written j = fst ?scan" by simp
  obtain hs where "chain hash disk ?g ?S ?L ?t hs (fst ?scan)" "snd ?scan = chain_index disk ?S ?L ?t hs"
    "\<forall>h \<in> set hs. head_position h - ?t < ?L" by (rule scan_is_chain)
  then show ?thesis using j w by (intro that) (simp_all add: prod_eq_iff)
qed

text \<open>What an opening does with a disk: it takes the lease in the other slot and indexes what the
  chain from the tail hint holds, everything owed among it.\<close>

definition opened :: "(bytes \<Rightarrow> identity) \<Rightarrow> disk \<Rightarrow> Config \<Rightarrow> journal \<Rightarrow> disk \<Rightarrow> slot \<Rightarrow> nat \<Rightarrow> head list \<Rightarrow> bool" where
  "opened hash disk config j disk' found current hs \<longleftrightarrow>
     takes hash disk config found current
     \<and> slot_at hash disk' (1 - current) = Inr (j_header j) \<and> slot_at hash disk' current = slot_at hash disk current
     \<and> length disk' = length disk \<and> j_header j = lease_slot config found \<and> j_current j = 1 - current
     \<and> j_ringStart j = ringOffset \<and> j_ringLength j = nat (slot_ringLength found)
     \<and> j_generation j = slot_generation found \<and> j_lease j = config_Lease config \<and> j_identity j = slot_identity found
     \<and> j_next j = j_written j \<and> tail_ok j \<and> index_ok j
     \<and> chain hash disk' (j_generation j) ringOffset (j_ringLength j) (slot_tail found) hs (j_written j)
     \<and> (\<forall>h \<in> set hs. head_position h < slot_tail found + j_ringLength j)
     \<and> live_of j = chain_index disk' ringOffset (j_ringLength j) (slot_tail found) hs
     \<and> j_live j = live_of j"

lemma readBack_indexes:
  assumes reads: "readBack hash j0 disk = Inr j" and j0: "j_live j0 = []" "j_held j0 = []"
    and ring: "j_ringStart j0 + j_ringLength j0 \<le> length disk" "0 < j_ringLength j0"
  obtains hs where "chain hash disk (j_generation j0) (j_ringStart j0) (j_ringLength j0) (slot_tail (j_header j0)) hs (j_written j)"
    "\<forall>h \<in> set hs. head_position h < slot_tail (j_header j0) + j_ringLength j0"
    "live_of j = chain_index disk (j_ringStart j0) (j_ringLength j0) (slot_tail (j_header j0)) hs"
    "j_live j = live_of j" "index_ok j" "tail_ok j" "j_next j = j_written j"
    "j_ringStart j = j_ringStart j0" "j_ringLength j = j_ringLength j0" "j_generation j = j_generation j0"
    "j_header j = j_header j0" "j_current j = j_current j0" "j_lease j = j_lease j0" "j_identity j = j_identity j0"
    "(j_written j, live_of j) = scan hash disk (j_generation j0) (j_ringStart j0) (j_ringLength j0)
       (slot_tail (j_header j0)) (slot_tail (j_header j0))"
proof -
  let ?t = "slot_tail (j_header j0)" and ?S = "j_ringStart j0" and ?L = "j_ringLength j0" and ?g = "j_generation j0"
  obtain hs where hs: "chain hash disk ?g ?S ?L ?t hs (j_written j)" "\<forall>h \<in> set hs. head_position h - ?t < ?L"
    and j: "j = set_tail ((foldl index j0 (chain_index disk ?S ?L ?t hs))\<lparr> j_written := j_written j, j_next := j_written j \<rparr>)"
    and scan: "(j_written j, chain_index disk ?S ?L ?t hs) = scan hash disk ?g ?S ?L ?t ?t"
    by (rule readBack_reads [OF assms])
  let ?es = "chain_index disk ?S ?L ?t hs"
  let ?j = "(foldl index j0 ?es)\<lparr> j_written := j_written j, j_next := j_written j \<rparr>"
  note sorted = chain_index_sorted [OF hs(1)]
  have live: "live_of j = ?es" using sorted by (subst j) (simp only: set_tail_simps, simp add: live_of_def j0)
  moreover have "j_live j = ?es"
  proof -
    have "dropWhile indexed_dead ?es = ?es" using sorted by (cases ?es) auto
    then show ?thesis by (subst j) (simp add: set_tail_def liveTail_def Let_def j0)
  qed
  moreover have "index_ok j"
  proof -
    have "index_ok j0" by (simp add: index_ok_def j0 held_keys_ok_def held_of_def epochs_of_def live_of_def owned_by_def lengths_def)
    then have "index_ok (foldl index j0 ?es)" using sorted by (intro index_ok_foldl) (simp_all add: j0)
    then have "index_ok ?j" by (simp add: index_ok_def live_of_def)
    then show ?thesis by (subst j) (rule index_ok_set_tail)
  qed
  moreover have "head_position h < ?t + ?L" if "h \<in> set hs" for h
    using chain_heads [OF hs(1) that] hs(2) that by fastforce
  moreover have "tail_ok j" "j_next j = j_written j" "j_ringStart j = ?S" "j_ringLength j = ?L" "j_generation j = ?g"
    "j_header j = j_header j0" "j_current j = j_current j0" "j_lease j = j_lease j0" "j_identity j = j_identity j0"
    by (subst j; simp)+
  ultimately show ?thesis using hs(1) scan by (intro that) auto
qed

lemma open_reads:
  assumes rec: "recoverable hash disk owed" and open_: "journal_Open hash disk config entropy now fault = Inr (j, disk')"
  obtains found current hs where "opened hash disk config j disk' found current hs"
    "serves hash (j_header j) disk' owed" "indexed_of ` set owed \<subseteq> set (live_of j)"
proof -
  obtain found current f where found: "open_header hash disk config entropy = Inr (found, current, f)"
    and disk': "disk' = write_at ((1 - current) * slotBytes) (encodeSlot hash (lease_slot config found)) disk"
    and reads: "readBack hash ((new_journal config found current f now)\<lparr> j_header := lease_slot config found,
        j_current := 1 - current \<rparr>) disk' = Inr j"
    using open_ by (rule Open_Inr)
  define s where "s = lease_slot config found"
  define j0 where "j0 = (new_journal config found current f now)\<lparr> j_header := s, j_current := 1 - current \<rparr>"
  note takes = open_header_takes [OF rec found]
  have size: "ringOffset \<le> length disk" using rec by (simp add: recoverable_def)
  note slots = lease_slot_written [OF takes(1) size disk', folded s_def]
  have serves: "serves hash s disk' owed"
    by (rule serves_same [OF takes(2) slots(3)]) (simp_all add: s_def lease_slot_def)
  let ?L = "nat (slot_ringLength s)"
  have j0: "j_ringStart j0 = ringOffset" "j_ringLength j0 = ?L" "j_generation j0 = slot_generation s" "j_header j0 = s"
    "j_current j0 = 1 - current" "j_live j0 = []" "j_held j0 = []" "j_lease j0 = slot_lease s" "j_identity j0 = slot_identity s"
    using serves takes(1) by (simp_all add: j0_def new_journal_def s_def lease_slot_def serves_def header_fits_def takes_def)
  have ring: "j_ringStart j0 + j_ringLength j0 \<le> length disk'" "0 < j_ringLength j0"
    using serves ring_ok_pos [of ?L] by (simp_all add: serves_def header_fits_def j0)
  have s: "slot_generation s = slot_generation found" "slot_ringLength s = slot_ringLength found" "slot_tail s = slot_tail found"
    "slot_identity s = slot_identity found" "slot_lease s = config_Lease config" by (simp_all add: s_def lease_slot_def)
  obtain hs where hs: "chain hash disk' (slot_generation s) ringOffset ?L (slot_tail s) hs (j_written j)"
    "\<forall>h \<in> set hs. head_position h < slot_tail s + ?L"
    "live_of j = chain_index disk' ringOffset ?L (slot_tail s) hs" "j_live j = live_of j" "index_ok j" "tail_ok j"
    "j_next j = j_written j" "j_ringStart j = ringOffset" "j_ringLength j = ?L" "j_generation j = slot_generation s"
    "j_header j = s" "j_current j = 1 - current" "j_lease j = slot_lease s" "j_identity j = slot_identity s"
    and scan: "(j_written j, live_of j) = scan hash disk' (slot_generation s) ringOffset ?L (slot_tail s) (slot_tail s)"
    using readBack_indexes [OF reads [folded s_def, folded j0_def] j0(6,7) ring, unfolded j0] by blast
  have "opened hash disk config j disk' found current hs"
    using hs takes(1) slots by (simp add: opened_def s s_def [symmetric] same_ring_bytes_of_def)
  moreover have "indexed_of ` set owed \<subseteq> set (live_of j)"
  proof -
    obtain q hs' where "chain hash disk' (slot_generation s) ringOffset ?L (slot_tail s) hs' q"
      "\<forall>h \<in> set hs'. head_position h < slot_tail s + ?L"
      "indexed_of ` set owed \<subseteq> set (chain_index disk' ringOffset ?L (slot_tail s) hs')"
      using serves unfolding serves_def covers_from_def by blast
    moreover from scan_chain [OF this(1,2)] ring(2) scan have
      "live_of j = chain_index disk' ringOffset ?L (slot_tail s) hs' @ snd (scan hash disk' (slot_generation s) ringOffset ?L (slot_tail s) q)"
      unfolding j0 by (metis prod.inject)
    ultimately show ?thesis by auto
  qed
  ultimately show ?thesis using that serves hs(11) by simp
qed

lemma inv_open:
  assumes rec: "recoverable hash disk owed" and open_: "journal_Open hash disk config entropy now fault = Inr (j, disk')"
    and counter: "slot_counter (j_header j) \<noteq> 0"
    and ends: "minEntryBytes \<le> room (j_ringLength j) (j_written j)" "j_written j < 2 ^ 64"
  shows "journal_inv hash j disk' owed"
proof -
  obtain found current hs where op: "opened hash disk config j disk' found current hs"
    and serves: "serves hash (j_header j) disk' owed" and owed: "indexed_of ` set owed \<subseteq> set (live_of j)"
    by (rule open_reads [OF rec open_])
  let ?t = "slot_tail found" and ?L = "j_ringLength j"
  have chain: "chain hash disk' (j_generation j) ringOffset ?L ?t hs (j_written j)"
    and header: "j_header j = lease_slot config found" "j_current j = 1 - current" and takes: "takes hash disk config found current"
    using op unfolding opened_def by blast+
  have s: "slot_generation (j_header j) = slot_generation found" "slot_ringLength (j_header j) = slot_ringLength found"
    "slot_tail (j_header j) = ?t" "slot_identity (j_header j) = slot_identity found"
    "slot_lease (j_header j) = config_Lease config" "slot_counter (j_header j) = slot_counter found + 1"
    "slot_ringStart (j_header j) = slot_ringStart found"
    by (simp_all add: header lease_slot_def)
  have ring: "ring_ok ?L" "ringOffset + ?L \<le> length disk'" "slot_ringStart found = int ringOffset"
    "slot_ringLength found = int ?L" "8 dvd ?t"
    using serves op by (simp_all add: serves_def header_fits_def s opened_def)
  have covers: "covers_from hash disk' (j_generation j) ?L ?t (j_written j) (set (live_of j))"
    using op unfolding opened_def covers_from_def by auto
  have past: "\<forall>e \<in> set (j_live j). indexed_position e < j_written j"
    using op chain_index_member [OF chain] unfolding opened_def by fastforce
  have tail: "?t \<le> j_tail j"
    using tail_cases [of j] op covers_from_member(1) [OF covers] covers_from_le [OF covers] by (fastforce simp: opened_def)
  have "slots_ok hash j disk'"
  proof -
    have less: "slot_counter found < slot_counter (j_header j)"
      using counter plus_one_less [of "slot_counter found"] unfolding s by simp
    have cur: "1 - (1 - current) = current" "1 - current < 2" using takes by (auto simp: takes_def)
    have at: "slot_at hash disk' (1 - current) = Inr (j_header j)" "slot_at hash disk' current = slot_at hash disk current"
      using op by (simp_all add: opened_def)
    have old: "slot_at hash disk current = Inr found \<or> slot_at hash disk current = Inl [NoSlot]"
      using takes by (simp add: takes_def)
    have "own_header j (j_header j)" using op tail ring by (simp add: own_header_def lease_slot_def opened_def)
    then show ?thesis unfolding slots_ok_def header(2) cur(1) at using cur(2) old less by auto
  qed
  moreover have "cursor_ok j"
    using chain_dvd [OF chain ring(5)] ends(1) op by (simp add: cursor_ok_def good_position_def opened_def)
  ultimately show ?thesis
    using op ring rec covers owed past ends(2) serves
    unfolding journal_inv_def serves_def opened_def recoverable_def by (simp add: lease_slot_def)
qed

text \<open>An \<^verbatim>\<open>Open\<close> whose slot write fails, or that a crash cuts short, leaves the disk recoverable.\<close>

lemma readHeader_cong:
  assumes "slot_at hash disk' 0 = slot_at hash disk 0" "slot_at hash disk' 1 = slot_at hash disk 1"
    "length disk' = length disk"
  shows "readHeader hash disk' = readHeader hash disk"
  using assms by (simp add: readHeader_def readFull_def)

lemma recoverable_same:
  assumes "recoverable hash disk owed" "same_ring_bytes_of disk disk'"
    "readHeader hash disk' = readHeader hash disk"
  shows "recoverable hash disk' owed"
  using assms serves_same [OF _ assms(2) refl refl refl refl]
  by (auto simp: recoverable_def same_ring_bytes_of_def split: sum.splits)

lemma recoverable_header:
  assumes "recoverable hash disk owed" "same_ring_bytes_of disk disk'" "serves hash s disk' owed"
    "readHeader hash disk' = Inr (s, i)"
  shows "recoverable hash disk' owed"
  using assms by (auto simp: recoverable_def same_ring_bytes_of_def)

lemma recoverable_torn_open:
  assumes rec: "recoverable hash disk owed" and found: "open_header hash disk config entropy = Inr (found, current, f)"
    and torn: "torn_slot hash (1 - current) (Some (lease_slot config found)) disk disk'"
    and counter: "slot_counter found + 1 \<noteq> 0"
  shows "recoverable hash disk' owed"
proof -
  note takes = open_header_takes [OF rec found]
  have cur: "current < 2" "1 - (1 - current) = current" "1 - current < 2" using takes(1) by (auto simp: takes_def)
  have size: "ringOffset \<le> length disk" using rec by (simp add: recoverable_def)
  note keep = torn_slot_other [OF torn size cur(3), unfolded cur(2)]
  have len: "length disk' = length disk" using keep(2) by (simp add: same_ring_bytes_of_def)
  consider (old) "slot_at hash disk' (1 - current) = slot_at hash disk (1 - current)"
    | (lost) "slot_at hash disk' (1 - current) = Inl [NoSlot]"
    | (new) "slot_at hash disk' (1 - current) = Inr (lease_slot config found)"
    using torn unfolding torn_slot_def by blast
  then show ?thesis
  proof cases
    case old
    have "current = 0 \<or> current = 1" using cur(1) by linarith
    then have "readHeader hash disk' = readHeader hash disk"
      using old keep(1) len by (intro readHeader_cong) auto
    then show ?thesis by (rule recoverable_same [OF rec keep(2)])
  next
    case lost
    show ?thesis
    proof (cases "slot_at hash disk current = Inr found")
      case True
      then have "readHeader hash disk' = Inr (found, current)"
        using lost keep(1) size len cur(1) by (intro readHeader_two) auto
      moreover have "serves hash found disk' owed" by (rule serves_same [OF takes(2) keep(2)]) simp_all
      ultimately show ?thesis using recoverable_header [OF rec keep(2)] by blast
    next
      case False
      then have "slot_at hash disk current = Inl [NoSlot]" using takes(1) by (simp add: takes_def)
      moreover have "\<exists>err. readHeader hash disk = Inl err"
        using found readHeader_slot(2) [of hash disk] False
        by (cases "readHeader hash disk") (auto simp: open_header_def Let_def split: if_splits)
      ultimately have "readHeader hash disk = Inl [NoSlot]" "slot_at hash disk 0 = Inl [NoSlot]" "slot_at hash disk 1 = Inl [NoSlot]"
        using rec readHeader_none [of hash disk] by (auto simp: recoverable_def)
      moreover have "current = 0 \<or> current = 1" using cur(1) by linarith
      ultimately have "readHeader hash disk' = readHeader hash disk"
        using lost keep(1) len by (intro readHeader_cong) auto
      then show ?thesis by (rule recoverable_same [OF rec keep(2)])
    qed
  next
    case new
    have "slot_counter found < slot_counter (lease_slot config found)"
      using plus_one_less [OF counter] by (simp add: lease_slot_def)
    then have "readHeader hash disk' = Inr (lease_slot config found, 1 - current)"
      using new keep(1) size len cur takes(1) by (intro readHeader_two) (auto simp: takes_def)
    moreover have "serves hash (lease_slot config found) disk' owed"
      by (rule serves_same [OF takes(2) keep(2)]) (simp_all add: lease_slot_def)
    ultimately show ?thesis using recoverable_header [OF rec keep(2)] by blast
  qed
qed

section \<open>Reading\<close>

lemma entry_at_decode:
  assumes "entry_at hash disk g S L p = Some h" "head_kind h = kindBlocks" "S + L \<le> length disk" "0 < L"
  obtains en where "decodeEntry hash (bytes_at (S + p mod L) (head_length h) disk) = Inr (h, Some en)"
    "entry_Position en = p"
proof -
  let ?b = "bytes_at (S + p mod L) (head_length h) disk"
  note len = entry_at_length [OF assms(1)]
  have "length ?b = head_length h"
    using len chunk_fits [OF assms(4), of "head_length h" p S] assms(3) by (intro length_bytes_at) linarith
  then have "decodeHead ?b = decodeHead (bytes_at (S + p mod L) 48 disk)"
    using decodeHead_take [of ?b] take_bytes_at [of 48 "head_length h"] len by simp
  then have "checkEntry hash ?b = Inr h"
    using assms(1) by (auto simp: entry_at_def checkEntry_def split: if_splits sum.splits)
  then have "\<exists>en. decodeEntry hash ?b = Inr (h, Some en) \<and> entry_Position en = p"
    using assms(2) len by (simp add: decodeEntry_def Let_def)
  then show ?thesis using that by blast
qed

lemma chain_index_head:
  assumes "chain hash disk g S L p hs q" "e \<in> set (chain_index disk S L p hs)"
  shows "\<exists>h. entry_at hash disk g S L (indexed_position e) = Some h \<and> head_kind h = kindBlocks
    \<and> indexed_length e = head_length h"
  using assms
proof (induction hs arbitrary: p)
  case (Cons h hs)
  show ?case
  proof (cases "e \<in> set (index_entry (bytes_at (S + p mod L) (head_length h) disk) h p)")
    case True
    then show ?thesis using Cons.prems(1) by (auto simp: index_entry_def split: if_splits)
  next
    case False
    then show ?thesis using Cons.IH [of "p + head_length h"] Cons.prems by simp
  qed
qed simp

text \<open>What the entry at a live position decodes to.\<close>

definition entry_read :: "(bytes \<Rightarrow> identity) \<Rightarrow> disk \<Rightarrow> nat \<Rightarrow> indexed \<Rightarrow> Entry" where
  "entry_read hash disk L e =
     (case decodeEntry hash (bytes_at (ringOffset + indexed_position e mod L) (indexed_length e) disk) of
        Inr (_, Some en) \<Rightarrow> en | _ \<Rightarrow> undefined)"

lemma inv_live_reads:
  assumes inv: "journal_inv hash j disk owed" and e: "e \<in> set (live_of j)"
  obtains h where "decodeEntry hash (bytes_at (ringOffset + indexed_position e mod j_ringLength j) (indexed_length e) disk)
      = Inr (h, Some (entry_read hash disk (j_ringLength j) e))"
    "head_kind h = kindBlocks" "head_position h = indexed_position e" "head_generation h = j_generation j"
    "ringOffset + indexed_position e mod j_ringLength j + indexed_length e \<le> ringOffset + j_ringLength j"
    "entry_Position (entry_read hash disk (j_ringLength j) e) = indexed_position e"
proof -
  obtain hs where hs: "chain hash disk (j_generation j) ringOffset (j_ringLength j) (slot_tail (j_header j)) hs (j_written j)"
    "set (live_of j) \<subseteq> set (chain_index disk ringOffset (j_ringLength j) (slot_tail (j_header j)) hs)"
    using inv unfolding journal_inv_def covers_from_def by blast
  note ring = inv_ring [OF inv]
  obtain h where h: "entry_at hash disk (j_generation j) ringOffset (j_ringLength j) (indexed_position e) = Some h"
    "head_kind h = kindBlocks" "indexed_length e = head_length h"
    using chain_index_head [OF hs(1) subsetD [OF hs(2) e]] by blast
  from entry_at_decode [OF h(1,2)] ring obtain en where en:
    "decodeEntry hash (bytes_at (ringOffset + indexed_position e mod j_ringLength j) (head_length h) disk) = Inr (h, Some en)"
    "entry_Position en = indexed_position e" by blast
  note len = entry_at_length [OF h(1)]
  show ?thesis
    using en h len chunk_fits [of "j_ringLength j" "head_length h" "indexed_position e" ringOffset] ring
    by (intro that [of h]) (simp_all add: entry_read_def)
qed

lemma read_entries_all:
  assumes inv: "journal_inv hash j disk owed" and "set wanted \<subseteq> set (live_of j)" "\<And>en. yield en = None"
    "reader_ok disk reader" "reader_end reader = ringOffset + j_ringLength j"
  shows "read_entries hash j disk yield reader wanted = (map (entry_read hash disk (j_ringLength j)) wanted, None)"
  using assms(2,4,5)
proof (induction wanted arbitrary: reader)
  case (Cons e wanted)
  then have "e \<in> set (live_of j)" by simp
  then obtain h where h: "decodeEntry hash (bytes_at (ringOffset + indexed_position e mod j_ringLength j) (indexed_length e) disk)
      = Inr (h, Some (entry_read hash disk (j_ringLength j) e))"
    "head_kind h = kindBlocks" "head_position h = indexed_position e" "head_generation h = j_generation j"
    "ringOffset + indexed_position e mod j_ringLength j + indexed_length e \<le> ringOffset + j_ringLength j"
    by (rule inv_live_reads [OF inv])
  obtain r where r: "reader_read disk reader (ringOffset + indexed_position e mod j_ringLength j) (indexed_length e)
      = Inr (bytes_at (ringOffset + indexed_position e mod j_ringLength j) (indexed_length e) disk, r)"
    "reader_ok disk r" "reader_end r = reader_end reader"
    using h(5) Cons.prems by (metis reader_read_direct)
  have "j_ringStart j = ringOffset" using inv by (simp add: journal_inv_def)
  then show ?case
    using Cons.IH [of r] Cons.prems r h assms(3) by (simp add: offset_eq)
qed simp

lemma concat_one_key:
  "distinct (map fst xs) \<Longrightarrow>
     concat (map (\<lambda>(k, v). if k \<noteq> x then [] else f v) xs) = (case map_of xs x of None \<Rightarrow> [] | Some v \<Rightarrow> f v)"
proof (induction xs)
  case (Cons kv xs)
  obtain k v where kv: "kv = (k, v)" by (cases kv)
  show ?case
  proof (cases "k = x")
    case True
    then have "map_of xs x = None" using Cons.prems kv by (auto simp: map_of_eq_None_iff)
    then show ?thesis using Cons kv True by simp
  qed (use Cons kv in simp)
qed simp

text \<open>A read wants the live entries of the VM and epoch after the covered position, in order.\<close>

lemma read_wanted_live:
  assumes "index_ok j"
  shows "read_wanted j request
    = filter (\<lambda>e. indexed_position e > read_After request) (owned_by (read_VM request) (read_Epoch request) (live_of j))"
proof -
  let ?P = "\<lambda>e. indexed_position e > read_After request"
  let ?held = "held_of (j_held j) (read_VM request) (read_Epoch request)"
  have "concat (map (\<lambda>(epoch, h). if epoch \<noteq> read_Epoch request then [] else filter ?P (held_entries h))
      (epochs_of (j_held j) (read_VM request))) = filter ?P (held_entries ?held)"
    using concat_one_key [OF epochs_of_distinct [OF index_ok_keys [OF assms]], where f = "\<lambda>h. filter ?P (held_entries h)"]
    by (simp add: held_of_def split: option.split)
  moreover have "held_entries ?held = owned_by (read_VM request) (read_Epoch request) (live_of j)"
    using assms by (simp add: index_ok_def)
  moreover have "sorted (map indexed_position (filter ?P (owned_by vm epoch (live_of j))))" for vm epoch
  proof -
    have "sorted_wrt (<) (map indexed_position (filter ?P (owned_by vm epoch (live_of j))))"
      using assms by (simp add: index_ok_def owned_by_def live_of_def sorted_wrt_map sorted_wrt_filter)
    then show ?thesis using strict_sorted_iff by blast
  qed
  ultimately show ?thesis by (simp add: read_wanted_def Let_def sorted_sort_id sort_key_id_if_sorted)
qed

lemma owed_entry_read:
  assumes "stands hash g ringOffset L disk pe"
  shows "entry_read hash disk L (indexed_of pe) = (snd pe)\<lparr> entry_Position := fst pe \<rparr>"
  using assms by (simp add: stands_def entry_read_def)

lemma Read_serves:
  assumes inv: "journal_inv hash j disk owed" and fence: "read_fence j request = Inr j'"
  shows "journal_Read hash j disk request (\<lambda>_. None)
    = (j', map (entry_read hash disk (j_ringLength j)) (read_wanted j request), None)"
proof -
  have same: "j_ringStart j' = j_ringStart j" "j_ringLength j' = j_ringLength j" "j_held j' = j_held j"
    "j_generation j' = j_generation j" "live_of j' = live_of j" and inv': "journal_inv hash j' disk owed"
    using fence inv by (auto simp: read_fence_def live_of_def split: if_splits option.splits)
  note ring = inv_ring [OF inv]
  have S: "j_ringStart j = ringOffset" using inv by (simp add: journal_inv_def)
  have wanted: "read_wanted j' request = read_wanted j request" by (simp add: read_wanted_def same)
  have "set (read_wanted j request) \<subseteq> set (live_of j)"
    using read_wanted_live [of j request] inv by (auto simp: journal_inv_def owned_by_def)
  then show ?thesis
    using read_entries_all [OF inv', of "read_wanted j request" "\<lambda>_. None" "new_reader ringOffset (j_ringLength j)"]
      ring new_reader_ok [of ringOffset "j_ringLength j" disk]
    by (simp add: journal_Read_def fence same wanted S new_reader_def)
qed

end
