(* ===== verification/Journal_System.thy ===== *)
theory Journal_System
  imports Journal_Recover
begin

text \<open>
  A journal disk over its life: opened, written, trimmed, read, closed and lost, any number of
  times, with writes that fail and crashes that tear what was not synced.

  One host at a time has the disk. \<open>sys_owed\<close> is the history: the entries commits were
  answered for, less what trims named since. A batch is in flight from when it is placed until
  it is answered; commits, trims and reads go on meanwhile.

  Three things are taken as given and stand in the steps as conditions: positions stay below
  2^64 and header counters do not wrap, reading back does not end within 64 bytes of the
  ring's end (no entry the writer lays out leaves so little, \<open>spot_good\<close>), and a torn slot
  does not pass the checksum with a header nobody wrote.
\<close>

record jsys =
  sys_disk :: disk
  sys_journal :: "journal option"
  sys_flight :: "(placement \<times> (error + Entry list) list \<times> (error + nat list) list) option"
  sys_owed :: "(nat \<times> Entry) list"

definition ends_well :: "journal \<Rightarrow> bool" where
  "ends_well j \<longleftrightarrow> slot_counter (j_header j) \<noteq> 0 \<and> minEntryBytes \<le> room (j_ringLength j) (j_written j)
     \<and> j_written j < 2 ^ 64"

definition counter_left :: "journal \<Rightarrow> bool" where
  "counter_left j \<longleftrightarrow> slot_counter (j_header j) + 1 \<noteq> 0"

text \<open>What a batch leaves on the disk when it lands.\<close>

definition batch_written :: "journal \<Rightarrow> placement \<Rightarrow> disk \<Rightarrow> disk" where
  "batch_written j p disk = write_image (j_ringStart j) (j_ringLength j) disk (place_start p) (place_image p)"

inductive jstep :: "(bytes \<Rightarrow> identity) \<Rightarrow> jsys \<Rightarrow> jsys \<Rightarrow> bool" for hash where
  opens: "sys_journal s = None \<Longrightarrow> journal_Open hash (sys_disk s) config entropy now None = Inr (j, disk) \<Longrightarrow>
    ends_well j \<Longrightarrow> jstep hash s (s\<lparr> sys_disk := disk, sys_journal := Some j \<rparr>)"
| open_fails: "sys_journal s = None \<Longrightarrow>
    open_header hash (sys_disk s) config entropy = Inr (found, current, f) \<Longrightarrow> slot_counter found + 1 \<noteq> 0 \<Longrightarrow>
    torn_slot hash (1 - current) (Some (lease_slot config found)) (sys_disk s) disk \<Longrightarrow>
    jstep hash s (s\<lparr> sys_disk := disk \<rparr>)"
| commits: "sys_journal s = Some j \<Longrightarrow> CommitHooked j ident r = Inr j' \<Longrightarrow>
    jstep hash s (s\<lparr> sys_journal := Some j' \<rparr>)"
| gives_up: "sys_journal s = Some j \<Longrightarrow> jstep hash s (s\<lparr> sys_journal := Some (give_up j ident) \<rparr>)"
| waits: "sys_journal s = Some j \<Longrightarrow> sys_flight s = None \<Longrightarrow> nextBatch j now = (j', a) \<Longrightarrow>
    (\<And>cs. a \<noteq> Batch cs) \<Longrightarrow> jstep hash s (s\<lparr> sys_journal := Some j' \<rparr>)"
| places: "sys_journal s = Some j \<Longrightarrow> sys_flight s = None \<Longrightarrow> positions_left j \<Longrightarrow>
    nextBatch j now = (j1, Batch cs) \<Longrightarrow> length made = length cs \<Longrightarrow>
    begin_batch hash j1 cs made = (j2, p, answers) \<Longrightarrow>
    jstep hash s (s\<lparr> sys_journal := Some j2, sys_flight := Some (p, map2 capture cs made, answers) \<rparr>)"
| lands: "sys_journal s = Some j \<Longrightarrow> sys_flight s = Some (p, captured, answers) \<Longrightarrow>
    complete j p answers None = (j', answers') \<Longrightarrow>
    jstep hash s (s\<lparr> sys_disk := batch_written j p (sys_disk s), sys_journal := Some j', sys_flight := None,
      sys_owed := sys_owed s @ accepted captured answers' \<rparr>)"
| fails: "sys_journal s = Some j \<Longrightarrow> sys_flight s = Some (p, captured, answers) \<Longrightarrow> place_image p \<noteq> [] \<Longrightarrow>
    complete j p answers (Some err) = (j', answers') \<Longrightarrow> torn_ring j (sys_disk s) disk \<Longrightarrow>
    jstep hash s (s\<lparr> sys_disk := disk, sys_journal := Some j', sys_flight := None,
      sys_owed := sys_owed s @ accepted captured answers' \<rparr>)"
| hints: "sys_journal s = Some j \<Longrightarrow> sys_flight s = None \<Longrightarrow> counter_left j \<Longrightarrow>
    writeHeader hash j (sys_disk s) False now None = (j', Inr disk) \<Longrightarrow>
    jstep hash s (s\<lparr> sys_disk := disk, sys_journal := Some j' \<rparr>)"
| hint_fails: "sys_journal s = Some j \<Longrightarrow> sys_flight s = None \<Longrightarrow> counter_left j \<Longrightarrow>
    writeHeader hash j (sys_disk s) e now (Some err) = (j', Inl err') \<Longrightarrow>
    torn_slot hash (1 - j_current j) (Some (tail_slot j e)) (sys_disk s) disk \<Longrightarrow>
    jstep hash s (s\<lparr> sys_disk := disk, sys_journal := Some j' \<rparr>)"
| trims: "sys_journal s = Some j \<Longrightarrow>
    jstep hash s (s\<lparr> sys_journal := Some (Trim j vm covered), sys_owed := trim_owed vm covered (sys_owed s) \<rparr>)"
| fences: "sys_journal s = Some j \<Longrightarrow> read_fence j request = Inr j' \<Longrightarrow>
    jstep hash s (s\<lparr> sys_journal := Some j' \<rparr>)"
| closes: "sys_journal s = Some j \<Longrightarrow> sys_flight s = None \<Longrightarrow> counter_left j \<Longrightarrow>
    journal_Close hash j (sys_disk s) now None = (j', Inr (is_empty, disk)) \<Longrightarrow>
    jstep hash s (s\<lparr> sys_disk := disk, sys_journal := None \<rparr>)"
| crashes: "sys_journal s = Some j \<Longrightarrow> torn_ring j (sys_disk s) disk \<Longrightarrow>
    torn_slot hash (1 - j_current j) None disk disk' \<Longrightarrow>
    jstep hash s (s\<lparr> sys_disk := disk', sys_journal := None, sys_flight := None \<rparr>)"

definition blank :: "(bytes \<Rightarrow> identity) \<Rightarrow> disk \<Rightarrow> bool" where
  "blank hash disk \<longleftrightarrow> ringOffset + minRingSize \<le> length disk \<and> length disk < 2 ^ 63
     \<and> readHeader hash disk = Inl [NoSlot]"

definition sys_start :: "disk \<Rightarrow> jsys" where
  "sys_start disk = \<lparr> sys_disk = disk, sys_journal = None, sys_flight = None, sys_owed = [] \<rparr>"

definition reaches :: "(bytes \<Rightarrow> identity) \<Rightarrow> disk \<Rightarrow> jsys \<Rightarrow> bool" where
  "reaches hash disk s \<longleftrightarrow> (jstep hash)\<^sup>*\<^sup>* (sys_start disk) s"

section \<open>The invariant of the system\<close>

definition sys_inv :: "(bytes \<Rightarrow> identity) \<Rightarrow> jsys \<Rightarrow> bool" where
  "sys_inv hash s \<longleftrightarrow>
     (case sys_journal s of
        None \<Rightarrow> sys_flight s = None \<and> recoverable hash (sys_disk s) (sys_owed s)
      | Some j \<Rightarrow> journal_inv hash j (sys_disk s) (sys_owed s)
          \<and> (case sys_flight s of None \<Rightarrow> True
             | Some (p, captured, answers) \<Rightarrow> flight_ok hash j p (accepted captured answers)))"

lemma sys_inv_start: "blank hash disk \<Longrightarrow> sys_inv hash (sys_start disk)"
  by (simp add: sys_inv_def sys_start_def recoverable_def blank_def)

lemma flight_ok_cong:
  assumes "j_written j' = j_written j" "j_next j' = j_next j" "j_header j' = j_header j"
    "j_ringLength j' = j_ringLength j" "j_generation j' = j_generation j"
  shows "flight_ok hash j' p puts = flight_ok hash j p puts"
  using assms by (simp add: flight_ok_def)

lemma journal_inv_set_tail:
  assumes inv: "journal_inv hash j disk owed"
  shows "journal_inv hash (set_tail j) disk owed"
proof -
  have tail: "j_tail (set_tail j) = j_tail j"
    using tail_ok_set_tail [of j] inv by (simp add: tail_ok_def journal_inv_def split: list.splits)
  obtain ds where "j_live j = ds @ j_live (set_tail j)" using set_tail_live by blast
  then have "set (j_live (set_tail j)) \<subseteq> set (j_live j)" by (metis set_append sup_ge2)
  then show ?thesis
    using inv tail index_ok_set_tail [of j] unfolding journal_inv_def slots_ok_def own_header_def cursor_ok_def
    by auto
qed

lemma accepted_failed: "accepted captured (map (\<lambda>a. case a of Inl e' \<Rightarrow> Inl e' | Inr _ \<Rightarrow> Inl e) answers) = []"
proof -
  have "accepted1 c a = []" if "a \<in> set (map (\<lambda>a. case a of Inl e' \<Rightarrow> Inl e' | Inr _ \<Rightarrow> Inl e) answers)" for c a
    using that by (auto simp: accepted1_def split: sum.splits)
  then show ?thesis by (auto simp: accepted_def dest: set_zip_rightD)
qed

lemma CheckLease_held:
  assumes inv: "journal_inv hash j disk owed"
  shows "CheckLease hash j disk = (j, Inr ())"
proof -
  obtain s i where "readHeader hash disk = Inr (s, i)" "own_header j s"
    by (rule inv_readHeader [OF inv])
  then show ?thesis by (simp add: CheckLease_def own_header_def)
qed

lemma writeHeader_held:
  assumes "journal_inv hash j disk owed"
  shows "writeHeader hash j disk e now fault =
    (case writeSlot hash (j\<lparr> j_headerAt := now \<rparr>) disk ((j_header j)\<lparr> slot_tail := j_tail j, slot_empty := e \<rparr>) fault of
       Inl err \<Rightarrow> (j\<lparr> j_headerAt := now \<rparr>, Inl err)
     | Inr (j, disk) \<Rightarrow> (j, Inr disk))"
  using CheckLease_held [of hash "j\<lparr> j_headerAt := now \<rparr>" disk owed] assms
  by (simp add: writeHeader_def Let_def)

lemma counter_left_less: "counter_left j \<Longrightarrow> slot_counter (j_header j) < slot_counter (j_header j) + 1"
  by (simp add: counter_left_def plus_one_less)

lemma inv_hint:
  assumes inv: "journal_inv hash j disk owed" and "counter_left j"
    "writeHeader hash j disk e now None = (j', Inr disk')"
  shows "journal_inv hash j' disk' owed"
proof (rule inv_header_written)
  show "journal_inv hash (j\<lparr> j_headerAt := now \<rparr>) disk owed" using inv by simp
  show "writeSlot hash (j\<lparr> j_headerAt := now \<rparr>) disk
      ((j_header (j\<lparr> j_headerAt := now \<rparr>))\<lparr> slot_tail := j_tail (j\<lparr> j_headerAt := now \<rparr>), slot_empty := e \<rparr>) None = Inr (j', disk')"
    using assms(3) unfolding writeHeader_held [OF inv] by (simp split: sum.splits prod.splits)
qed (use counter_left_less [OF assms(2)] in simp)

lemma inv_lands:
  assumes inv: "journal_inv hash j disk owed" and flight: "flight_ok hash j p puts"
    and answered: "complete j p answers None = (j', answers')"
  shows "journal_inv hash j' (batch_written j p disk) (owed @ puts)" "answers' = answers"
proof -
  have S: "j_ringStart j = ringOffset" "place_start p = j_written j"
    using inv flight by (auto simp: journal_inv_def flight_ok_def split: if_splits)
  let ?j = "j\<lparr> j_completed := j_completed j + 1 \<rparr>"
  show "answers' = answers" using answered by (auto simp: complete_def Let_def)
  show "journal_inv hash j' (batch_written j p disk) (owed @ puts)"
  proof (cases "place_image p = []")
    case True
    then have "j' = set_tail ?j" "puts = []" "batch_written j p disk = disk"
      using answered flight by (auto simp: complete_def Let_def flight_ok_def batch_written_def write_image.simps)
    then show ?thesis using journal_inv_set_tail [of hash ?j disk owed] inv by simp
  next
    case False
    then have "j' = set_tail (foldl index (?j\<lparr> j_written := place_end p \<rparr>) (place_entries p))"
      using answered by (auto simp: complete_def Let_def)
    then show ?thesis
      using inv_complete [of hash ?j disk owed p puts "batch_written j p disk" j'] inv flight False S
        flight_ok_cong [of ?j j] by (simp add: batch_written_def)
  qed
qed

lemma read_fence_keeps:
  "read_fence j request = Inr j' \<Longrightarrow> \<exists>f. j' = j\<lparr> j_fences := f \<rparr>"
  by (auto simp: read_fence_def intro: exI [of _ "j_fences j"] split: if_splits option.splits)

lemma CommitHooked_keeps: "CommitHooked j ident r = Inr j' \<Longrightarrow> \<exists>q. j' = j\<lparr> j_queue := q \<rparr>"
  by (auto simp: CommitHooked_def split: if_splits option.splits)

text \<open>What a pass of the writer does to the queue.\<close>

lemma nextBatch_queue:
  assumes next_: "nextBatch j now = (j', a)" and same: "P j" and stop: "P (j\<lparr> j_queue := [] \<rparr>)"
    and batch: "P (j\<lparr> j_queue := drop (fitting j) (j_queue j) \<rparr>)"
    and full: "j_queue j \<noteq> [] \<Longrightarrow> P (j\<lparr> j_queue := (hd (j_queue j))\<lparr> commit_full := True \<rparr> # tl (j_queue j) \<rparr>)"
  shows "P j'"
proof -
  have "P (fst (nextBatch j now))"
    unfolding nextBatch_def Let_def
    by (cases "refusal j") (simp_all only: option.case fst_conv if_distrib [of fst],
      (split if_split | intro conjI impI | rule same | rule stop | rule batch | (elim conjE, erule full))+)
  then show ?thesis using next_ by simp
qed

lemma nextBatch_keeps:
  assumes "nextBatch j now = (j', a)"
  shows "\<exists>q. j' = j\<lparr> j_queue := q \<rparr>"
proof (rule nextBatch_queue [OF assms])
  show "\<exists>q. j = j\<lparr> j_queue := q \<rparr>" by (rule exI [of _ "j_queue j"]) simp
qed blast+

lemma sys_inv_Some:
  "sys_journal s = Some j \<Longrightarrow> sys_inv hash s \<longleftrightarrow> journal_inv hash j (sys_disk s) (sys_owed s)
     \<and> (\<forall>p captured answers. sys_flight s = Some (p, captured, answers) \<longrightarrow>
          flight_ok hash j p (accepted captured answers))"
  by (auto simp: sys_inv_def split: option.split)

lemma flight_ok_updates [simp]:
  "flight_ok hash (j\<lparr> j_queue := q \<rparr>) p puts = flight_ok hash j p puts"
  "flight_ok hash (j\<lparr> j_fences := f \<rparr>) p puts = flight_ok hash j p puts"
  "flight_ok hash (Trim j vm c) p puts = flight_ok hash j p puts"
  by (rule flight_ok_cong; simp)+

lemma inv_hint_fails:
  assumes inv: "journal_inv hash j disk owed" and "counter_left j"
    "writeHeader hash j disk e now (Some err) = (j', Inl err')"
    "torn_slot hash (1 - j_current j) (Some (tail_slot j e)) disk disk'"
  shows "journal_inv hash j' disk' owed"
proof -
  have "j' = j\<lparr> j_headerAt := now \<rparr>"
    using assms(3) unfolding writeHeader_held [OF inv] by (auto simp: writeSlot_def)
  then show ?thesis using inv_header_fails [OF inv assms(4) counter_left_less [OF assms(2)]] by simp
qed

lemma inv_close:
  assumes inv: "journal_inv hash j disk owed" and "counter_left j"
    "journal_Close hash j disk now None = (j', Inr (is_empty, disk'))"
  shows "journal_inv hash j' disk' owed" "is_empty = (j_live j = [])"
proof -
  let ?j = "j\<lparr> j_closed := True \<rparr>"
  have "writeHeader hash ?j disk is_empty now None = (j', Inr disk')" and "is_empty = (j_live j = [])"
    using assms(3) by (auto simp: journal_Close_def Let_def split: if_splits option.splits prod.splits sum.splits)
  then show "journal_inv hash j' disk' owed" "is_empty = (j_live j = [])"
    using inv_hint [of hash ?j disk owed is_empty now j' disk'] inv assms(2) by (simp_all add: counter_left_def)
qed

lemma torn_slot_refl: "torn_slot hash i s disk disk"
  by (simp add: torn_slot_def)

lemma jstep_keeps_inv:
  assumes "jstep hash s s'" "sys_inv hash s"
  shows "sys_inv hash s'"
  using assms
proof cases
  case (opens config entropy now j disk)
  then show ?thesis
    using assms(2) inv_open [of hash "sys_disk s" "sys_owed s" config entropy now None j disk]
    by (simp add: sys_inv_def ends_well_def)
next
  case (open_fails config entropy found current f disk)
  then show ?thesis
    using assms(2) recoverable_torn_open [of hash "sys_disk s" "sys_owed s" config entropy found current f disk]
    by (simp add: sys_inv_def)
next
  case (commits j ident r j')
  then obtain q where "j' = j\<lparr> j_queue := q \<rparr>" using CommitHooked_keeps by blast
  then show ?thesis using commits assms(2) by (simp add: sys_inv_Some)
next
  case (gives_up j ident)
  then show ?thesis using assms(2) by (simp add: sys_inv_Some give_up_def)
next
  case (waits j now j' a)
  then obtain q where "j' = j\<lparr> j_queue := q \<rparr>" using nextBatch_keeps by blast
  then show ?thesis using waits assms(2) by (simp add: sys_inv_Some)
next
  case (places j now j1 cs made j2 p answers)
  then show ?thesis
    using assms(2) inv_begin [of hash j "sys_disk s" "sys_owed s" now j1 cs made j2 p answers]
    by (simp add: sys_inv_Some)
next
  case (lands j p captured answers j' answers')
  then show ?thesis
    using assms(2) inv_lands [of hash j "sys_disk s" "sys_owed s" p "accepted captured answers" answers j' answers']
    by (simp add: sys_inv_Some)
next
  case (fails j p captured answers err j' answers' disk)
  then have "j' = j\<lparr> j_completed := j_completed j + 1 \<rparr>" "accepted captured answers' = []"
    using accepted_failed by (auto simp: complete_def Let_def)
  then show ?thesis
    using fails assms(2) inv_torn_ring [of hash j "sys_disk s" "sys_owed s" disk] by (simp add: sys_inv_Some)
next
  case (hints j now j' disk)
  then have "journal_inv hash j (sys_disk s) (sys_owed s)" using assms(2) by (simp add: sys_inv_Some)
  from inv_hint [OF this hints(4,5)] show ?thesis using hints by (simp add: sys_inv_Some)
next
  case (hint_fails j e now err j' err' disk)
  then have "journal_inv hash j (sys_disk s) (sys_owed s)" using assms(2) by (simp add: sys_inv_Some)
  from inv_hint_fails [OF this hint_fails(4,5,6)] show ?thesis using hint_fails by (simp add: sys_inv_Some)
next
  case (trims j vm covered)
  then show ?thesis using assms(2) inv_trim by (simp add: sys_inv_Some)
next
  case (fences j request j')
  then obtain f where "j' = j\<lparr> j_fences := f \<rparr>" using read_fence_keeps by blast
  then show ?thesis using fences assms(2) by (simp add: sys_inv_Some)
next
  case (closes j now j' is_empty disk)
  then have "journal_inv hash j (sys_disk s) (sys_owed s)" using assms(2) by (simp add: sys_inv_Some)
  then have "journal_inv hash j' disk (sys_owed s)" using closes(4,5) by (rule inv_close(1))
  then show ?thesis using inv_recoverable [OF _ torn_slot_refl] closes by (simp add: sys_inv_def)
next
  case (crashes j disk disk')
  then show ?thesis
    using assms(2) inv_recoverable [OF inv_torn_ring, of hash j "sys_disk s" "sys_owed s" disk disk']
    by (simp add: sys_inv_def)
qed

definition sys_starts :: "(bytes \<Rightarrow> identity) \<Rightarrow> jsys \<Rightarrow> bool" where
  "sys_starts hash s \<longleftrightarrow> blank hash (sys_disk s) \<and> s = sys_start (sys_disk s)"

interpretation journal_system: invariant_system "sys_starts hash" "jstep hash" "sys_inv hash" for hash
proof
  show "sys_inv hash s" if "sys_starts hash s" for s
    using that sys_inv_start [of hash "sys_disk s"] by (simp add: sys_starts_def)
  show "sys_inv hash s'" if "sys_inv hash s" "jstep hash s s'" for s s'
    using jstep_keeps_inv that by blast
qed

lemma sys_starts_start: "blank hash disk \<Longrightarrow> sys_starts hash (sys_start disk)"
  by (simp add: sys_starts_def sys_start_def)

lemma reaches_inv: "blank hash disk \<Longrightarrow> reaches hash disk s \<Longrightarrow> sys_inv hash s"
  unfolding reaches_def by (rule journal_system.inv_reached [OF sys_starts_start])

end
