(* ===== verification/Journal_Fence.thy ===== *)
theory Journal_Fence
  imports Journal_System
begin

text \<open>
  What a read's fence keeps out: while the journal it fenced stays open, no entry of the VM at
  an older epoch is answered for any more, apart from the batch that was already placed.
\<close>

definition in_flight :: "jsys \<Rightarrow> (nat \<times> Entry) list" where
  "in_flight s = (case sys_flight s of None \<Rightarrow> [] | Some (p, captured, answers) \<Rightarrow> accepted captured answers)"

definition jstep_open :: "(bytes \<Rightarrow> identity) \<Rightarrow> jsys \<Rightarrow> jsys \<Rightarrow> bool" where
  "jstep_open hash s s' \<longleftrightarrow> jstep hash s s' \<and> sys_journal s' \<noteq> None"

definition older :: "string \<Rightarrow> u64 \<Rightarrow> nat \<times> Entry \<Rightarrow> bool" where
  "older vm fence pe \<longleftrightarrow> entry_VM (snd pe) = vm \<and> entry_Epoch (snd pe) < fence"

definition fence_holds :: "string \<Rightarrow> u64 \<Rightarrow> (nat \<times> Entry) set \<Rightarrow> jsys \<Rightarrow> bool" where
  "fence_holds vm fence before s \<longleftrightarrow>
     (\<exists>j. sys_journal s = Some j \<and> fence \<le> fence_of j vm)
     \<and> (\<forall>pe \<in> set (sys_owed s @ in_flight s). older vm fence pe \<longrightarrow> pe \<in> before)"

section \<open>A batch holds nothing that was fenced when it was placed\<close>

lemma accepted_Cons: "accepted (c # cs) (a # as) = accepted1 c a @ accepted cs as"
  by (simp add: accepted_def)

lemma accepted1_fenced:
  assumes "lay_commit hash j c st = (st', a)" "pe \<in> set (accepted1 c a)"
  shows "fence_of j (entry_VM (snd pe)) \<le> entry_Epoch (snd pe)"
proof -
  obtain es ps where ca: "c = Inr es" "a = Inr ps"
    using assms(2) by (auto simp: accepted1_def split: sum.splits)
  then have "fenced j es = None" using assms(1) by (auto simp: lay_commit_def split: option.splits)
  moreover have "snd pe \<in> set es" 
    using assms(2) ca set_zip_rightD [of "fst pe" "snd pe" ps es] by (simp add: accepted1_def)
  ultimately show ?thesis by (auto simp: fenced_def not_less split: if_splits)
qed

lemma accepted_fenced:
  "lay_commits hash j cs st = (st', as) \<Longrightarrow> pe \<in> set (accepted cs as) \<Longrightarrow>
     fence_of j (entry_VM (snd pe)) \<le> entry_Epoch (snd pe)"
proof (induction cs arbitrary: st st' as)
  case Nil
  then show ?case by (simp add: accepted_def)
next
  case (Cons c cs)
  obtain st1 a where one: "lay_commit hash j c st = (st1, a)" by fastforce
  obtain st2 rest where more: "lay_commits hash j cs st1 = (st2, rest)" by fastforce
  have "as = a # rest" using Cons.prems(1) one more by simp
  then show ?case
    using Cons.prems(2) accepted1_fenced [OF one, of pe] Cons.IH [OF more] by (auto simp: accepted_Cons)
qed

lemma place_fenced:
  assumes "place hash j cs = (p, as)" "pe \<in> set (accepted cs as)"
  shows "fence_of j (entry_VM (snd pe)) \<le> entry_Epoch (snd pe)"
proof -
  obtain st' as' where lay: "lay_commits hash j cs (pad_failed hash (j_generation j) (j_ringLength j) (j_next j)
      \<lparr> lay_image = [], lay_position = j_written j, lay_entries = [] \<rparr>) = (st', as')" by fastforce
  then have "as' = as" using assms(1) by (auto simp: place_def Let_def split: if_splits)
  then show ?thesis using accepted_fenced [OF lay] assms(2) by simp
qed

section \<open>No step lowers a fence\<close>

lemma fence_of_cong: "j_fences j' = j_fences j \<Longrightarrow> fence_of j' vm = fence_of j vm"
  by (simp add: fence_of_def)

lemma read_fence_mono:
  assumes "read_fence j request = Inr j'"
  shows "fence_of j vm \<le> fence_of j' vm" "read_Reader request \<le> fence_of j' (read_VM request)"
  using assms by (auto simp: read_fence_def fence_of_def update_conv not_less split: if_splits option.splits)

lemma writeHeader_fences:
  "writeHeader hash j disk e now fault = (j', r) \<Longrightarrow> j_fences j' = j_fences j"
  by (auto simp: writeHeader_def writeSlot_def CheckLease_def Let_def split: sum.splits prod.splits option.splits if_splits)

lemma complete_fences: "complete j p answers err = (j', answers') \<Longrightarrow> j_fences j' = j_fences j"
  by (auto simp: complete_def Let_def split: option.splits)

lemma begin_batch_fences: "begin_batch hash j cs made = (j', p, answers) \<Longrightarrow> j_fences j' = j_fences j"
  by (auto simp: begin_batch_def Let_def split: prod.splits)

lemma Trim_fences [simp]: "fence_of (Trim j vm covered) = fence_of j"
  by (rule ext, rule fence_of_cong) (simp add: Trim_def Let_def)

lemma complete_owed:
  assumes "complete j p answers err = (j', answers')"
  shows "set (accepted captured answers') \<subseteq> set (accepted captured answers)"
  using assms accepted_failed [of captured _ answers] by (simp add: complete_def Let_def split: option.splits) auto

lemma jstep_open_fence:
  assumes "jstep_open hash s s'" "fence_holds vm fence before s"
  shows "fence_holds vm fence before s'"
proof -
  have step: "jstep hash s s'" and stays: "sys_journal s' \<noteq> None" using assms(1) by (simp_all add: jstep_open_def)
  obtain j0 where j0: "sys_journal s = Some j0" "fence \<le> fence_of j0 vm"
    using assms(2) by (auto simp: fence_holds_def)
  have known: "\<And>pe. pe \<in> set (sys_owed s) \<or> pe \<in> set (in_flight s) \<Longrightarrow> older vm fence pe \<Longrightarrow> pe \<in> before"
    using assms(2) by (auto simp: fence_holds_def)
  from step show ?thesis
  proof cases
    case (places j now j1 cs made j2 p answers)
    obtain q where "j1 = j\<lparr> j_queue := q \<rparr>" using nextBatch_keeps [OF places(5)] by blast
    then have same: "fence_of j2 vm = fence_of j vm" "fence_of j1 vm = fence_of j vm"
      using begin_batch_fences [OF places(7)] by (simp_all add: fence_of_def)
    have "place hash j1 (map2 capture cs made) = (p, answers)"
      using places(7) by (auto simp: begin_batch_def split: prod.splits)
    from place_fenced [OF this] have "\<not> older vm fence pe" if "pe \<in> set (accepted (map2 capture cs made) answers)" for pe
      using that j0 places(2) same(2) by (fastforce simp: older_def)
    then show ?thesis using places j0 same known by (auto simp: fence_holds_def in_flight_def)
  next
    case (fences j request j')
    then show ?thesis
      using read_fence_mono(1) [OF fences(3), of vm] j0 known by (auto simp: fence_holds_def in_flight_def)
  next
    case (lands j p captured answers j' answers')
    then show ?thesis
      using fence_of_cong [OF complete_fences [OF lands(4)]] j0 known complete_owed [OF lands(4), of captured]
      by (auto simp: fence_holds_def in_flight_def)
  next
    case (fails j p captured answers err j' answers' disk)
    then show ?thesis
      using fence_of_cong [OF complete_fences [OF fails(5)]] j0 known complete_owed [OF fails(5), of captured]
      by (auto simp: fence_holds_def in_flight_def)
  next
    case (waits j now j' a)
    obtain q where "j' = j\<lparr> j_queue := q \<rparr>" using nextBatch_keeps [OF waits(4)] by blast
    then show ?thesis using waits j0 known by (auto simp: fence_holds_def in_flight_def fence_of_def)
  next
    case (commits j ident r j')
    obtain q where "j' = j\<lparr> j_queue := q \<rparr>" using CommitHooked_keeps [OF commits(3)] by blast
    then show ?thesis using commits j0 known by (auto simp: fence_holds_def in_flight_def fence_of_def)
  next
    case (gives_up j ident)
    then show ?thesis using j0 known by (auto simp: fence_holds_def in_flight_def fence_of_def give_up_def)
  next
    case (hints j now j' disk)
    then show ?thesis
      using fence_of_cong [OF writeHeader_fences [OF hints(5)]] j0 known by (auto simp: fence_holds_def in_flight_def)
  next
    case (hint_fails j e now err j' err' disk)
    then show ?thesis
      using fence_of_cong [OF writeHeader_fences [OF hint_fails(5)]] j0 known by (auto simp: fence_holds_def in_flight_def)
  next
    case (trims j vm' covered)
    then have "in_flight s' = in_flight s" by (simp add: in_flight_def)
    then show ?thesis using trims j0 known by (auto simp: fence_holds_def trim_owed_def)
  qed (use j0 stays in simp_all)
qed

interpretation fence: invariant_system
  "fence_holds vm fence before" "jstep_open hash" "fence_holds vm fence before" for vm fence before hash
  by unfold_locales (auto intro: jstep_open_fence)

end
