(* ===== verification/Journal_Progress.thy ===== *)
theory Journal_Progress
  imports Journal_System
begin

text \<open>
  The writer's loop (\<^verbatim>\<open>run\<close> of \<^verbatim>\<open>journal/writer.go\<close>) gets on: once nothing is live, the
  commit at the head of the queue is taken within four passes a second apart, whatever the
  ring was full of before. A pass may have to write the tail hint, pad over a failed range, and
  write the hint again first.
\<close>

section \<open>Queued commits fit on the ring\<close>

definition queue_ok :: "journal \<Rightarrow> bool" where
  "queue_ok j \<longleftrightarrow> (\<forall>c \<in> set (j_queue j). reserve (commit_room c) (commit_room c) \<le> j_ringLength j)"

definition sys_queue_ok :: "jsys \<Rightarrow> bool" where
  "sys_queue_ok s \<longleftrightarrow> (\<forall>j. sys_journal s = Some j \<longrightarrow> queue_ok j)"

lemma queue_ok_cong: "j_queue j' = j_queue j \<Longrightarrow> j_ringLength j' = j_ringLength j \<Longrightarrow> queue_ok j' = queue_ok j"
  by (simp add: queue_ok_def)

lemma queue_ok_nextBatch:
  assumes "nextBatch j now = (j', a)" "queue_ok j"
  shows "queue_ok j'"
proof (rule nextBatch_queue [OF assms(1)])
  show "queue_ok (j\<lparr> j_queue := drop (fitting j) (j_queue j) \<rparr>)"
    using assms(2) by (auto simp: queue_ok_def dest: in_set_dropD)
  show "queue_ok (j\<lparr> j_queue := (hd (j_queue j))\<lparr> commit_full := True \<rparr> # tl (j_queue j) \<rparr>)"
    if "j_queue j \<noteq> []"
    using assms(2) that by (cases "j_queue j") (auto simp: queue_ok_def)
qed (use assms(2) in \<open>simp_all add: queue_ok_def\<close>)

lemma writeHeader_queue:
  "writeHeader hash j disk e now fault = (j', r) \<Longrightarrow> j_queue j' = j_queue j \<and> j_ringLength j' = j_ringLength j"
  by (auto simp: writeHeader_def writeSlot_def CheckLease_def Let_def split: sum.splits prod.splits option.splits if_splits)

lemma complete_queue:
  "complete j p answers err = (j', answers') \<Longrightarrow> j_queue j' = j_queue j \<and> j_ringLength j' = j_ringLength j"
  by (auto simp: complete_def Let_def split: option.splits)

lemma begin_batch_queue:
  "begin_batch hash j cs made = (j', p, answers) \<Longrightarrow> j_queue j' = j_queue j \<and> j_ringLength j' = j_ringLength j"
  by (auto simp: begin_batch_def Let_def split: prod.splits)

lemma Open_queue:
  assumes "journal_Open hash disk config entropy now fault = Inr (j, disk')"
  shows "j_queue j = []"
proof -
  obtain found current f where "readBack hash ((new_journal config found current f now)\<lparr> j_header := lease_slot config found,
        j_current := 1 - current \<rparr>) disk' = Inr j" using assms by (rule Open_Inr)
  then show ?thesis by (auto simp: readBack_def Let_def new_journal_def split: sum.splits)
qed

lemma CommitHooked_queue: "CommitHooked j ident r = Inr j' \<Longrightarrow> queue_ok j \<Longrightarrow> queue_ok j'"
  by (auto simp: CommitHooked_def queue_ok_def split: if_splits option.splits)

lemma jstep_queue_ok:
  assumes "jstep hash s s'" "sys_queue_ok s"
  shows "sys_queue_ok s'"
  using assms(1)
proof cases
  case (opens config entropy now j disk)
  then show ?thesis using Open_queue by (fastforce simp: sys_queue_ok_def queue_ok_def)
next
  case (commits j ident r j')
  then show ?thesis using assms(2) CommitHooked_queue by (simp add: sys_queue_ok_def)
next
  case (gives_up j ident)
  then show ?thesis using assms(2) by (simp add: sys_queue_ok_def queue_ok_def give_up_def)
next
  case (waits j now j' a)
  then show ?thesis using assms(2) queue_ok_nextBatch by (simp add: sys_queue_ok_def)
next
  case (places j now j1 cs made j2 p answers)
  then have "queue_ok j1" using assms(2) queue_ok_nextBatch by (simp add: sys_queue_ok_def)
  then show ?thesis using places begin_batch_queue [OF places(7)] by (simp add: sys_queue_ok_def queue_ok_def)
next
  case (lands j p captured answers j' answers')
  then show ?thesis using assms(2) complete_queue [OF lands(4)] by (simp add: sys_queue_ok_def queue_ok_def)
next
  case (fails j p captured answers err j' answers' disk)
  then show ?thesis using assms(2) complete_queue [OF fails(5)] by (simp add: sys_queue_ok_def queue_ok_def)
next
  case (hints j now j' disk)
  then show ?thesis using assms(2) writeHeader_queue [OF hints(5)] by (simp add: sys_queue_ok_def queue_ok_def)
next
  case (hint_fails j e now err j' err' disk)
  then show ?thesis using assms(2) writeHeader_queue [OF hint_fails(5)] by (simp add: sys_queue_ok_def queue_ok_def)
next
  case (fences j request j')
  then obtain f where "j' = j\<lparr> j_fences := f \<rparr>" using read_fence_keeps by blast
  then show ?thesis using fences assms(2) by (simp add: sys_queue_ok_def queue_ok_def)
qed (use assms(2) in \<open>simp_all add: sys_queue_ok_def queue_ok_def\<close>)

interpretation queued: relative_invariant "sys_starts hash" "jstep hash" "sys_inv hash" sys_queue_ok for hash
proof
  show "sys_queue_ok s" if "sys_starts hash s" for s
  proof -
    have "s = sys_start (sys_disk s)" using that by (simp add: sys_starts_def)
    then have "sys_journal s = None" by (metis jsys.select_convs(2) sys_start_def)
    then show ?thesis by (simp add: sys_queue_ok_def)
  qed
qed (use jstep_queue_ok in blast)

lemma reaches_queue_ok:
  "blank hash disk \<Longrightarrow> reaches hash disk s \<Longrightarrow> sys_journal s = Some j \<Longrightarrow> queue_ok j"
  using queued.both.inv_reached [OF sys_starts_start] unfolding reaches_def sys_queue_ok_def by blast

section \<open>The writer's passes\<close>

text \<open>One turn of the writer's loop whose writes land; \<open>made\<close> is what each commit's capture makes.\<close>

definition writer_pass :: "(bytes \<Rightarrow> identity) \<Rightarrow> (commit \<Rightarrow> error + Entry list) \<Rightarrow> nat \<Rightarrow> journal \<times> disk \<Rightarrow>
    journal \<times> disk" where
  "writer_pass hash made now jd =
     (let (j, disk) = jd; (j, a) = nextBatch j now
      in case a of
           WriteTailHint \<Rightarrow>
             (case writeHeader hash j disk False now None of
                (j, Inl _) \<Rightarrow> (j, disk)
              | (j, Inr disk) \<Rightarrow> (j, disk))
         | Batch cs \<Rightarrow>
             let (j, p, answers) = begin_batch hash j cs (map made cs)
             in (fst (complete j p answers None), batch_written j p disk)
         | _ \<Rightarrow> (j, disk))"

fun writer_passes :: "(bytes \<Rightarrow> identity) \<Rightarrow> (commit \<Rightarrow> error + Entry list) \<Rightarrow> nat list \<Rightarrow> journal \<times> disk \<Rightarrow>
    journal \<times> disk" where
  "writer_passes hash made [] jd = jd"
| "writer_passes hash made (now # ticks) jd = writer_passes hash made ticks (writer_pass hash made now jd)"

fun spaced :: "nat \<Rightarrow> nat list \<Rightarrow> bool" where
  "spaced since [] \<longleftrightarrow> True"
| "spaced since (now # ticks) \<longleftrightarrow> since + tailHintInterval \<le> now \<and> spaced now ticks"

definition takes_head :: "journal \<Rightarrow> nat \<Rightarrow> bool" where
  "takes_head j now \<longleftrightarrow> (case nextBatch j now of (_, Batch cs) \<Rightarrow> cs \<noteq> [] \<and> hd cs = hd (j_queue j) | _ \<Rightarrow> False)"

text \<open>How many passes the head commit may still wait for.\<close>

definition waiting :: "journal \<Rightarrow> nat" where
  "waiting j = (if j_written j < j_next j then 2 else 0) + (if j_tail j \<noteq> slot_tail (j_header j) then 1 else 0)"

definition drained :: "(bytes \<Rightarrow> identity) \<Rightarrow> journal \<times> disk \<Rightarrow> bool" where
  "drained hash jd \<longleftrightarrow> journal_inv hash (fst jd) (snd jd) [] \<and> live_of (fst jd) = [] \<and> refusal (fst jd) = None
     \<and> queue_ok (fst jd) \<and> j_queue (fst jd) \<noteq> []
     \<and> j_next (fst jd) + j_ringLength (fst jd) + ringOffset \<le> 2 ^ 64
     \<and> unat (slot_counter (j_header (fst jd))) + waiting (fst jd) < 2 ^ 64 - 1"

lemma fitting_head:
  assumes "j_queue j = c # q" "j_next j + reserve (commit_room c) (commit_room c) \<le> slot_tail (j_header j) + j_ringLength j"
  shows "0 < fitting j"
proof -
  have "n \<le> fitting_from j r m n cs" for r m n cs
    by (induction cs arbitrary: r m n) (auto intro: Suc_leD)
  then show ?thesis using assms by (simp add: fitting_def Suc_le_eq [symmetric])
qed

lemma nextBatch_takes:
  assumes "refusal j = None" "0 < fitting j" "j_queue j \<noteq> []" "j_tail j = slot_tail (j_header j)"
  shows "takes_head j now"
  using assms by (simp add: takes_head_def nextBatch_def Let_def hd_take)

lemma drained_tail: "drained hash (j, disk) \<Longrightarrow> j_tail j = j_written j"
  by (simp add: drained_def journal_inv_def tail_ok_def)

lemma drained_fits:
  assumes "drained hash (j, disk)" "waiting j = 0"
  shows "takes_head j now"
proof -
  obtain c q where q: "j_queue j = c # q" using assms(1) by (cases "j_queue j") (auto simp: drained_def)
  have at: "j_tail j = slot_tail (j_header j)" "\<not> j_written j < j_next j"
    using assms(2) by (auto simp: waiting_def split: if_splits)
  moreover have "j_written j \<le> j_next j" using assms(1) by (auto simp: drained_def journal_inv_def cursor_ok_def)
  ultimately have "j_next j = slot_tail (j_header j)" using drained_tail [OF assms(1)] by simp
  moreover have "reserve (commit_room c) (commit_room c) \<le> j_ringLength j"
    using assms(1) q by (simp add: drained_def queue_ok_def)
  ultimately show ?thesis
    using assms(1) at q by (intro nextBatch_takes fitting_head [OF q]) (simp_all add: drained_def)
qed

text \<open>A pass that writes the tail hint.\<close>

lemma pass_hints:
  assumes drained: "drained hash (j, disk)" and moved: "j_tail j \<noteq> slot_tail (j_header j)"
    and late: "j_headerAt j + tailHintInterval \<le> now"
    and pass: "writer_pass hash made now (j, disk) = (j', disk')"
  shows "drained hash (j', disk')" "waiting j' < waiting j" "j_headerAt j' \<le> now" "hd (j_queue j') = hd (j_queue j)"
proof -
  have inv: "journal_inv hash j disk []" and refusal: "refusal j = None" and left:
    "unat (slot_counter (j_header j)) + waiting j < 2 ^ 64 - 1" using drained by (simp_all add: drained_def)
  have "tailHintInterval \<le> now - j_headerAt j" using late by linarith
  then have "nextBatch j now = (j, WriteTailHint)"
    using moved refusal by (simp add: nextBatch_def Let_def)
  then have written: "writeHeader hash j disk False now None = (j', Inr disk')"
    using pass by (simp add: writer_pass_def writeHeader_held [OF inv] writeSlot_def Let_def)
  have counter: "unat (slot_counter (j_header j) + 1) = unat (slot_counter (j_header j)) + 1"
    using left by (simp add: unat_word_ariths)
  have "counter_left j" using counter by (auto simp: counter_left_def)
  from inv_hint [OF inv this written] have inv': "journal_inv hash j' disk' []" .
  have j': "j' = j\<lparr> j_headerAt := now, j_header := (j_header j)\<lparr> slot_tail := j_tail j, slot_empty := False,
      slot_counter := slot_counter (j_header j) + 1, slot_lease := j_lease j \<rparr>, j_current := 1 - j_current j \<rparr>"
    using written unfolding writeHeader_held [OF inv] by (auto simp: writeSlot_def next_slot_def Let_def)
  have waits: "waiting j' + 1 = waiting j" using moved by (simp add: waiting_def j')
  show "waiting j' < waiting j" using waits by simp
  show "drained hash (j', disk')"
  proof -
    have "refusal j' = refusal j" "live_of j' = live_of j" "queue_ok j' = queue_ok j" "j_queue j' = j_queue j"
      by (simp_all add: j' refusal_def live_of_def queue_ok_def)
    moreover have "unat (slot_counter (j_header j')) = unat (slot_counter (j_header j)) + 1" "j_next j' = j_next j"
      "j_ringLength j' = j_ringLength j" using counter by (simp_all add: j')
    ultimately show ?thesis using drained inv' waits by (simp add: drained_def)
  qed
  show "j_headerAt j' \<le> now" "hd (j_queue j') = hd (j_queue j)" by (simp_all add: j')
qed

text \<open>A pass that pads over a failed range.\<close>

lemma pass_pads:
  assumes drained: "drained hash (j, disk)" and failed: "j_written j < j_next j"
    and batch: "nextBatch j now = (j, Batch [])"
    and pass: "writer_pass hash made now (j, disk) = (j', disk')"
  shows "drained hash (j', disk')" "waiting j' < waiting j" "j_headerAt j' = j_headerAt j" "hd (j_queue j') = hd (j_queue j)"
proof -
  have inv: "journal_inv hash j disk []" and fits: "j_next j + j_ringLength j + ringOffset \<le> 2 ^ 64"
    using drained by (simp_all add: drained_def)
  have ok: "ring_ok (j_ringLength j)" "cursor_ok j" "minRingSize \<le> j_ringLength j"
    using inv by (simp_all add: journal_inv_def ring_ok_def)
  have "slot_tail (j_header j) \<le> j_next j" using inv_tail [OF inv] by linarith
  then have left: "positions_left j" using fits by (simp add: positions_left_def)
  obtain p as where p: "place hash j [] = (p, as)" "as = []" "placed_ok hash j (j_next j + reserve 0 0) p []"
    "place_image p \<noteq> [] \<longrightarrow> place_end p = j_next j"
    using place_ok [OF ok(1,2), of "[]" 0 hash] ok(3) fits by (auto simp: reserve_def accepted_def)
  have image: "place_image p \<noteq> []" using p(3) failed by (auto simp: placed_ok_def)
  have entries: "place_entries p = []" using p(3) image by (auto simp: placed_ok_def laid_def)
  define j2 where "j2 = j\<lparr> j_placed := j_placed j + 1, j_next := place_end p \<rparr>"
  have begins: "begin_batch hash j [] [] = (j2, p, [])" using p image by (simp add: begin_batch_def j2_def)
  from inv_begin [OF inv left batch begins] have inv2: "journal_inv hash j2 disk []" "flight_ok hash j2 p []"
    by (simp_all add: accepted_def)
  have lands: "complete j2 p [] None = (j', [])" "disk' = batch_written j2 p disk"
    using pass batch begins by (auto simp: writer_pass_def complete_def Let_def)
  from inv_lands(1) [OF inv2 lands(1)] have inv': "journal_inv hash j' disk' []" by (simp add: lands(2))
  have j': "j' = set_tail (j2\<lparr> j_completed := j_completed j2 + 1, j_written := place_end p \<rparr>)"
    using lands(1) image entries by (simp add: complete_def Let_def)
  have same: "j_next j' = j_next j" "j_written j' = j_next j" "live_of j' = []" "j_queue j' = j_queue j"
    "j_header j' = j_header j" "j_ringLength j' = j_ringLength j" "refusal j' = refusal j" "j_headerAt j' = j_headerAt j"
    using p(4) image drained by (simp_all add: j' j2_def refusal_def live_of_def [of "_\<lparr> j_written := _ \<rparr>"])
       (simp add: drained_def live_of_def)
  show less: "waiting j' < waiting j" using failed by (simp add: waiting_def same)
  show "drained hash (j', disk')"
    using drained inv' less by (simp add: drained_def same queue_ok_def)
  show "j_headerAt j' = j_headerAt j" "hd (j_queue j') = hd (j_queue j)" by (simp_all add: same)
qed

lemma pass_gets_on:
  assumes drained: "drained hash (j, disk)" and late: "j_headerAt j + tailHintInterval \<le> now"
    and pass: "writer_pass hash made now (j, disk) = (j', disk')" and waits: "\<not> takes_head j now"
  shows "drained hash (j', disk') \<and> waiting j' < waiting j \<and> j_headerAt j' \<le> now \<and> hd (j_queue j') = hd (j_queue j)"
proof (cases "j_tail j = slot_tail (j_header j)")
  case False
  then show ?thesis using pass_hints [OF drained False late pass] by blast
next
  case True
  have "refusal j = None" "j_queue j \<noteq> []" using drained by (simp_all add: drained_def)
  moreover have "fitting j = 0" using nextBatch_takes [of j now] calculation True waits by blast
  moreover have "j_written j < j_next j"
  proof (rule ccontr)
    assume "\<not> j_written j < j_next j"
    then have "waiting j = 0" using True by (simp add: waiting_def)
    then show False using drained_fits [OF drained, of now] waits by blast
  qed
  ultimately have "nextBatch j now = (j, Batch [])" using True by (simp add: nextBatch_def Let_def)
  from pass_pads [OF drained \<open>j_written j < j_next j\<close> this pass] late show ?thesis by simp
qed

lemma drained_takes:
  assumes "drained hash (j, disk)" "spaced (j_headerAt j) ticks" "waiting j < length ticks"
  shows "\<exists>k < length ticks. takes_head (fst (writer_passes hash made (take k ticks) (j, disk))) (ticks ! k)
    \<and> hd (j_queue (fst (writer_passes hash made (take k ticks) (j, disk)))) = hd (j_queue j)"
  using assms
proof (induction ticks arbitrary: j disk)
  case (Cons now ticks)
  show ?case
  proof (cases "takes_head j now")
    case True
    then show ?thesis by (intro exI [of _ 0]) simp
  next
    case False
    obtain j' disk' where pass: "writer_pass hash made now (j, disk) = (j', disk')" by fastforce
    have late: "j_headerAt j + tailHintInterval \<le> now" using Cons.prems(2) by simp
    from pass_gets_on [OF Cons.prems(1) late pass False] have on: "drained hash (j', disk')" "waiting j' < waiting j"
      "j_headerAt j' \<le> now" "hd (j_queue j') = hd (j_queue j)" by simp_all
    have "spaced (j_headerAt j') ticks" using Cons.prems(2) on(3) by (cases ticks) auto
    from Cons.IH [OF on(1) this] obtain k where "k < length ticks"
      "takes_head (fst (writer_passes hash made (take k ticks) (j', disk'))) (ticks ! k)"
      "hd (j_queue (fst (writer_passes hash made (take k ticks) (j', disk')))) = hd (j_queue j')"
      using on(2) Cons.prems(3) by auto
    then show ?thesis using pass on(4) by (intro exI [of _ "Suc k"]) simp
  qed
qed simp

end
