(* ===== verification/Journal_Theorems.thy ===== *)
theory Journal_Theorems
  imports Journal_Example
begin

text \<open>
  The properties of the journal. The ones about runs hold of every state a disk and its
  journal reach from a blank disk, through any openings, batches, failed writes, torn writes and
  crashes.
\<close>

section \<open>Reads\<close>

lemma reaches_journal_inv:
  "blank hash disk \<Longrightarrow> reaches hash disk s \<Longrightarrow> sys_journal s = Some j \<Longrightarrow> journal_inv hash j (sys_disk s) (sys_owed s)"
  using reaches_inv sys_inv_Some by blast

lemma Read_sorted:
  assumes inv: "journal_inv hash j disk owed"
  shows "sorted_wrt (<) (map entry_Position (map (entry_read hash disk (j_ringLength j)) (read_wanted j request)))"
proof -
  have ok: "index_ok j" using inv by (simp add: journal_inv_def)
  have "map (\<lambda>e. entry_Position (entry_read hash disk (j_ringLength j) e)) (read_wanted j request)
      = map indexed_position (read_wanted j request)"
  proof (rule map_cong [OF refl])
    fix e assume "e \<in> set (read_wanted j request)"
    then have "e \<in> set (live_of j)" by (auto simp: read_wanted_live [OF ok] owned_by_def)
    then show "entry_Position (entry_read hash disk (j_ringLength j) e) = indexed_position e"
      by (rule inv_live_reads [OF inv])
  qed
  moreover have "sorted_wrt (<) (map indexed_position (read_wanted j request))"
    unfolding read_wanted_live [OF ok] using ok
    by (simp add: index_ok_def owned_by_def live_of_def sorted_wrt_map sorted_wrt_filter)
  ultimately show ?thesis unfolding map_map comp_def by (simp only:)
qed

text \<open>
  C5. An entry a commit was answered for is served: in every state that a journal disk reaches,
  whatever crashes and failed writes lie before, a read of its VM and epoch from before its
  position succeeds and returns the entry as it was committed, at its position, among entries in
  position order, for as long as no trim has named it.
\<close>

theorem acknowledged_entries_are_served:
  assumes "blank hash disk" "reaches hash disk s" "sys_journal s = Some j" "(p, e) \<in> set (sys_owed s)"
    and "read_fence j request = Inr j'" "read_VM request = entry_VM e" "read_Epoch request = entry_Epoch e"
    "read_After request < p"
  shows "\<exists>es. journal_Read hash j (sys_disk s) request (\<lambda>_. None) = (j', es, None)
    \<and> e\<lparr> entry_Position := p \<rparr> \<in> set es \<and> sorted_wrt (<) (map entry_Position es)"
proof -
  note inv = reaches_journal_inv [OF assms(1-3)]
  let ?read = "entry_read hash (sys_disk s) (j_ringLength j)"
  have ok: "index_ok j" using inv by (simp add: journal_inv_def)
  have "indexed_of (p, e) \<in> set (live_of j)" using inv assms(4) by (auto simp: journal_inv_def)
  then have "indexed_of (p, e) \<in> set (read_wanted j request)"
    using assms(6-8) by (simp add: read_wanted_live [OF ok] owned_by_def indexed_of_def)
  moreover have "?read (indexed_of (p, e)) = e\<lparr> entry_Position := p \<rparr>"
    using owed_entry_read [of hash "j_generation j" "j_ringLength j" "sys_disk s" "(p, e)"] inv assms(4)
    by (simp add: journal_inv_def owed_on_def)
  ultimately have "e\<lparr> entry_Position := p \<rparr> \<in> set (map ?read (read_wanted j request))" by force
  then show ?thesis using Read_serves [OF inv assms(5)] Read_sorted [OF inv] by blast
qed

definition ex_request :: ReadRequest where
  "ex_request = \<lparr> read_VM = ''a'', read_Epoch = 1, read_After = 0, read_Generation = 7, read_Reader = 2 \<rparr>"

lemma ex_read_fence: "read_fence ex_j3 ex_request = Inr (ex_j3\<lparr> j_fences := [(''a'', 2)] \<rparr>)"
  "read_fence ex_j2 ex_request = Inr (ex_j2\<lparr> j_fences := [(''a'', 2)] \<rparr>)"
  by (simp_all add: read_fence_def ex_request_def ex_j3_def ex_j2_def ex_j0_def refusal_def fence_of_def word_le_nat_alt)

theorem acknowledged_entries_are_served_witness:
  "\<exists>es. journal_Read ex_hash ex_j3 ex_disk2 ex_request (\<lambda>_. None) = (ex_j3\<lparr> j_fences := [(''a'', 2)] \<rparr>, es, None)
    \<and> ex_entry\<lparr> entry_Position := 16384 \<rparr> \<in> set es \<and> sorted_wrt (<) (map entry_Position es)"
  using acknowledged_entries_are_served [OF ex_blank ex_reaches3, of ex_j3 16384 ex_entry ex_request] ex_read_fence(1)
  by (simp add: ex_s3_def ex_request_def ex_entry_simps)

text \<open>
  C11. A read fences its VM: while the journal stays open, whatever else happens, no entry of the
  VM at an epoch older than the reader's is answered for any more, apart from the batch that was
  in flight when the read came, which the read waits for.
\<close>

theorem fenced_epoch_takes_no_more:
  assumes "sys_journal s = Some j" "read_fence j request = Inr j'"
    and "(jstep_open hash)\<^sup>*\<^sup>* (s\<lparr> sys_journal := Some j' \<rparr>) s'"
    and "(p, e) \<in> set (sys_owed s')" "entry_VM e = read_VM request" "entry_Epoch e < read_Reader request"
  shows "(p, e) \<in> set (sys_owed s) \<union> set (in_flight s)"
proof -
  let ?before = "set (sys_owed s) \<union> set (in_flight s)"
  have "fence_holds (read_VM request) (read_Reader request) ?before (s\<lparr> sys_journal := Some j' \<rparr>)"
    using read_fence_mono(2) [OF assms(2)] by (auto simp: fence_holds_def in_flight_def)
  from fence.inv_steps [OF assms(3) this] show ?thesis
    using assms(4-6) by (auto simp: fence_holds_def older_def)
qed

lemma ex_fenced_lands:
  "(jstep_open ex_hash)\<^sup>*\<^sup>* (ex_s2\<lparr> sys_journal := Some (ex_j2\<lparr> j_fences := [(''a'', 2)] \<rparr>) \<rparr>)
     (ex_s3\<lparr> sys_journal := Some (ex_j3\<lparr> j_fences := [(''a'', 2)] \<rparr>) \<rparr>)"
proof -
  let ?f = "\<lambda>j. j\<lparr> j_fences := [(''a'', 2 :: u64)] \<rparr>"
  let ?s = "ex_s2\<lparr> sys_journal := Some (?f ex_j2) \<rparr>"
  have "batch_written (?f ex_j2) ex_placement ex_disk1 = ex_disk2" by (simp add: ex_disk2_def batch_written_def)
  then have "jstep ex_hash ?s (ex_s3\<lparr> sys_journal := Some (?f ex_j3) \<rparr>)"
    using jstep.lands [of ?s "?f ex_j2" ex_placement "[Inr [ex_entry]]" "[Inr [16384]]" "?f ex_j3" "[Inr [16384]]" ex_hash]
      ex_complete_fences by (simp add: ex_s2_def ex_s3_def ex_s0_def accepted_def accepted1_def)
  then show ?thesis by (simp add: jstep_open_def r_into_rtranclp)
qed

theorem fenced_epoch_takes_no_more_witness:
  "(16384, ex_entry) \<in> set (sys_owed ex_s2) \<union> set (in_flight ex_s2)"
  using fenced_epoch_takes_no_more [OF _ ex_read_fence(2) ex_fenced_lands, of 16384 ex_entry]
  by (simp add: ex_s2_def ex_s3_def ex_request_def ex_entry_simps)

section \<open>Opening and closing\<close>

lemma readBack_succeeds:
  assumes "j_ringStart j + j_ringLength j \<le> length disk" "0 < j_ringLength j"
  shows "\<exists>j'. readBack hash j disk = Inr j'"
  using readBack_from_scan [OF assms new_reader_ok [OF assms(1)]]
  by (simp add: readBack_def Let_def new_reader_def case_prod_beta)

lemma header_fits_checks:
  assumes "header_fits h disk"
  shows "slot_ringStart h = int ringOffset" "int minRingSize \<le> slot_ringLength h"
    "slot_ringLength h mod int BlockBytes = 0" "slot_ringStart h + slot_ringLength h \<le> int (length disk)"
    "0 < nat (slot_ringLength h)" "ringOffset + nat (slot_ringLength h) \<le> length disk"
proof -
  obtain L where L: "slot_ringLength h = int L" using assms by (metis header_fits_def nonneg_int_cases)
  then have "slot_ringLength h mod int BlockBytes = int (L mod BlockBytes)" by (simp add: zmod_int)
  then show "slot_ringStart h = int ringOffset" "int minRingSize \<le> slot_ringLength h"
    "slot_ringLength h mod int BlockBytes = 0" "slot_ringStart h + slot_ringLength h \<le> int (length disk)"
    "0 < nat (slot_ringLength h)" "ringOffset + nat (slot_ringLength h) \<le> length disk"
    using assms L by (simp_all add: header_fits_def ring_ok_def)
qed

lemma Open_succeeds:
  assumes rec: "recoverable hash disk owed" and header: "open_header hash disk config entropy = Inr (found, current, f)"
  shows "\<exists>j disk'. journal_Open hash disk config entropy now None = Inr (j, disk')"
proof -
  let ?s = "lease_slot config found"
  let ?j = "(new_journal config found current f now)\<lparr> j_header := ?s, j_current := 1 - current \<rparr>"
  let ?disk = "write_at ((1 - current) * slotBytes) (encodeSlot hash ?s) disk"
  note takes = open_header_takes [OF rec header]
  have "ringOffset \<le> length disk" using rec by (simp add: recoverable_def)
  from lease_slot_written(3) [OF takes(1) this refl] have "length ?disk = length disk"
    by (simp add: same_ring_bytes_of_def)
  moreover have "header_fits found disk" using takes(2) by (simp add: serves_def)
  note fits = header_fits_checks [OF this]
  ultimately have "\<exists>j'. readBack hash ?j ?disk = Inr j'"
    using fits(1,5,6) by (intro readBack_succeeds) (simp_all add: new_journal_def)
  then obtain j' where "readBack hash ?j ?disk = Inr j'" by blast
  then show ?thesis
    by (auto simp: journal_Open_def header writeSlot_def next_slot_def new_journal_def lease_slot_def Let_def)
qed

text \<open>
  C13. A journal comes back: after any run that ends with the journal closed or lost, opening
  the disk as itself, under the lease it has or a newer one, succeeds, and the journal it
  gives holds every entry that is owed.
\<close>

theorem reopening_recovers:
  assumes "blank hash disk" "reaches hash disk s" "sys_journal s = None"
    and "\<And>h i. readHeader hash (sys_disk s) = Inr (h, i) \<Longrightarrow> slot_identity h = config_Identity config
      \<and> (lease_assigned (slot_lease h) < lease_assigned (config_Lease config) \<or> slot_lease h = config_Lease config)"
  shows "\<exists>j disk'. journal_Open hash (sys_disk s) config entropy now None = Inr (j, disk')
    \<and> indexed_of ` set (sys_owed s) \<subseteq> set (live_of j)"
proof -
  have rec: "recoverable hash (sys_disk s) (sys_owed s)"
    using reaches_inv [OF assms(1,2)] assms(3) by (simp add: sys_inv_def)
  have "\<exists>r. open_header hash (sys_disk s) config entropy = Inr r"
  proof (cases "readHeader hash (sys_disk s)")
    case (Inr hi)
    obtain h i where hi: "hi = (h, i)" by (cases hi)
    then have "header_fits h (sys_disk s)" using rec Inr by (simp add: recoverable_def serves_def)
    note fits = header_fits_checks [OF this]
    have "slot_identity h = config_Identity config" "\<not> lease_assigned (config_Lease config) < lease_assigned (slot_lease h)"
      "lease_assigned (slot_lease h) = lease_assigned (config_Lease config) \<Longrightarrow> slot_lease h = config_Lease config"
      using assms(4) [of h i] Inr hi by auto
    then show ?thesis using rec Inr hi fits by (auto simp: open_header_def recoverable_def Let_def)
  qed (use rec in \<open>auto simp: open_header_def recoverable_def Let_def\<close>)
  then obtain found current f where "open_header hash (sys_disk s) config entropy = Inr (found, current, f)" by auto
  from Open_succeeds [OF rec this] obtain j disk' where "journal_Open hash (sys_disk s) config entropy now None = Inr (j, disk')"
    by blast
  with open_reads [OF rec this] show ?thesis by blast
qed

lemma ex_inv3: "journal_inv ex_hash ex_j3 ex_disk2 [(16384, ex_entry)]"
  using reaches_journal_inv [OF ex_blank ex_reaches3] by (simp add: ex_s3_def)

definition ex_s4 :: jsys where
  "ex_s4 = \<lparr> sys_disk = ex_disk2, sys_journal = None, sys_flight = None, sys_owed = [(16384, ex_entry)] \<rparr>"

lemma ex_reaches4: "reaches ex_hash ex_disk ex_s4"
proof -
  have "jstep ex_hash ex_s3 (ex_s3\<lparr> sys_disk := ex_disk2, sys_journal := None, sys_flight := None \<rparr>)"
    by (rule jstep.crashes [of _ ex_j3 ex_disk2]) (simp_all add: ex_s3_def torn_ring_def torn_slot_def)
  then show ?thesis
    using ex_reaches3 unfolding reaches_def by (auto simp: ex_s3_def ex_s4_def intro: rtranclp.rtrancl_into_rtrancl)
qed

theorem reopening_recovers_witness:
  "\<exists>j disk'. journal_Open ex_hash ex_disk2 ex_config 7 0 None = Inr (j, disk') \<and> indexed_of (16384, ex_entry) \<in> set (live_of j)"
proof -
  obtain h i where h: "readHeader ex_hash ex_disk2 = Inr (h, i)" "own_header ex_j3 h" by (rule inv_readHeader [OF ex_inv3])
  have "slot_identity h = config_Identity ex_config" "slot_lease h = config_Lease ex_config"
    using h(2) by (simp_all add: own_header_def ex_j3_def ex_j2_def ex_j0_def ex_config_def)
  then show ?thesis
    using reopening_recovers [OF ex_blank ex_reaches4, of ex_config 7 0] h(1) by (simp add: ex_s4_def)
qed

lemma refused_forever:
  assumes "refusal j = Some err"
  shows "CommitHooked j ident r = Inl err \<or> CommitHooked j ident r = Inl [TooLarge]"
    "\<exists>err. read_fence j request = Inl err"
    "nextBatch j now = (j\<lparr> j_queue := [] \<rparr>, Stop err (j_queue j))"
  using assms by (simp_all add: CommitHooked_def read_fence_def nextBatch_def)

lemma Open_header:
  assumes rec: "recoverable hash disk owed" and open_: "journal_Open hash disk config entropy now fault = Inr (j, disk')"
    and counter: "slot_counter (j_header j) \<noteq> 0"
  shows "readHeader hash disk' = Inr (j_header j, j_current j)" "slot_lease (j_header j) = config_Lease config"
    "slot_identity (j_header j) = config_Identity config" "header_fits (j_header j) disk'"
proof -
  obtain found current hs where op: "opened hash disk config j disk' found current hs"
    and serves: "serves hash (j_header j) disk' owed"
    by (rule open_reads [OF rec open_])
  then have takes: "takes hash disk config found current" and header: "j_header j = lease_slot config found"
    by (simp_all add: opened_def)
  have cur: "1 - current < 2" "1 - (1 - current) = current" using takes by (auto simp: takes_def)
  have less: "slot_counter found < slot_counter (j_header j)"
    using counter plus_one_less [of "slot_counter found"] by (simp add: header lease_slot_def)
  have "readHeader hash disk' = Inr (j_header j, 1 - current)"
  proof (rule readHeader_two)
    show "ringOffset \<le> length disk'" using op rec by (simp add: opened_def recoverable_def)
    show "slot_at hash disk' (1 - current) = Inr (j_header j)" using op by (simp add: opened_def)
    show "slot_at hash disk' (1 - (1 - current)) = Inl [NoSlot]
        \<or> (\<exists>s. slot_at hash disk' (1 - (1 - current)) = Inr s \<and> slot_counter s < slot_counter (j_header j))"
      unfolding cur(2) using op takes less by (auto simp: opened_def takes_def)
  qed (use cur in simp)
  then show "readHeader hash disk' = Inr (j_header j, j_current j)" using op by (simp add: opened_def)
  show "slot_lease (j_header j) = config_Lease config" "slot_identity (j_header j) = config_Identity config"
    using takes by (simp_all add: header lease_slot_def takes_def)
  show "header_fits (j_header j) disk'" using serves by (simp add: serves_def)
qed

lemma CheckLease_lost:
  assumes "readHeader hash disk = Inr (h, i)" "slot_lease h \<noteq> j_lease j"
  shows "CheckLease hash j disk = (fst (CheckLease hash j disk), Inl [Leased])"
    "snd (writeHeader hash j disk e now fault) = Inl [Leased]"
    "\<exists>err. refusal (fst (CheckLease hash j disk)) = Some err"
  using assms by (auto simp: CheckLease_def writeHeader_def refusal_def Let_def split: option.splits)

text \<open>
  C12. A takeover stops the old holder: once another assignment has opened the disk, which takes a
  newer lease, the journal that was open on it finds its lease taken at its next check, writes
  no header over the new one, and from then on refuses every commit and read and gives up what is
  queued; and opening the disk under the old lease is refused.
\<close>

theorem takeover_stops_the_old_holder:
  assumes "blank hash disk" "reaches hash disk s" "sys_journal s = Some j"
    and "journal_Open hash (sys_disk s) config entropy now None = Inr (j2, disk')"
    and "slot_counter (j_header j2) \<noteq> 0" "config_Lease config \<noteq> j_lease j"
  shows "lease_assigned (j_lease j) < lease_assigned (config_Lease config)
    \<and> (\<exists>j' err. CheckLease hash j disk' = (j', Inl [Leased])
        \<and> (\<forall>e t fault. snd (writeHeader hash j disk' e t fault) = Inl [Leased])
        \<and> (\<forall>ident r. isl (CommitHooked j' ident r)) \<and> (\<forall>request. isl (read_fence j' request))
        \<and> (\<forall>t. nextBatch j' t = (j'\<lparr> j_queue := [] \<rparr>, Stop err (j_queue j'))))
    \<and> open_header hash disk' \<lparr> config_Identity = j_identity j, config_Lease = j_lease j \<rparr> entropy = Inl [Leased]"
proof -
  note inv = reaches_journal_inv [OF assms(1-3)]
  obtain h i where h: "readHeader hash (sys_disk s) = Inr (h, i)" "own_header j h" by (rule inv_readHeader [OF inv])
  have rec: "recoverable hash (sys_disk s) (sys_owed s)" by (rule inv_recoverable [OF inv torn_slot_refl])
  note new = Open_header [OF rec assms(4,5)]
  have older: "lease_assigned (j_lease j) < lease_assigned (config_Lease config)" and id: "config_Identity config = j_identity j"
  proof -
    obtain found current f where "open_header hash (sys_disk s) config entropy = Inr (found, current, f)"
      using assms(4) by (rule Open_Inr)
    then have "\<not> lease_assigned (config_Lease config) < lease_assigned (j_lease j)" "config_Identity config = j_identity j"
      "lease_assigned (j_lease j) = lease_assigned (config_Lease config) \<Longrightarrow> lease_member (j_lease j) = lease_member (config_Lease config)"
      using h by (auto simp: open_header_def own_header_def Let_def split: if_splits)
    then show "lease_assigned (j_lease j) < lease_assigned (config_Lease config)" "config_Identity config = j_identity j"
      using assms(6) by (auto intro: Lease.equality simp: not_less_iff_gr_or_eq)
  qed
  have "slot_lease (j_header j2) \<noteq> j_lease j" using new(2) assms(6) by simp
  note lost = CheckLease_lost [OF new(1) this]
  obtain err where err: "refusal (fst (CheckLease hash j disk')) = Some err" using lost(3) by blast
  have "isl (CommitHooked (fst (CheckLease hash j disk')) ident r)" for ident r
    using refused_forever(1) [OF err, of ident r] by auto
  moreover have "isl (read_fence (fst (CheckLease hash j disk')) request)" for request
    using refused_forever(2) [OF err, of request] by auto
  moreover have "open_header hash disk' \<lparr> config_Identity = j_identity j, config_Lease = j_lease j \<rparr> entropy = Inl [Leased]"
    using header_fits_checks [OF new(4)] new(1-3) older id by (simp add: open_header_def Let_def)
  ultimately show ?thesis using older lost(1,2) refused_forever(3) [OF err] by blast
qed

definition ex_config2 :: Config where
  "ex_config2 = \<lparr> config_Identity = 1, config_Lease = \<lparr> lease_assigned = 2, lease_member = 3 \<rparr> \<rparr>"

lemma ex_header1: "readHeader ex_hash ex_disk1 = Inr (ex_slot, 0)"
proof -
  have "recoverable ex_hash ex_disk []" using ex_blank by (simp add: blank_def recoverable_def)
  from Open_header(1) [OF this ex_open] show ?thesis by (simp add: ex_j0_def ex_slot_def)
qed

lemma ex_inv0: "journal_inv ex_hash ex_j0 ex_disk1 []"
  using reaches_journal_inv [OF ex_blank ex_reaches0] by (simp add: ex_s0_def)

lemma ex_takeover: "\<exists>j2 disk'. journal_Open ex_hash ex_disk1 ex_config2 7 0 None = Inr (j2, disk') \<and> slot_counter (j_header j2) \<noteq> 0"
proof -
  have rec: "recoverable ex_hash ex_disk1 []" by (rule inv_recoverable [OF ex_inv0 torn_slot_refl])
  have header: "open_header ex_hash ex_disk1 ex_config2 7 = Inr (ex_slot, 0, False)"
    by (simp add: open_header_def ex_header1 ex_config2_def ex_slot_def ex_lease_def Let_def)
  from Open_succeeds [OF rec this] obtain j2 disk' where op: "journal_Open ex_hash ex_disk1 ex_config2 7 0 None = Inr (j2, disk')"
    by blast
  obtain found' current' f where "open_header ex_hash ex_disk1 ex_config2 7 = Inr (found', current', f)"
    "readBack ex_hash ((new_journal ex_config2 found' current' f 0)\<lparr> j_header := lease_slot ex_config2 found',
        j_current := 1 - current' \<rparr>) disk' = Inr j2" using op by (rule Open_Inr)
  then have "j_header j2 = lease_slot ex_config2 ex_slot"
    using header by (auto simp: readBack_def Let_def split: sum.splits)
  then show ?thesis using op by (simp add: lease_slot_def ex_slot_def)
qed

theorem takeover_stops_the_old_holder_witness:
  "\<exists>j2 disk' j'. journal_Open ex_hash ex_disk1 ex_config2 7 0 None = Inr (j2, disk')
    \<and> CheckLease ex_hash ex_j0 disk' = (j', Inl [Leased]) \<and> isl (CommitHooked j' 1 200)"
proof -
  obtain j2 disk' where op: "journal_Open ex_hash ex_disk1 ex_config2 7 0 None = Inr (j2, disk')" "slot_counter (j_header j2) \<noteq> 0"
    using ex_takeover by blast
  moreover have "config_Lease ex_config2 \<noteq> j_lease ex_j0" by (simp add: ex_config2_def ex_j0_def ex_lease_def)
  ultimately show ?thesis
    using takeover_stops_the_old_holder [OF ex_blank ex_reaches0, of ex_j0 ex_config2 7 0 j2 disk'] by (simp add: ex_s0_def) blast
qed

text \<open>
  C14. A journal that closes empty owes nothing: when \<^verbatim>\<open>Close\<close> succeeds the header on the disk
  carries the tail and the empty flag, and the flag and the answer are set only when no entry
  any commit was answered for is left untrimmed. Deleting the disk then loses nothing.
\<close>

theorem closing_empty_owes_nothing:
  assumes "blank hash disk" "reaches hash disk s" "sys_journal s = Some j" "counter_left j"
    and "journal_Close hash j (sys_disk s) now None = (j', Inr (is_empty, disk'))"
  shows "(is_empty \<longrightarrow> sys_owed s = [])
    \<and> (\<exists>h i. readHeader hash disk' = Inr (h, i) \<and> slot_empty h = is_empty \<and> slot_tail h = j_tail j)"
proof -
  note inv = reaches_journal_inv [OF assms(1-3)]
  let ?j = "j\<lparr> j_closed := True, j_headerAt := now \<rparr>"
  have empty: "is_empty = (j_live j = [])" by (rule inv_close(2) [OF inv assms(4,5)])
  have owed: "sys_owed s = []" if is_empty
  proof -
    have "set (live_of j) = {}" using that empty by (simp add: live_of_def)
    then show ?thesis using inv by (simp add: journal_inv_def)
  qed
  have inv': "journal_inv hash ?j (sys_disk s) (sys_owed s)" using inv by simp
  have w: "disk' = write_at ((1 - j_current j) * slotBytes) (encodeSlot hash (tail_slot ?j is_empty)) (sys_disk s)"
    using assms(5) writeHeader_held [of hash "j\<lparr> j_closed := True \<rparr>" "sys_disk s" "sys_owed s"] inv
    by (auto simp: journal_Close_def writeSlot_def tail_slot_def Let_def split: if_splits option.splits)
  have cur: "j_current j < 2" "1 - (1 - j_current j) = j_current j" "1 - j_current j < 2"
    and slot: "slot_at hash (sys_disk s) (j_current j) = Inr (j_header j)"
    using inv by (auto simp: journal_inv_defs)
  note ring = inv_ring [OF inv]
  note written = slot_write [OF cur(3) _ inv_tail_slot(2) [OF inv'] w, unfolded cur(2)]
  have "readHeader hash disk' = Inr (tail_slot ?j is_empty, 1 - j_current j)"
  proof (rule readHeader_two)
    show "ringOffset \<le> length disk'" using written(3) ring by (simp add: same_ring_bytes_of_def)
    show "slot_at hash disk' (1 - (1 - j_current j)) = Inl [NoSlot] \<or> (\<exists>b. slot_at hash disk' (1 - (1 - j_current j)) = Inr b
        \<and> slot_counter b < slot_counter (tail_slot ?j is_empty))"
      unfolding cur(2) using written(2) slot ring counter_left_less [OF assms(4)] by (simp add: tail_slot_def next_slot_def)
  qed (use written(1) cur ring in simp_all)
  then show ?thesis using owed by (simp add: tail_slot_def next_slot_def)
qed

theorem closing_empty_owes_nothing_witness:
  "\<exists>j' disk' h i. journal_Close ex_hash ex_j0 ex_disk1 0 None = (j', Inr (True, disk'))
    \<and> readHeader ex_hash disk' = Inr (h, i) \<and> slot_empty h"
proof -
  have "counter_left ex_j0" by (simp add: counter_left_def ex_j0_def ex_slot_def)
  moreover have "journal_inv ex_hash (ex_j0\<lparr> j_closed := True \<rparr>) ex_disk1 []" using ex_inv0 by simp
  from writeHeader_held [OF this] obtain j' disk' where
    "writeHeader ex_hash (ex_j0\<lparr> j_closed := True \<rparr>) ex_disk1 True 0 None = (j', Inr disk')"
    by (simp add: writeSlot_def Let_def)
  then have "journal_Close ex_hash ex_j0 ex_disk1 0 None = (j', Inr (True, disk'))"
    by (simp add: journal_Close_def Let_def ex_j0_def)
  ultimately show ?thesis
    using closing_empty_owes_nothing [OF ex_blank ex_reaches0, of ex_j0 0 j' True disk'] by (simp add: ex_s0_def) blast
qed

section \<open>The index and the ring\<close>

text \<open>
  C19. The index is exact: in every state an open journal reaches, what it holds of a VM and
  epoch is the live entries of that VM and epoch and their total length, live entries are in
  position order, the tail is the first of them, and the durable tail, the tail, what is
  written and what is placed lie in that order.
\<close>

theorem index_is_exact:
  assumes "blank hash disk" "reaches hash disk s" "sys_journal s = Some j"
  shows "held_entries (held_of (j_held j) vm epoch) = owned_by vm epoch (live_of j)
    \<and> held_bytes (held_of (j_held j) vm epoch) = lengths (owned_by vm epoch (live_of j))
    \<and> sorted_wrt (<) (map indexed_position (live_of j))
    \<and> j_tail j = (case live_of j of [] \<Rightarrow> j_written j | e # _ \<Rightarrow> indexed_position e)
    \<and> slot_tail (j_header j) \<le> j_tail j \<and> j_tail j \<le> j_written j \<and> j_written j \<le> j_next j"
proof -
  note inv = reaches_journal_inv [OF assms]
  have "index_ok j" "tail_ok j" "cursor_ok j" using inv by (simp_all add: journal_inv_def)
  then show ?thesis
    using inv_tail [OF inv]
    by (auto simp: index_ok_def tail_ok_def cursor_ok_def live_of_def sorted_wrt_map sorted_wrt_filter)
qed

theorem index_is_exact_witness:
  "held_entries (held_of (j_held ex_j3) ''a'' 1) = owned_by ''a'' 1 (live_of ex_j3) \<and> j_tail ex_j3 = 16384"
  using index_is_exact [OF ex_blank ex_reaches3, of ex_j3 "''a''" 1]
  by (simp add: ex_s3_def ex_j3_def ex_j2_def ex_j0_def)

text \<open>
  C18. A batch stays in its place: an image the writer puts on the ring starts where the ring
  was written to, covers exactly the positions from its start to its end, ends at a 4 KiB
  boundary and no further than one ring past the durable tail, and each of its entries lies
  inside it without crossing the ring's end.
\<close>

theorem batch_stays_before_the_tail:
  assumes "blank hash disk" "reaches hash disk s" "sys_journal s = Some j"
    and "sys_flight s = Some (p, captured, answers)" "place_image p \<noteq> []"
  shows "place_start p = j_written j \<and> place_end p = j_written j + length (place_image p)
    \<and> BlockBytes dvd place_end p \<and> place_end p \<le> slot_tail (j_header j) + j_ringLength j
    \<and> (\<forall>e \<in> set (place_entries p). j_written j \<le> indexed_position e
          \<and> indexed_position e + indexed_length e \<le> place_end p
          \<and> indexed_position e mod j_ringLength j + indexed_length e \<le> j_ringLength j)"
proof -
  let ?puts = "accepted captured answers"
  have flight: "flight_ok hash j p ?puts" and inv: "journal_inv hash j (sys_disk s) (sys_owed s)"
    using reaches_inv [OF assms(1,2)] assms(3,4) by (simp_all add: sys_inv_Some)
  obtain j' answers' where "complete j p answers None = (j', answers')" by fastforce
  from inv_lands(1) [OF inv flight this] have
    stands: "stands hash (j_generation j') ringOffset (j_ringLength j') (batch_written j p (sys_disk s)) pe" if "pe \<in> set ?puts" for pe
    using that by (auto simp: journal_inv_def owed_on_def)
  have L: "j_ringLength j' = j_ringLength j" using complete_queue \<open>complete j p answers None = (j', answers')\<close> by blast
  have "fst pe mod j_ringLength j + entry_size (snd pe) \<le> j_ringLength j" if "pe \<in> set ?puts" for pe
  proof -
    have "entry_size (snd pe) \<le> j_ringLength j - fst pe mod j_ringLength j" "64 \<le> entry_size (snd pe)"
      using stands [OF that] entry_size_min [of "snd pe"] by (simp_all add: stands_def room_def L)
    then show ?thesis by linarith
  qed
  moreover have "place_entries p = map indexed_of ?puts" using flight assms(5) by (auto simp: flight_ok_def laid_def)
  ultimately show ?thesis using flight assms(5) by (auto simp: flight_ok_def laid_def indexed_of_def)
qed

theorem batch_stays_before_the_tail_witness:
  "20480 = 16384 + length (place_image ex_placement)"
  using batch_stays_before_the_tail [OF ex_blank ex_reaches2, of ex_j2 ex_placement] ex_image
  by (simp add: ex_s2_def ex_j2_def ex_j0_def) (simp add: ex_placement_def)

text \<open>
  C20. A trim kills exactly what it names: the live entries after it are those before it, in
  the same order, but for the VM's entries at an epoch the record does not name or at or
  before the position it covers, and the tail only moves on.
\<close>

theorem trim_kills_what_it_names:
  assumes "blank hash disk" "reaches hash disk s" "sys_journal s = Some j"
  shows "live_of (Trim j vm covered)
      = filter (\<lambda>e. \<not> (indexed_vm e = vm \<and> covers covered (indexed_epoch e) (indexed_position e))) (live_of j)
    \<and> j_tail j \<le> j_tail (Trim j vm covered)"
proof -
  have ok: "index_ok j" "tail_ok j" "\<forall>e \<in> set (live_of j). indexed_position e < j_written j"
    using reaches_journal_inv [OF assms] by (auto simp: journal_inv_def live_of_def)
  show ?thesis
    using live_of_Trim [OF ok(1), of vm covered] Trim_tail_mono [OF ok(2,1,3), of vm covered]
    by (simp add: trims_def conj_commute)
qed

theorem trim_kills_what_it_names_witness: "live_of (Trim ex_j3 ''a'' [(1, 16384)]) = []"
  using trim_kills_what_it_names [OF ex_blank ex_reaches3, of ex_j3 "''a''" "[(1, 16384)]"]
  by (simp add: ex_s3_def ex_j3_def live_of_def ex_indexed_def covers_def)

lemma oldest_from_mono: "set vms \<subseteq> set (oldest_from limit es vms)"
proof (induction es arbitrary: vms)
  case (Cons e es)
  show ?case using Cons [of vms] Cons [of "vms @ [indexed_vm e]"] by auto
qed simp

lemma oldest_from_names:
  "sorted_wrt (<) (map indexed_position es) \<Longrightarrow> e \<in> set es \<Longrightarrow> \<not> indexed_dead e \<Longrightarrow> indexed_position e < limit \<Longrightarrow>
     indexed_vm e \<in> set (oldest_from limit es vms)"
proof (induction es arbitrary: vms)
  case (Cons a es)
  show ?case
  proof (cases "e = a")
    case True
    then show ?thesis
      using Cons.prems oldest_from_mono [of vms limit es] oldest_from_mono [of "vms @ [indexed_vm a]" limit es] by auto
  next
    case False
    then have "e \<in> set es" "indexed_position a < indexed_position e" using Cons.prems(1,2) by auto
    then show ?thesis using Cons.IH Cons.prems by auto
  qed
qed simp

definition trim_whole :: "journal \<Rightarrow> string list \<Rightarrow> journal" where
  "trim_whole j vms = foldl (\<lambda>j vm. Trim j vm []) j vms"

lemma trim_whole_live:
  assumes "index_ok j" "tail_ok j"
  shows "live_of (trim_whole j vms) = filter (\<lambda>e. indexed_vm e \<notin> set vms) (live_of j)
    \<and> index_ok (trim_whole j vms) \<and> tail_ok (trim_whole j vms) \<and> j_next (trim_whole j vms) = j_next j
    \<and> j_written (trim_whole j vms) = j_written j \<and> j_ringLength (trim_whole j vms) = j_ringLength j"
  using assms
proof (induction vms arbitrary: j)
  case (Cons vm vms)
  have "live_of (Trim j vm []) = filter (\<lambda>e. indexed_vm e \<noteq> vm) (live_of j)"
    using live_of_Trim [OF Cons.prems(1), of vm "[]"] by (simp add: trims_def covers_def eq_commute)
  then show ?case
    using Cons.IH [OF index_ok_Trim [OF Cons.prems(1), of vm "[]"] tail_ok_Trim]
    by (auto simp: trim_whole_def intro: filter_cong)
qed (simp add: trim_whole_def)

text \<open>
  C21. The journal names whom to trim: when a commit does not fit, trimming every VM that
  \<^verbatim>\<open>Oldest\<close> names for the bytes \<^verbatim>\<open>Shortfall\<close> reports leaves no shortfall, on a ring with no failed
  range that can hold the commit at all.
\<close>

theorem trimming_the_oldest_frees_the_shortfall:
  assumes "blank hash disk" "reaches hash disk s" "sys_journal s = Some j"
    and "j_written j = j_next j" "reserve r r \<le> j_ringLength j"
  shows "Shortfall (trim_whole j (Oldest j (Shortfall j r))) r = 0"
proof -
  have ok: "index_ok j" "tail_ok j" "\<forall>e \<in> set (live_of j). indexed_position e < j_written j"
    using reaches_journal_inv [OF assms(1-3)] by (auto simp: journal_inv_def live_of_def)
  let ?short = "nat (Shortfall j r)" and ?j = "trim_whole j (Oldest j (Shortfall j r))"
  note trimmed = trim_whole_live [OF ok(1,2), of "Oldest j (Shortfall j r)"]
  have short: "int ?short = Shortfall j r" by (simp add: Shortfall_def)
  have "j_next j \<le> j_tail ?j \<or> j_tail j + ?short \<le> j_tail ?j"
  proof (cases "live_of ?j")
    case Nil
    then show ?thesis using trimmed assms(4) by (simp add: tail_ok_def)
  next
    case (Cons e es)
    then have at: "j_tail ?j = indexed_position e" using trimmed by (simp add: tail_ok_def)
    have "e \<in> set (live_of ?j)" using Cons by simp
    then have e: "e \<in> set (live_of j)" "indexed_vm e \<notin> set (Oldest j (Shortfall j r))" using trimmed by simp_all
    have "\<not> indexed_position e < j_tail j + nat (max (Shortfall j r) 0)"
      using oldest_from_names [of "j_live j" e "j_tail j + nat (max (Shortfall j r) 0)" "[]"] e ok(1)
      by (auto simp: Oldest_def live_of_def index_ok_def)
    then show ?thesis using at short by auto
  qed
  then show ?thesis
  proof
    assume "j_next j \<le> j_tail ?j"
    then show ?thesis using assms(5) trimmed by (simp add: Shortfall_def)
  next
    assume "j_tail j + ?short \<le> j_tail ?j"
    then show ?thesis using short trimmed by (simp add: Shortfall_def Let_def)
  qed
qed

theorem trimming_the_oldest_frees_the_shortfall_witness:
  "Shortfall ex_j3 6000 = 3936 \<and> Shortfall (trim_whole ex_j3 (Oldest ex_j3 3936)) 6000 = 0"
proof -
  have "Shortfall ex_j3 6000 = 3936" by (simp add: Shortfall_def ex_j3_def ex_j2_def ex_j0_def reserve_def)
  then show ?thesis
    using trimming_the_oldest_frees_the_shortfall [OF ex_blank ex_reaches3, of ex_j3 6000]
    by (simp add: ex_s3_def) (simp add: ex_j3_def ex_j2_def ex_j0_def reserve_def)
qed

text \<open>
  C17. The writer gets on: once nothing is live any more, whatever the ring was full of and
  whatever failed before, the commit at the head of the queue is taken into a batch within four
  passes of the writer at least a second apart.
\<close>

theorem head_commit_is_taken:
  assumes "blank hash disk" "reaches hash disk s" "sys_journal s = Some j"
    and "live_of j = []" "refusal j = None" "j_queue j \<noteq> []"
    and "j_next j + j_ringLength j + ringOffset \<le> 2 ^ 64" "unat (slot_counter (j_header j)) + 3 < 2 ^ 64 - 1"
    and "spaced (j_headerAt j) ticks" "length ticks = 4"
  shows "\<exists>k < 4. takes_head (fst (writer_passes hash made (take k ticks) (j, sys_disk s))) (ticks ! k)
    \<and> hd (j_queue (fst (writer_passes hash made (take k ticks) (j, sys_disk s)))) = hd (j_queue j)"
proof -
  note inv = reaches_journal_inv [OF assms(1-3)]
  then have "sys_owed s = []" using assms(4) by (simp add: journal_inv_def)
  moreover have "queue_ok j" by (rule reaches_queue_ok [OF assms(1-3)])
  moreover have "waiting j \<le> 3" by (simp add: waiting_def)
  ultimately have "drained hash (j, sys_disk s)" using inv assms(4-8) by (simp add: drained_def)
  from drained_takes [OF this assms(9)] show ?thesis
    using assms(10) \<open>waiting j \<le> 3\<close> by (simp add: assms(10))
qed

theorem head_commit_is_taken_witness:
  "\<exists>k < 4. takes_head (fst (writer_passes ex_hash (\<lambda>_. Inr [ex_entry])
      (take k [1000000000, 2000000000, 3000000000, 4000000000]) (ex_j1, ex_disk1)))
      ([1000000000, 2000000000, 3000000000, 4000000000] ! k)"
proof -
  have "live_of ex_j1 = []" "refusal ex_j1 = None" "j_queue ex_j1 \<noteq> []" "sys_journal ex_s1 = Some ex_j1"
    "j_next ex_j1 + j_ringLength ex_j1 + ringOffset \<le> 2 ^ 64" "unat (slot_counter (j_header ex_j1)) + 3 < 2 ^ 64 - 1"
    "spaced (j_headerAt ex_j1) [1000000000, 2000000000, 3000000000, 4000000000]" "sys_disk ex_s1 = ex_disk1"
    by (simp_all add: live_of_def refusal_def ex_j1_def ex_j0_def ex_s1_def ex_s0_def ex_slot_def)
  then show ?thesis
    using head_commit_is_taken [OF ex_blank ex_reaches1, of ex_j1 "[1000000000, 2000000000, 3000000000, 4000000000]" "\<lambda>_. Inr [ex_entry]"]
    by auto
qed

section \<open>The format and the loops\<close>

text \<open>
  C26. What is written is read back: a header slot takes 4 KiB and decodes to itself, and an
  entry the format can hold takes the bytes it is counted as, and decodes to itself at the
  position it was put at.
\<close>

theorem formats_round_trip:
  assumes "slot_wf s" "entry_check e = Inr ()" "p < 2 ^ 64"
  shows "length (encodeSlot hash s) = slotBytes \<and> decodeSlot hash (encodeSlot hash s) = Inr s
    \<and> length (appendEntry hash [] e p g) = EntryBytes (entry_VM e) (entry_Volume e) (length (entry_Blocks e))
    \<and> decodeEntry hash (appendEntry hash [] e p g) = Inr (entry_head e p g, Some (e\<lparr> entry_Position := p \<rparr>))"
  using assms length_entry_body [OF assms(2), of p g] by (simp add: appendEntry_eq entry_size_def)

theorem formats_round_trip_witness:
  "decodeSlot ex_hash (encodeSlot ex_hash ex_slot) = Inr ex_slot
    \<and> decodeEntry ex_hash (appendEntry ex_hash [] ex_entry 16384 7)
        = Inr (entry_head ex_entry 16384 7, Some (ex_entry\<lparr> entry_Position := 16384 \<rparr>))"
proof -
  have "slot_wf ex_slot" "entry_check ex_entry = Inr ()"
    by (simp_all add: slot_wf_def ex_slot_def entry_check_def ex_entry_def entry_size_def EntryBytes_def align8_def)
  then show ?thesis using formats_round_trip [of ex_slot ex_entry 16384 ex_hash 7] by simp
qed

lemma decodeHead_fields:
  assumes "decodeHead b = Inr h"
  shows "head_vm h \<le> maxNameBytes" "head_volume h \<le> maxNameBytes"
    "head_kind h \<noteq> kindPad \<Longrightarrow> head_length h = entryHeadBytes + align8 (head_vm h + head_volume h)
       + head_blocks h * (8 + BlockBytes) + checksumBytes \<and> head_length h \<le> MaxEntryBytes"
  using assms uint_at_bound [of 40 2 b] uint_at_bound [of 42 2 b]
  by (auto simp: decodeHead_def Let_def split: if_splits)

text \<open>
  C27. Whatever bytes a disk holds, what decodes is well formed: a header's positions and sizes
  are in range, and an entry is one the format can hold, as long as the bytes it was read from.
\<close>

theorem decoded_values_are_well_formed:
  "(decodeSlot hash b = Inr s \<longrightarrow> slot_wf s)
    \<and> (decodeEntry hash b = Inr (h, Some e) \<longrightarrow>
        entry_check e = Inr () \<and> entry_size e = length b \<and> entry_Position e = head_position h)"
proof (intro conjI impI)
  assume "decodeSlot hash b = Inr s"
  then show "slot_wf s" by (rule decodeSlot_wf)
next
  assume dec: "decodeEntry hash b = Inr (h, Some e)"
  then have h: "decodeHead b = Inr h" "length b = head_length h" "head_kind h \<noteq> kindPad"
    by (auto simp: decodeEntry_def checkEntry_def Let_def split: sum.splits if_splits)
  note fields = decodeHead_fields [OF h(1)]
  have len: "length b = 48 + align8 (head_vm h + head_volume h) + head_blocks h * 4104 + 16"
    "length b \<le> MaxEntryBytes" using fields(3) [OF h(3)] h(2) by simp_all
  have ge: "head_vm h + head_volume h \<le> align8 (head_vm h + head_volume h)" by (rule align8_ge)
  have sizes: "length (entry_VM e) = head_vm h" "length (entry_Volume e) = head_volume h"
    "length (entry_Blocks e) = head_blocks h" "length (entry_Data e) = head_blocks h * 4096" "entry_Position e = head_position h"
    using dec h(3) len(1) ge
    by (auto simp: decodeEntry_def Let_def entryVM_def bytes_string_def bytes_at_def split: sum.splits if_splits)
  show "entry_size e = length b" using sizes len by (simp add: entry_size_def EntryBytes_def)
  then show "entry_check e = Inr ()" using sizes len(2) fields(1,2) by (simp add: entry_check_ok)
  show "entry_Position e = head_position h" by (rule sizes(5))
qed

theorem decoded_values_are_well_formed_witness:
  "slot_wf ex_slot \<and> entry_size (ex_entry\<lparr> entry_Position := 16384 \<rparr>) = length (appendEntry ex_hash [] ex_entry 16384 7)"
proof -
  have ok: "slot_wf ex_slot" "entry_check ex_entry = Inr ()"
    by (simp_all add: slot_wf_def ex_slot_def entry_check_def ex_entry_def entry_size_def EntryBytes_def align8_def)
  have "decodeEntry ex_hash (appendEntry ex_hash [] ex_entry 16384 7)
      = Inr (entry_head ex_entry 16384 7, Some (ex_entry\<lparr> entry_Position := 16384 \<rparr>))"
    using ok(2) by (simp add: appendEntry_eq)
  then show ?thesis
    using decoded_values_are_well_formed [of ex_hash "appendEntry ex_hash [] ex_entry 16384 7" ex_slot]
      decoded_values_are_well_formed [of ex_hash "encodeSlot ex_hash ex_slot" ex_slot] ok(1) by simp
qed

text \<open>
  C28. Reading back through the reader's window is reading the disk: on a ring that fits the
  disk, \<^verbatim>\<open>readBack\<close> succeeds and indexes exactly the entries a scan of the disk's bytes passes,
  from the tail hint on, and goes on from where the scan ends.
\<close>

theorem reading_back_is_scanning:
  assumes "j_ringStart j + j_ringLength j \<le> length disk" "0 < j_ringLength j"
  shows "readBack hash j disk = (let (position, found) = scan hash disk (j_generation j) (j_ringStart j) (j_ringLength j)
        (slot_tail (j_header j)) (slot_tail (j_header j))
      in Inr (set_tail ((foldl index j found)\<lparr> j_written := position, j_next := position \<rparr>)))"
  using readBack_from_scan [OF assms new_reader_ok [OF assms(1)]]
  by (simp add: readBack_def Let_def new_reader_def case_prod_beta)

theorem reading_back_is_scanning_witness:
  "readBack ex_hash ex_j0 ex_disk1 = Inr (set_tail (ex_j0\<lparr> j_written := 16384, j_next := 16384 \<rparr>))"
  using reading_back_is_scanning [of ex_j0 ex_disk1 ex_hash] ex_scan
  by (simp add: ex_j0_def ex_slot_def)

text \<open>
  Pads of these lengths, one after the other from a position: each is one the format holds, and none
  crosses the ring's end.
\<close>

primrec pads_from :: "nat \<Rightarrow> nat \<Rightarrow> nat list \<Rightarrow> bool" where
  "pads_from L position [] = True"
| "pads_from L position (len # lens) = (pad_ok len \<and> len \<le> room L position \<and> pads_from L (position + len) lens)"

lemma pad_failed_pads:
  assumes "ring_ok L" "good_position L (lay_position st)"
    "lay_position st = bound \<or> lay_position st < bound \<and> 64 \<le> bound - lay_position st \<and> BlockBytes dvd bound"
  shows "\<exists>lens. pads_from L (lay_position st) lens \<and> lay_position st + sum_list lens = bound
    \<and> pad_failed hash g L bound st = foldl (\<lambda>st len. lay_pad hash g len st) st lens"
  using assms
proof (induction hash g L bound st rule: pad_failed.induct)
  case (1 hash g L bound st)
  show ?case
  proof (cases "lay_position st = bound")
    case True
    then have "pad_failed hash g L bound st = st" by (simp add: pad_failed.simps)
    then show ?thesis using True by (intro exI [of _ "[]"]) simp
  next
    case False
    then have less: "lay_position st < bound" "64 \<le> bound - lay_position st" "BlockBytes dvd bound" using 1(4) by auto
    let ?l = "pad_length L bound (lay_position st)"
    let ?st = "lay_pad hash g ?l st"
    note ok = pad_length_ok [OF 1(2,3) less]
    have at: "lay_position ?st = lay_position st + ?l" by (simp add: lay_pad_def)
    have "good_position L (lay_position ?st)" "lay_position ?st = bound \<or> lay_position ?st < bound
        \<and> 64 \<le> bound - lay_position ?st \<and> BlockBytes dvd bound" using ok less(3) unfolding at by blast+
    then obtain lens where lens: "pads_from L (lay_position ?st) lens" "lay_position ?st + sum_list lens = bound"
        "pad_failed hash g L bound ?st = foldl (\<lambda>st len. lay_pad hash g len st) ?st lens"
      using 1(1) less(1) ring_ok_pos [OF 1(2)] 1(2) by blast
    have "pad_failed hash g L bound st = pad_failed hash g L bound ?st"
      using less(1) ring_ok_pos [OF 1(2)] by (subst pad_failed.simps) simp
    then show ?thesis using lens ok by (intro exI [of _ "?l # lens"]) (simp add: at add.assoc)
  qed
qed

text \<open>
  C34. A failed range is padded over: on a journal any run has reached, the loop ends with pads laid
  one after the other over exactly the range that failed, each of a length the format holds and none
  across the ring's end.
\<close>

theorem failed_ranges_are_padded:
  assumes "blank hash disk" "reaches hash disk s" "sys_journal s = Some j" "lay_position st = j_written j"
  shows "\<exists>lens. pads_from (j_ringLength j) (j_written j) lens \<and> j_written j + sum_list lens = j_next j
    \<and> pad_failed hash (j_generation j) (j_ringLength j) (j_next j) st
        = foldl (\<lambda>st len. lay_pad hash (j_generation j) len st) st lens"
proof -
  have "ring_ok (j_ringLength j)" "cursor_ok j" using reaches_journal_inv [OF assms(1-3)] by (simp_all add: journal_inv_def)
  then show ?thesis
    using pad_failed_pads [of "j_ringLength j" st "j_next j" hash "j_generation j"] assms(4) by (simp add: cursor_ok_def)
qed

theorem failed_ranges_are_padded_witness:
  "\<exists>lens. pads_from 16384 16384 lens \<and> sum_list lens = 4096
     \<and> pad_failed ex_hash 7 16384 20480 \<lparr> lay_image = [], lay_position = 16384, lay_entries = [] \<rparr>
         = foldl (\<lambda>st len. lay_pad ex_hash 7 len st) \<lparr> lay_image = [], lay_position = 16384, lay_entries = [] \<rparr> lens"
  using failed_ranges_are_padded [OF ex_blank ex_reaches2, of ex_j2 "\<lparr> lay_image = [], lay_position = 16384, lay_entries = [] \<rparr>"]
  by (simp add: ex_s2_def ex_j2_def ex_j0_def)

end
