(* ===== verification/Sha256.thy ===== *)
theory Sha256
  imports Prelude
begin

text \<open>
  SHA-256 of Go's standard library (\<^verbatim>\<open>crypto/sha256\<close>), which the ranking of windows and the
  identities of disks hash with, and \<^verbatim>\<open>binary.AppendUvarint\<close>.
\<close>

unbundle bit_operations_syntax

definition be_bytes :: "nat \<Rightarrow> nat \<Rightarrow> bytes" where
  "be_bytes n x = rev (le_bytes n x)"

definition be_value :: "bytes \<Rightarrow> nat" where
  "be_value bs = le_value (rev bs)"

text \<open>The constants are the first 32 bits after the point of the cube roots of the first 64 primes,
  and the starting state those of the square roots of the first 8. \<open>root_floor\<close> finds a root bit by
  bit, from the bit \<open>2 ^ (n - 1)\<close> down.\<close>

primrec root_floor :: "nat \<Rightarrow> nat \<Rightarrow> nat \<Rightarrow> nat \<Rightarrow> nat" where
  "root_floor k x 0 r = r"
| "root_floor k x (Suc n) r = root_floor k x n (if (r + 2 ^ n) ^ k \<le> x then r + 2 ^ n else r)"

definition fraction_of_root :: "nat \<Rightarrow> nat \<Rightarrow> u32" where
  "fraction_of_root k p = word_of_nat (root_floor k (p * 2 ^ (32 * k)) 37 0)"

definition small_primes :: "nat list" where
  "small_primes = filter (\<lambda>p. list_all (\<lambda>d. p mod d \<noteq> 0) [2..<p]) [2..<312]"

definition sha_constants :: "u32 list" where
  "sha_constants = map (fraction_of_root 3) small_primes"

definition sha_start :: "u32 list" where
  "sha_start = map (fraction_of_root 2) (take 8 small_primes)"

text \<open>The message schedule: sixteen words of a block extended to sixty-four.\<close>

primrec sha_extend :: "nat \<Rightarrow> u32 list \<Rightarrow> u32 list" where
  "sha_extend 0 ws = ws"
| "sha_extend (Suc n) ws =
     (let k = length ws; w15 = ws ! (k - 15); w2 = ws ! (k - 2);
          s0 = word_rotr 7 w15 XOR word_rotr 18 w15 XOR drop_bit 3 w15;
          s1 = word_rotr 17 w2 XOR word_rotr 19 w2 XOR drop_bit 10 w2
      in sha_extend n (ws @ [ws ! (k - 16) + s0 + ws ! (k - 7) + s1]))"

fun sha_round :: "u32 list \<Rightarrow> u32 \<times> u32 \<Rightarrow> u32 list" where
  "sha_round [a, b, c, d, e, f, g, h] (k, w) =
     (let s1 = word_rotr 6 e XOR word_rotr 11 e XOR word_rotr 25 e;
          ch = (e AND f) XOR (NOT e AND g);
          t1 = h + s1 + ch + k + w;
          s0 = word_rotr 2 a XOR word_rotr 13 a XOR word_rotr 22 a;
          maj = (a AND b) XOR (a AND c) XOR (b AND c);
          t2 = s0 + maj
      in [t1 + t2, a, b, c, d + t1, e, f, g])"
| "sha_round state _ = state"

definition sha_block :: "u32 list \<Rightarrow> bytes \<Rightarrow> u32 list" where
  "sha_block state block =
     (let ws = map (\<lambda>i. word_of_nat (be_value (take 4 (drop (4 * i) block)))) [0..<16]
      in map2 (+) state (foldl sha_round state (zip sha_constants (sha_extend 48 ws))))"

definition sha_pad :: "bytes \<Rightarrow> bytes" where
  "sha_pad message =
     (let n = length message
      in message @ [0x80] @ replicate ((119 - n mod 64) mod 64) 0 @ be_bytes 8 (8 * n))"

primrec sha_blocks :: "nat \<Rightarrow> u32 list \<Rightarrow> bytes \<Rightarrow> u32 list" where
  "sha_blocks 0 state message = state"
| "sha_blocks (Suc n) state message = sha_blocks n (sha_block state (take 64 message)) (drop 64 message)"

definition sha256 :: "bytes \<Rightarrow> bytes" where
  "sha256 message =
     (let padded = sha_pad message
      in concat (map (\<lambda>w. be_bytes 4 (unat w)) (sha_blocks (length padded div 64) sha_start padded)))"

text \<open>\<^verbatim>\<open>binary.BigEndian.Uint64(sum[:8])\<close>.\<close>

definition sha256_u64 :: "bytes \<Rightarrow> u64" where
  "sha256_u64 message = word_of_nat (be_value (take 8 (sha256 message)))"

function uvarint :: "nat \<Rightarrow> bytes" where
  "uvarint n = (if n < 128 then [word_of_nat n] else word_of_nat (n mod 128 + 128) # uvarint (n div 128))"
  by pat_completeness auto
termination by (relation "measure id") auto

declare uvarint.simps [simp del]

end
