(* ===== verification/Sort_Func.thy ===== *)
theory Sort_Func
  imports Prelude "HOL-Library.Multiset"
begin

text \<open>
  Go's \<^verbatim>\<open>slices.SortFunc\<close> by a comparison: the list's elements in an order that respects it. Where
  no two elements compare equal there is one such order, so it does not matter that Go's sort is
  not an insertion sort.
\<close>

fun insert_func :: "('a \<Rightarrow> 'a \<Rightarrow> bool) \<Rightarrow> 'a \<Rightarrow> 'a list \<Rightarrow> 'a list" where
  "insert_func before x [] = [x]"
| "insert_func before x (y # ys) = (if before y x then y # insert_func before x ys else x # y # ys)"

definition sort_func :: "('a \<Rightarrow> 'a \<Rightarrow> bool) \<Rightarrow> 'a list \<Rightarrow> 'a list" where
  "sort_func before xs = foldr (insert_func before) xs []"

lemma mset_insert_func [simp]: "mset (insert_func before x xs) = add_mset x (mset xs)"
  by (induction xs) auto

lemma set_insert_func [simp]: "set (insert_func before x xs) = insert x (set xs)"
  using mset_insert_func [of before x xs] by (metis set_mset_add_mset_insert set_mset_mset)

lemma sort_func_simps [simp]:
  "sort_func before [] = []" "sort_func before (x # xs) = insert_func before x (sort_func before xs)"
  by (simp_all add: sort_func_def)

lemma mset_sort_func [simp]: "mset (sort_func before xs) = mset xs"
  by (induction xs) auto

lemma set_sort_func [simp]: "set (sort_func before xs) = set xs"
  by (metis mset_sort_func set_mset_mset)

lemma length_sort_func [simp]: "length (sort_func before xs) = length xs"
  by (metis mset_sort_func size_mset)

lemma map_insert_func:
  assumes "\<And>y. y \<in> set ys \<Longrightarrow> before' (f y) (f x) = before y x"
  shows "map f (insert_func before x ys) = insert_func before' (f x) (map f ys)"
  using assms by (induction ys) auto

lemma map_sort_func:
  assumes "\<And>x y. x \<in> set xs \<Longrightarrow> y \<in> set xs \<Longrightarrow> before' (f x) (f y) = before x y"
  shows "map f (sort_func before xs) = sort_func before' (map f xs)"
  using assms
proof (induction xs)
  case (Cons a xs)
  then have "map f (insert_func before a (sort_func before xs)) = insert_func before' (f a) (map f (sort_func before xs))"
    by (intro map_insert_func) simp
  then show ?case using Cons by simp
qed simp

text \<open>
  A comparison that orders the elements with a property strictly, and any two of them with
  different keys.
\<close>

locale keyed_order =
  fixes ok :: "'a \<Rightarrow> bool" and before :: "'a \<Rightarrow> 'a \<Rightarrow> bool" and key :: "'a \<Rightarrow> 'k"
  assumes irrefl: "ok x \<Longrightarrow> \<not> before x x"
    and trans: "ok x \<Longrightarrow> ok y \<Longrightarrow> ok z \<Longrightarrow> before x y \<Longrightarrow> before y z \<Longrightarrow> before x z"
    and total: "ok x \<Longrightarrow> ok y \<Longrightarrow> key x \<noteq> key y \<Longrightarrow> before x y \<or> before y x"
begin

definition keyed :: "'a list \<Rightarrow> bool" where
  "keyed xs \<longleftrightarrow> (\<forall>x \<in> set xs. ok x) \<and> distinct (map key xs)"

lemma asym: "ok x \<Longrightarrow> ok y \<Longrightarrow> before x y \<Longrightarrow> \<not> before y x"
  using trans irrefl by blast

lemma insert_func_sorted:
  assumes "sorted_wrt before ys" "keyed (x # ys)"
  shows "sorted_wrt before (insert_func before x ys)"
  using assms
proof (induction ys)
  case (Cons y ys)
  have ok: "ok x" "ok y" "\<forall>z \<in> set ys. ok z" "key x \<noteq> key y" using Cons.prems(2) by (auto simp: keyed_def)
  show ?case
  proof (cases "before y x")
    case True
    moreover have "sorted_wrt before (insert_func before x ys)" using Cons by (auto simp: keyed_def)
    ultimately show ?thesis using Cons.prems(1) by auto
  next
    case False
    then have "before x y" using total ok by blast
    then show ?thesis using False Cons.prems(1) trans [OF ok(1,2)] ok by auto
  qed
qed simp

lemma sort_sorted: "keyed xs \<Longrightarrow> sorted_wrt before (sort_func before xs)"
proof (induction xs)
  case (Cons x xs)
  have "mset (map key (sort_func before xs)) = mset (map key xs)" by simp
  then have "distinct (map key (sort_func before xs)) = distinct (map key xs)" by (rule mset_eq_imp_distinct_iff)
  then have "keyed (x # sort_func before xs)" using Cons.prems by (auto simp: keyed_def)
  then show ?case using Cons insert_func_sorted by (auto simp: keyed_def)
qed simp

lemma sorted_unique:
  assumes "sorted_wrt before xs" "sorted_wrt before ys" "mset xs = mset ys" "\<forall>x \<in> set xs. ok x"
  shows "xs = ys"
  using assms
proof (induction xs arbitrary: ys)
  case (Cons x xs)
  obtain y ys' where ys: "ys = y # ys'" using Cons.prems(3) by (cases ys) auto
  have in_both: "x \<in> set ys" "y \<in> set (x # xs)" using Cons.prems(3) ys by (metis list.set_intros(1) set_mset_mset)+
  have "x = y"
  proof (rule ccontr)
    assume "x \<noteq> y"
    then have "before y x" "before x y" using in_both Cons.prems(1,2) ys by auto
    moreover have "ok x" "ok y" using Cons.prems(4) in_both by auto
    ultimately show False using asym by blast
  qed
  then show ?case using Cons ys by auto
qed simp

lemma keyed_filter: "keyed xs \<Longrightarrow> keyed (filter P xs)"
  by (auto simp: keyed_def distinct_map_filter)

text \<open>Sorting does not depend on the order the elements come in, and leaving some out leaves
  the rest as they were.\<close>

lemma sort_perm: "keyed xs \<Longrightarrow> mset xs = mset ys \<Longrightarrow> sort_func before xs = sort_func before ys"
proof (rule sorted_unique)
  assume "keyed xs" "mset xs = mset ys"
  moreover from this have "keyed ys" unfolding keyed_def
    by (metis mset_eq_imp_distinct_iff mset_map set_mset_mset)
  ultimately show "sorted_wrt before (sort_func before xs)" "sorted_wrt before (sort_func before ys)"
    "mset (sort_func before xs) = mset (sort_func before ys)" "\<forall>x \<in> set (sort_func before xs). ok x"
    using sort_sorted by (auto simp: keyed_def)
qed

lemma sort_filter: "keyed xs \<Longrightarrow> sort_func before (filter P xs) = filter P (sort_func before xs)"
proof (rule sorted_unique)
  assume xs: "keyed xs"
  then show "sorted_wrt before (sort_func before (filter P xs))" "sorted_wrt before (filter P (sort_func before xs))"
    "mset (sort_func before (filter P xs)) = mset (filter P (sort_func before xs))"
    "\<forall>x \<in> set (sort_func before (filter P xs)). ok x"
    using sort_sorted keyed_filter by (auto simp: sorted_wrt_filter mset_filter keyed_def)
qed

end

end
