(* ===== verification/Rank.thy ===== *)
theory Rank
  imports Control_Record Sha256 Sort_Func
begin

text \<open>
  Which cache disks hold a window's stripes (\<^verbatim>\<open>rank/rank.go\<close> and \<^verbatim>\<open>rank/window.go\<close>): codes, lists of
  caches, and the weighted ranking of the caches for a window.

  A Go \<^verbatim>\<open>int\<close> is an integer taken into 64 bits where an operation may leave them. The products
  of two 64-bit words that \<^verbatim>\<open>bits.Mul64\<close> makes are pairs of words, as in the source.
\<close>

section \<open>Codes and caches\<close>

record Cache =
  cache_Identity :: identity
  cache_Weight :: u32
  cache_Address :: string

abbreviation (input) WeightStep :: int where "WeightStep \<equiv> 17179869184"

definition Weight :: "int \<Rightarrow> u32" where
  "Weight bytes =
     (if bytes \<le> 0 then 0
      else
        let steps = wrap64 (bytes + WeightStep div 2) div WeightStep
        in word_of_int (min (max steps 1) 4294967295))"

record Code =
  code_K :: int
  code_M :: int

definition DefaultCode :: Code where "DefaultCode = \<lparr> code_K = 4, code_M = 2 \<rparr>"

abbreviation (input) MaxEarlierCodes :: nat where "MaxEarlierCodes \<equiv> 3"
abbreviation (input) maxWidth :: int where "maxWidth \<equiv> 32"

definition Width :: "Code \<Rightarrow> int" where
  "Width c = wrap64 (code_K c + code_M c)"

definition Validate :: "Code \<Rightarrow> error + unit" where
  "Validate c = (if code_K c < 1 \<or> code_M c < 0 \<or> Width c > maxWidth then Inl [RankInvalid] else Inr ())"

definition CodeFor :: "int \<Rightarrow> Code" where
  "CodeFor hosts =
     (if hosts \<le> 1 then \<lparr> code_K = 1, code_M = 0 \<rparr>
      else if hosts = 2 then \<lparr> code_K = 1, code_M = 1 \<rparr>
      else if hosts = 3 then \<lparr> code_K = 2, code_M = 1 \<rparr>
      else if hosts \<le> 5 then \<lparr> code_K = 2, code_M = 2 \<rparr>
      else \<lparr> code_K = 4, code_M = 2 \<rparr>)"

section \<open>Hashes and distances\<close>

definition seedOf :: "identity \<Rightarrow> u64" where
  "seedOf i = sha256_u64 (string_bytes ''sproutfs rank cache'' @ [0] @ identity_bytes i)"

definition mix :: "u64 \<Rightarrow> u64" where
  "mix z =
     (let z = z XOR drop_bit 30 z;
          z = z * 0xbf58476d1ce4e5b9;
          z = z XOR drop_bit 27 z;
          z = z * 0x94d049bb133111eb
      in z XOR drop_bit 31 z)"

text \<open>\<^verbatim>\<open>bits.Mul64\<close>: the high and the low half of a product.\<close>

definition mul64 :: "u64 \<Rightarrow> u64 \<Rightarrow> u64 \<times> u64" where
  "mul64 x y = (word_of_nat (unat x * unat y div 2 ^ 64), word_of_nat (unat x * unat y mod 2 ^ 64))"

text \<open>\<^verbatim>\<open>bits.Len64\<close>: the bits it takes to write a number.\<close>

function len64 :: "nat \<Rightarrow> nat" where
  "len64 n = (if n = 0 then 0 else Suc (len64 (n div 2)))"
  by pat_completeness auto
termination by (relation "measure id") auto

declare len64.simps [simp del]

abbreviation (input) fractionBits :: nat where "fractionBits \<equiv> 32"

text \<open>The loop of \<open>log2\<close>, from the bit \<open>2 ^ (n - 1)\<close> down to the lowest.\<close>

primrec log2_loop :: "nat \<Rightarrow> u64 \<Rightarrow> u64 \<Rightarrow> u64" where
  "log2_loop 0 x result = result"
| "log2_loop (Suc n) x result =
     (let (high, low) = mul64 x x
      in if high \<ge> push_bit 63 1 then log2_loop n high (result OR push_bit n 1)
         else log2_loop n (push_bit 1 high OR drop_bit 63 low) result)"

definition log2 :: "u64 \<Rightarrow> u64" where
  "log2 m =
     (let top = len64 (unat m) - 1
      in log2_loop fractionBits (push_bit (63 - top) m) (push_bit fractionBits (word_of_nat top)))"

definition distance :: "u64 \<Rightarrow> u64" where
  "distance h = push_bit fractionBits 64 - log2 (h OR 1)"

section \<open>Windows\<close>

text \<open>\<^verbatim>\<open>Identity\<close> of \<^verbatim>\<open>control/lineage.go\<close>: the page a range reads.\<close>

record PageIdentity =
  page_Ref :: Ref
  page_Volume :: string
  page_Page :: u64
  page_Zero :: bool

abbreviation (input) WindowBytes :: u64 where "WindowBytes \<equiv> 2097152"

record Window =
  window_Ref :: Ref
  window_Volume :: string
  window_Segment :: bool
  window_Number :: u64
  window_Pages :: u32

definition PageWindow :: "PageIdentity \<Rightarrow> u64 \<Rightarrow> Window" where
  "PageWindow page pageSize =
     (let span = max (WindowBytes div max pageSize 1) 1
      in \<lparr> window_Ref = page_Ref page, window_Volume = page_Volume page, window_Segment = False,
           window_Number = page_Page page div span, window_Pages = ucast span \<rparr>)"

definition SegmentWindow :: "Ref \<Rightarrow> string \<Rightarrow> u64 \<Rightarrow> Window" where
  "SegmentWindow ref volume number =
     \<lparr> window_Ref = ref, window_Volume = volume, window_Segment = True, window_Number = number, window_Pages = 1 \<rparr>"

definition Window_Page :: "Window \<Rightarrow> u32 \<Rightarrow> u64" where
  "Window_Page w at = window_Number w * ucast (max (window_Pages w) 1) + ucast at"

definition digest :: "Window \<Rightarrow> u64" where
  "digest w = sha256_u64 (string_bytes ''sproutfs rank window'' @ [0] @ [if window_Segment w then 1 else 0]
     @ uvarint (length (ref_vm (window_Ref w))) @ string_bytes (ref_vm (window_Ref w))
     @ be_bytes 8 (unat (ref_sequence (window_Ref w)))
     @ uvarint (length (window_Volume w)) @ string_bytes (window_Volume w)
     @ be_bytes 8 (unat (window_Number w)))"

definition shareSalt :: u64 where "shareSalt = 0x5f3c9e1da7b24c68"

definition InShare :: "Window \<Rightarrow> int \<Rightarrow> bool" where
  "InShare w percent \<longleftrightarrow> mix (digest w XOR shareSalt) mod 100 < word_of_int (max percent 0)"

section \<open>Lists of caches\<close>

record RankList =
  list_code :: Code
  list_earlier :: "Code list"
  list_caches :: "Cache list"
  list_seeds :: "u64 list"

fun check_earlier :: "Code \<Rightarrow> Code list \<Rightarrow> Code list \<Rightarrow> error + unit" where
  "check_earlier code named [] = Inr ()"
| "check_earlier code named (other # earlier) =
     (case Validate other of
        Inl err \<Rightarrow> Inl err
      | Inr _ \<Rightarrow>
          if other = code \<or> other \<in> set named then Inl [RankInvalid]
          else check_earlier code (named @ [other]) earlier)"

fun check_caches :: "Cache option \<Rightarrow> Cache list \<Rightarrow> error + u64 list" where
  "check_caches before [] = Inr []"
| "check_caches before (cache # caches) =
     (if cache_Identity cache = 0 \<or> cache_Weight cache = 0 then Inl [RankInvalid]
      else if map_option cache_Identity before = Some (cache_Identity cache) then Inl [RankInvalid]
      else case check_caches (Some cache) caches of
        Inl err \<Rightarrow> Inl err
      | Inr seeds \<Rightarrow> Inr (seedOf (cache_Identity cache) # seeds))"

definition NewList :: "Code \<Rightarrow> Cache list \<Rightarrow> Code list \<Rightarrow> error + RankList" where
  "NewList code caches earlier =
     (case Validate code of
        Inl err \<Rightarrow> Inl err
      | Inr _ \<Rightarrow>
          if length earlier > MaxEarlierCodes then Inl [RankInvalid]
          else case check_earlier code [] earlier of
            Inl err \<Rightarrow> Inl err
          | Inr _ \<Rightarrow>
              let sorted = sort_key cache_Identity caches
              in (case check_caches None sorted of
                    Inl err \<Rightarrow> Inl err
                  | Inr seeds \<Rightarrow> Inr \<lparr> list_code = code, list_earlier = earlier, list_caches = sorted,
                      list_seeds = seeds \<rparr>))"

definition rank_Alone :: "Cache \<Rightarrow> RankList" where
  "rank_Alone self =
     (case NewList (CodeFor 1) [self] [] of
        Inl _ \<Rightarrow> \<lparr> list_code = CodeFor 1, list_earlier = [], list_caches = [], list_seeds = [] \<rparr>
      | Inr l \<Rightarrow> l)"

definition Codes :: "RankList \<Rightarrow> Code list" where
  "Codes l = list_code l # list_earlier l"

definition Under :: "RankList \<Rightarrow> Code \<Rightarrow> RankList" where
  "Under l code = l\<lparr> list_code := code, list_earlier := [] \<rparr>"

definition list_Equal :: "RankList \<Rightarrow> RankList \<Rightarrow> bool" where
  "list_Equal l other \<longleftrightarrow> list_code l = list_code other \<and> list_earlier l = list_earlier other
     \<and> list_caches l = list_caches other"

text \<open>The zero \<^verbatim>\<open>List\<close>, which a constructor returns with its error.\<close>

definition no_list :: RankList where
  "no_list = \<lparr> list_code = \<lparr> code_K = 0, code_M = 0 \<rparr>, list_earlier = [], list_caches = [], list_seeds = [] \<rparr>"

definition Without :: "RankList \<Rightarrow> identity \<Rightarrow> RankList" where
  "Without l identity =
     (let kept = filter (\<lambda>cache. cache_Identity cache \<noteq> identity) (list_caches l)
      in case NewList (list_code l) kept (list_earlier l) of Inl _ \<Rightarrow> no_list | Inr without \<Rightarrow> without)"

section \<open>Ranks\<close>

record scored =
  scored_at :: nat
  scored_weight :: u64
  scored_distance :: u64
  scored_identity :: identity

definition score :: "RankList \<Rightarrow> Window \<Rightarrow> scored list" where
  "score l window =
     (let d = digest window
      in map (\<lambda>at. \<lparr> scored_at = at, scored_weight = ucast (cache_Weight (list_caches l ! at)),
            scored_distance = distance (mix (d XOR list_seeds l ! at)),
            scored_identity = cache_Identity (list_caches l ! at) \<rparr>)
          [0..<length (list_caches l)])"

definition descending :: "u64 \<Rightarrow> u64 \<Rightarrow> int" where
  "descending a b = (if a > b then -1 else 1)"

text \<open>\<^verbatim>\<open>bytes.Compare\<close> of two identities.\<close>

definition compareIdentities :: "identity \<Rightarrow> identity \<Rightarrow> int" where
  "compareIdentities a b = (if a < b then -1 else if a = b then 0 else 1)"

definition compare_scored :: "scored \<Rightarrow> scored \<Rightarrow> int" where
  "compare_scored a b =
     (let (aHigh, aLow) = mul64 (scored_weight a) (scored_distance b);
          (bHigh, bLow) = mul64 (scored_weight b) (scored_distance a)
      in if aHigh \<noteq> bHigh then descending aHigh bHigh
         else if aLow \<noteq> bLow then descending aLow bLow
         else compareIdentities (scored_identity a) (scored_identity b))"

abbreviation (input) scored_before :: "scored \<Rightarrow> scored \<Rightarrow> bool" where
  "scored_before a b \<equiv> compare_scored a b < 0"

text \<open>
  The source makes a slice of the smaller of the number of caches and the width. A list's code is
  valid, so its width is at most 32, and negative only where K + M wraps: there the source panics and
  this function gives no caches.
\<close>

definition Ranks :: "RankList \<Rightarrow> Window \<Rightarrow> Cache list" where
  "Ranks l window =
     (let scores = sort_func scored_before (score l window)
      in map (\<lambda>s. list_caches l ! scored_at s) (take (min (length scores) (nat (Width (list_code l)))) scores))"

definition Holders :: "RankList \<Rightarrow> Window \<Rightarrow> Cache list" where
  "Holders l window =
     (let ranks = Ranks l window
      in if ranks = [] then []
         else map (\<lambda>stripe. ranks ! (stripe mod length ranks)) [0..<nat (Width (list_code l))])"

record picked =
  picked_at :: nat
  picked_score :: u64
  picked_identity :: identity

definition compare_picked :: "picked \<Rightarrow> picked \<Rightarrow> int" where
  "compare_picked a b =
     (if picked_score a \<noteq> picked_score b then descending (picked_score a) (picked_score b)
      else compareIdentities (picked_identity a) (picked_identity b))"

definition Pick :: "Cache list \<Rightarrow> identity \<Rightarrow> Window \<Rightarrow> int \<Rightarrow> Cache list" where
  "Pick ranks reader window want =
     (if want \<ge> int (length ranks) then ranks
      else
        let seed = mix (digest window XOR seedOf reader);
            scored = map (\<lambda>at. \<lparr> picked_at = at, picked_score = mix (seed XOR seedOf (cache_Identity (ranks ! at))),
                picked_identity = cache_Identity (ranks ! at) \<rparr>) [0..<length ranks];
            chosen = map picked_at (take (nat want) (sort_func (\<lambda>a b. compare_picked a b < 0) scored))
        in map (\<lambda>at. ranks ! at) (filter (\<lambda>at. at \<in> set chosen) [0..<length ranks])
           @ map (\<lambda>at. ranks ! at) (filter (\<lambda>at. at \<notin> set chosen) [0..<length ranks]))"

end
