(* ===== verification/Rank_Order.thy ===== *)
theory Rank_Order
  imports Rank Complex_Main
begin

text \<open>
  The ranking is an order: distances are positive, scores compare as the quotients of weight and
  distance do, and the caches of a list, which have different identities, are ranked one way
  only. So the ranks of a window are the best caches for it, whatever list they stand in.
\<close>

section \<open>Distances\<close>

lemma len64_le: "n < 2 ^ k \<Longrightarrow> len64 n \<le> k"
proof (induction k arbitrary: n)
  case 0
  then show ?case by (simp add: len64.simps)
next
  case (Suc k)
  then have "len64 (n div 2) \<le> k" by (simp add: less_mult_imp_div_less)
  then show ?case by (subst len64.simps) simp
qed

lemma bit_unat_odd: "bit (r :: u64) n \<Longrightarrow> odd (unat r div 2 ^ n)"
proof -
  assume "bit r n"
  then have "bit (unat r) n" by (simp add: bit_unsigned_iff)
  then show ?thesis by (simp add: bit_iff_odd)
qed

lemma unat_push:
  assumes "unat w * 2 ^ n < 2 ^ 64"
  shows "unat (push_bit n w :: u64) = unat w * 2 ^ n"
proof -
  have "push_bit n w = word_of_nat (unat w * 2 ^ n)" by (simp add: push_bit_eq_mult)
  then have "unat (push_bit n w) = unat w * 2 ^ n mod 2 ^ LENGTH(64)" by (simp only: unat_of_nat)
  then show ?thesis using assms by simp
qed

lemma or_above:
  assumes "2 ^ Suc n dvd unat (r :: u64)" "unat r + 2 ^ Suc n \<le> 2 ^ 64" "n < 64"
  shows "unat (r OR push_bit n 1) = unat r + 2 ^ n"
proof -
  obtain q where q: "unat r = 2 ^ Suc n * q" using assms(1) by blast
  then have "\<not> bit r n" using bit_unat_odd [of r n] by auto
  then have "r AND push_bit n 1 = 0" by (intro bit_word_eqI) (auto simp: bit_simps)
  then have "r OR push_bit n 1 = r + push_bit n 1" by (simp add: disjunctive_add_eq_or)
  moreover have "unat (push_bit n 1 :: u64) = 2 ^ n"
    using unat_push [of 1 n] power_strict_increasing [OF assms(3), of "2 :: nat"] by simp
  moreover have "unat r + 2 ^ n < 2 ^ 64"
  proof -
    have "(0 :: nat) < 2 ^ n" by simp
    then show ?thesis using assms(2) unfolding power_Suc by linarith
  qed
  ultimately show ?thesis by (simp add: unat_word_ariths)
qed

lemma log2_loop_bounds:
  assumes "2 ^ n dvd unat r" "unat r + 2 ^ n \<le> 2 ^ 64" "n \<le> 64"
  shows "unat r \<le> unat (log2_loop n x r) \<and> unat (log2_loop n x r) < unat r + 2 ^ n"
  using assms
proof (induction n arbitrary: x r)
  case (Suc n)
  have half: "2 ^ n dvd unat r" "unat r + 2 ^ n \<le> 2 ^ 64" using Suc.prems by (auto dest: dvd_mult_left)
  have set: "unat (r OR push_bit n 1) = unat r + 2 ^ n" using Suc.prems by (intro or_above) auto
  have "2 ^ n dvd unat (r OR push_bit n 1)" "unat (r OR push_bit n 1) + 2 ^ n \<le> 2 ^ 64"
    using half(1) Suc.prems(2) unfolding set by simp_all
  note one = Suc.IH [OF this] and zero = Suc.IH [OF half]
  obtain high low where hl: "mul64 x x = (high, low)" by fastforce
  show ?case
  proof (cases "high \<ge> push_bit 63 1")
    case True
    then have "log2_loop (Suc n) x r = log2_loop n high (r OR push_bit n 1)" by (simp add: hl)
    then show ?thesis using one [of high] Suc.prems(3) unfolding set by simp
  next
    case False
    then have "log2_loop (Suc n) x r = log2_loop n (push_bit 1 high OR drop_bit 63 low) r" by (simp add: hl)
    then show ?thesis using zero [of "push_bit 1 high OR drop_bit 63 low"] Suc.prems(3) by simp
  qed
qed simp

lemma log2_less: "unat (log2 m) < 2 ^ 38"
proof -
  define top where "top = len64 (unat m) - 1"
  have "len64 (unat m) \<le> 64" using len64_le [of "unat m" 64] unsigned_less [of m] by simp
  then have top: "top \<le> 63" by (simp add: top_def)
  have start: "unat (push_bit 32 (word_of_nat top) :: u64) = top * 2 ^ 32"
  proof -
    have "unat (word_of_nat top :: u64) = top" using top by (simp add: unat_of_nat)
    then show ?thesis using unat_push [of "word_of_nat top" 32] top by simp
  qed
  have "unat (log2 m) < top * 2 ^ 32 + 2 ^ 32"
    using log2_loop_bounds [of 32 "push_bit 32 (word_of_nat top)" "push_bit (63 - top) m"] top
    unfolding log2_def Let_def top_def [symmetric] start by simp
  then show ?thesis using top by simp
qed

lemma distance_unat: "unat (distance h) = 2 ^ 38 - unat (log2 (h OR 1))"
proof -
  have "unat (push_bit 32 64 :: u64) = 2 ^ 38" by simp
  moreover have "log2 (h OR 1) \<le> push_bit 32 64" using log2_less [of "h OR 1"] by (simp add: word_le_nat_alt)
  ultimately show ?thesis by (simp add: distance_def unat_sub)
qed

lemma distance_range: "0 < unat (distance h)" "unat (distance h) \<le> 2 ^ 38"
  using distance_unat [of h] log2_less [of "h OR 1"] by simp_all

section \<open>Scores compare as quotients\<close>

lemma mul64_value:
  assumes "mul64 x y = (h, l)"
  shows "unat x * unat y = unat h * 2 ^ 64 + unat l"
proof -
  have "unat x < 2 ^ 64" "unat y < 2 ^ 64" using unsigned_less [of x] unsigned_less [of y] by simp_all
  then have "unat x * unat y < 2 ^ 64 * 2 ^ 64" by (intro mult_strict_mono) simp_all
  then have "unat x * unat y div 2 ^ 64 < 2 ^ 64" by (simp add: less_mult_imp_div_less)
  then have "unat h = unat x * unat y div 2 ^ 64" "unat l = unat x * unat y mod 2 ^ 64"
    using assms by (auto simp: mul64_def unat_of_nat)
  then show ?thesis by simp
qed

lemma high_low_less:
  fixes a b c d :: nat
  assumes "b < n" "d < n"
  shows "a * n + b < c * n + d \<longleftrightarrow> a < c \<or> a = c \<and> b < d"
proof (cases a c rule: linorder_cases)
  case less
  then have "Suc a * n \<le> c * n" by (intro mult_right_mono) simp_all
  then show ?thesis using less assms by simp
next
  case greater
  then have "Suc c * n \<le> a * n" by (intro mult_right_mono) simp_all
  then show ?thesis using greater assms by simp
qed simp

lemma quotient_less:
  fixes w d w' d' :: nat
  assumes "0 < d" "0 < d'"
  shows "real w' / real d' < real w / real d \<longleftrightarrow> w' * d < w * d'" "real w / real d = real w' / real d' \<longleftrightarrow> w * d' = w' * d"
proof -
  have "real w' / real d' < real w / real d \<longleftrightarrow> real w' * real d < real w * real d'"
    "real w / real d = real w' / real d' \<longleftrightarrow> real w * real d' = real w' * real d"
    using assms by (simp_all add: divide_simps mult.commute)
  then show "real w' / real d' < real w / real d \<longleftrightarrow> w' * d < w * d'" "real w / real d = real w' / real d' \<longleftrightarrow> w * d' = w' * d"
    by (simp_all only: of_nat_mult [symmetric] of_nat_less_iff of_nat_eq_iff)
qed

definition quotient :: "scored \<Rightarrow> real" where
  "quotient s = real (unat (scored_weight s)) / real (unat (scored_distance s))"

lemma compare_quotient:
  assumes "0 < unat (scored_distance a)" "0 < unat (scored_distance b)"
  shows "compare_scored a b < 0 \<longleftrightarrow> quotient b < quotient a
    \<or> quotient a = quotient b \<and> scored_identity a < scored_identity b"
proof -
  obtain ah al where a: "mul64 (scored_weight a) (scored_distance b) = (ah, al)" by fastforce
  obtain bh bl where b: "mul64 (scored_weight b) (scored_distance a) = (bh, bl)" by fastforce
  let ?x = "unat (scored_weight a) * unat (scored_distance b)" and ?y = "unat (scored_weight b) * unat (scored_distance a)"
  have bound: "unat (w :: u64) < 2 ^ 64" for w using unsigned_less [of w] by simp
  have less: "?y < ?x \<longleftrightarrow> bh < ah \<or> bh = ah \<and> bl < al"
    unfolding mul64_value [OF a] mul64_value [OF b] high_low_less [OF bound bound] by (auto simp: word_less_nat_alt word_unat_eq_iff)
  have eq: "?x = ?y \<longleftrightarrow> ah = bh \<and> al = bl"
  proof
    assume "?x = ?y"
    then have "\<not> ?x < ?y" "\<not> ?y < ?x" by simp_all
    then show "ah = bh \<and> al = bl"
      unfolding mul64_value [OF a] mul64_value [OF b] high_low_less [OF bound bound]
      by (auto simp: word_less_nat_alt [symmetric] word_unat_eq_iff [symmetric] not_less)
  qed (simp add: mul64_value [OF a] mul64_value [OF b])
  have "quotient b < quotient a \<longleftrightarrow> ?y < ?x" "quotient a = quotient b \<longleftrightarrow> ?x = ?y"
    unfolding quotient_def using quotient_less [OF assms] by blast+
  then show ?thesis
    unfolding less eq by (auto simp: compare_scored_def a b descending_def compareIdentities_def split: if_splits)
qed

text \<open>The order of ranks.\<close>

definition scored_ok :: "scored \<Rightarrow> bool" where
  "scored_ok s \<longleftrightarrow> 0 < unat (scored_distance s)"

interpretation ranked: keyed_order scored_ok scored_before scored_identity
  by unfold_locales (auto simp: scored_ok_def compare_quotient)

lemma compare_picked_before:
  "compare_picked a b < 0 \<longleftrightarrow> picked_score b < picked_score a
     \<or> picked_score a = picked_score b \<and> picked_identity a < picked_identity b"
  by (auto simp: compare_picked_def descending_def compareIdentities_def)

interpretation picks: keyed_order "\<lambda>_. True" "\<lambda>a b. compare_picked a b < 0" picked_identity
  by unfold_locales (auto simp: compare_picked_before)

end
