(* ===== verification/Rank_Theorems.thy ===== *)
theory Rank_Theorems
  imports Rank_Order
begin

text \<open>
  What the ranking promises: a window's ranks are the best caches for it, and a cache that
  leaves moves its own windows only.
\<close>

section \<open>Lists\<close>

definition list_ok :: "RankList \<Rightarrow> bool" where
  "list_ok l \<longleftrightarrow> Validate (list_code l) = Inr () \<and> length (list_earlier l) \<le> MaxEarlierCodes
     \<and> check_earlier (list_code l) [] (list_earlier l) = Inr ()
     \<and> sorted_wrt (<) (map cache_Identity (list_caches l))
     \<and> (\<forall>c \<in> set (list_caches l). cache_Identity c \<noteq> 0 \<and> cache_Weight c \<noteq> 0)
     \<and> list_seeds l = map (\<lambda>c. seedOf (cache_Identity c)) (list_caches l)"

lemma check_caches_Inr:
  "check_caches b cs = Inr seeds \<Longrightarrow> sorted (map cache_Identity cs) \<Longrightarrow>
     seeds = map (\<lambda>c. seedOf (cache_Identity c)) cs
     \<and> (\<forall>c \<in> set cs. cache_Identity c \<noteq> 0 \<and> cache_Weight c \<noteq> 0)
     \<and> sorted_wrt (<) (map cache_Identity cs)
     \<and> (\<forall>c. b = Some c \<longrightarrow> cs \<noteq> [] \<longrightarrow> cache_Identity c \<noteq> cache_Identity (hd cs))"
proof (induction b cs arbitrary: seeds rule: check_caches.induct)
  case (2 b c cs)
  from 2(2) obtain rest where rest: "check_caches (Some c) cs = Inr rest" "seeds = seedOf (cache_Identity c) # rest"
    and here: "cache_Identity c \<noteq> 0" "cache_Weight c \<noteq> 0" "map_option cache_Identity b \<noteq> Some (cache_Identity c)"
    by (auto split: if_splits sum.splits)
  have sorted: "sorted (map cache_Identity cs)" "\<forall>d \<in> set cs. cache_Identity c \<le> cache_Identity d" using 2(3) by simp_all
  have "rest = map (\<lambda>c. seedOf (cache_Identity c)) cs
      \<and> (\<forall>c \<in> set cs. cache_Identity c \<noteq> 0 \<and> cache_Weight c \<noteq> 0)
      \<and> sorted_wrt (<) (map cache_Identity cs)
      \<and> (\<forall>d. Some c = Some d \<longrightarrow> cs \<noteq> [] \<longrightarrow> cache_Identity d \<noteq> cache_Identity (hd cs))"
    using here by (intro 2(1) [OF _ _ rest(1) sorted(1)]) simp_all
  then have ih: "rest = map (\<lambda>c. seedOf (cache_Identity c)) cs" "\<forall>c \<in> set cs. cache_Identity c \<noteq> 0 \<and> cache_Weight c \<noteq> 0"
    "sorted_wrt (<) (map cache_Identity cs)" "cs \<noteq> [] \<Longrightarrow> cache_Identity c \<noteq> cache_Identity (hd cs)" by blast+
  have "cache_Identity c < cache_Identity d" if "d \<in> set cs" for d
  proof -
    obtain x xs where cs: "cs = x # xs" using \<open>d \<in> set cs\<close> by (cases cs) auto
    then have "cache_Identity c < cache_Identity x" using ih(4) sorted(2) by (simp add: order_less_le)
    moreover have "cache_Identity x \<le> cache_Identity d" using ih(3) cs \<open>d \<in> set cs\<close> by auto
    ultimately show ?thesis by (rule less_le_trans)
  qed
  then have "sorted_wrt (<) (map cache_Identity (c # cs))" using ih(3) by simp
  moreover have "\<forall>d. b = Some d \<longrightarrow> cache_Identity d \<noteq> cache_Identity c" using here(3) by auto
  ultimately show ?case using rest(2) here(1,2) ih(1,2) by simp
qed simp

lemma check_caches_succeeds:
  "sorted_wrt (<) (map cache_Identity cs) \<Longrightarrow> \<forall>c \<in> set cs. cache_Identity c \<noteq> 0 \<and> cache_Weight c \<noteq> 0 \<Longrightarrow>
     (\<forall>c. b = Some c \<longrightarrow> (\<forall>d \<in> set cs. cache_Identity c \<noteq> cache_Identity d)) \<Longrightarrow>
     check_caches b cs = Inr (map (\<lambda>c. seedOf (cache_Identity c)) cs)"
proof (induction b cs rule: check_caches.induct)
  case (2 b c cs)
  have "check_caches (Some c) cs = Inr (map (\<lambda>c. seedOf (cache_Identity c)) cs)"
    using 2(2-4) by (intro 2(1)) auto
  then show ?case using 2(3,4) by (cases b) auto
qed simp

lemma NewList_ok:
  assumes "NewList code caches earlier = Inr l"
  shows "list_ok l" "list_caches l = sort_key cache_Identity caches" "list_code l = code" "list_earlier l = earlier"
proof -
  obtain seeds where l: "l = \<lparr> list_code = code, list_earlier = earlier, list_caches = sort_key cache_Identity caches,
      list_seeds = seeds \<rparr>" "check_caches None (sort_key cache_Identity caches) = Inr seeds"
    "Validate code = Inr ()" "length earlier \<le> MaxEarlierCodes" "check_earlier code [] earlier = Inr ()"
    using assms by (auto simp: NewList_def Let_def split: sum.splits if_splits)
  show "list_ok l" using check_caches_Inr [OF l(2)] l by (simp add: list_ok_def)
  show "list_caches l = sort_key cache_Identity caches" "list_code l = code" "list_earlier l = earlier" by (simp_all add: l(1))
qed

lemma Without_eq:
  assumes "list_ok l"
  shows "list_ok (Without l i)" "list_caches (Without l i) = filter (\<lambda>c. cache_Identity c \<noteq> i) (list_caches l)"
    "list_code (Without l i) = list_code l"
proof -
  let ?kept = "filter (\<lambda>c. cache_Identity c \<noteq> i) (list_caches l)"
  have sorted: "sorted_wrt (<) (map cache_Identity ?kept)"
    using assms by (simp add: list_ok_def sorted_wrt_map sorted_wrt_filter)
  then have "sort_key cache_Identity ?kept = ?kept" by (simp add: sort_key_id_if_sorted strict_sorted_imp_sorted)
  moreover have "check_caches None ?kept = Inr (map (\<lambda>c. seedOf (cache_Identity c)) ?kept)"
    using sorted assms by (intro check_caches_succeeds) (auto simp: list_ok_def)
  ultimately have "NewList (list_code l) ?kept (list_earlier l) = Inr \<lparr> list_code = list_code l, list_earlier = list_earlier l,
      list_caches = ?kept, list_seeds = map (\<lambda>c. seedOf (cache_Identity c)) ?kept \<rparr>"
    using assms by (simp add: NewList_def list_ok_def Let_def)
  then show "list_ok (Without l i)" "list_caches (Without l i) = ?kept" "list_code (Without l i) = list_code l"
    using NewList_ok(1) by (auto simp: Without_def)
qed

section \<open>The ranking of a window\<close>

definition cache_scored :: "Window \<Rightarrow> Cache \<Rightarrow> scored" where
  "cache_scored window c = \<lparr> scored_at = 0, scored_weight = ucast (cache_Weight c),
     scored_distance = distance (mix (digest window XOR seedOf (cache_Identity c))), scored_identity = cache_Identity c \<rparr>"

text \<open>Which of two caches ranks higher for a window: the one with the higher quotient of weight and
  distance, and of two alike the one with the lower identity.\<close>

definition cache_before :: "Window \<Rightarrow> Cache \<Rightarrow> Cache \<Rightarrow> bool" where
  "cache_before window a b \<longleftrightarrow> quotient (cache_scored window b) < quotient (cache_scored window a)
     \<or> quotient (cache_scored window a) = quotient (cache_scored window b) \<and> cache_Identity a < cache_Identity b"

definition ranking :: "Window \<Rightarrow> Cache list \<Rightarrow> Cache list" where
  "ranking window caches = sort_func (cache_before window) caches"

lemma compare_cache_scored:
  "compare_scored (cache_scored w a) (cache_scored w b) < 0 \<longleftrightarrow> cache_before w a b"
  by (subst compare_quotient) (simp_all add: cache_before_def cache_scored_def distance_range)

interpretation cached: keyed_order "\<lambda>_. True" "cache_before w" cache_Identity for w
  by unfold_locales (auto simp: cache_before_def)

lemma Ranks_ranking:
  assumes "list_ok l"
  shows "Ranks l w = take (nat (Width (list_code l))) (ranking w (list_caches l))"
proof -
  let ?at = "\<lambda>s. list_caches l ! scored_at s"
  have "compare_scored x y < 0 \<longleftrightarrow> cache_before w (?at x) (?at y)" if xy: "x \<in> set (score l w)" "y \<in> set (score l w)" for x y
  proof -
    have same: "scored_weight z = scored_weight (cache_scored w (?at z))" "scored_distance z = scored_distance (cache_scored w (?at z))"
        "scored_identity z = scored_identity (cache_scored w (?at z))" if "z \<in> set (score l w)" for z
      using that assms by (auto simp: score_def cache_scored_def list_ok_def Let_def)
    have "compare_scored x y = compare_scored (cache_scored w (?at x)) (cache_scored w (?at y))"
      by (simp only: compare_scored_def [of x y] compare_scored_def [of "cache_scored w (?at x)"] same [OF xy(1)] same [OF xy(2)])
    then show ?thesis by (simp add: compare_cache_scored)
  qed
  then have "map ?at (sort_func scored_before (score l w)) = sort_func (cache_before w) (map ?at (score l w))"
    by (intro map_sort_func) simp
  moreover have "map ?at (score l w) = list_caches l"
    by (intro nth_equalityI) (simp_all add: score_def Let_def)
  moreover have "length (score l w) = length (list_caches l)" by (simp add: score_def Let_def)
  ultimately show ?thesis by (simp add: Ranks_def Let_def ranking_def take_map [symmetric] min_def)
qed

lemma keyed_caches: "list_ok l \<Longrightarrow> cached.keyed (list_caches l)"
  by (auto simp: cached.keyed_def list_ok_def strict_sorted_iff)

lemma filter_take: "set (filter P (take n xs)) \<subseteq> set (take n (filter P xs))"
proof -
  have "filter P xs = filter P (take n xs) @ filter P (drop n xs)" by (metis append_take_drop_id filter_append)
  moreover have "length (filter P (take n xs)) \<le> n" by (metis length_filter_le length_take min.boundedE)
  ultimately have "take n (filter P xs) = filter P (take n xs) @ take (n - length (filter P (take n xs))) (filter P (drop n xs))"
    by (metis take_all take_append)
  then show ?thesis by (metis set_append sup_ge1)
qed

text \<open>
  C35. A cache that leaves moves its own windows only: under the list without it, every other cache
  that held a stripe of a window still holds one, and a window it held nothing of is ranked as
  before.
\<close>

theorem leaving_cache_moves_its_own_windows:
  assumes "NewList code caches earlier = Inr l"
  shows "(\<forall>c \<in> set (Ranks l w). cache_Identity c \<noteq> i \<longrightarrow> c \<in> set (Ranks (Without l i) w))
    \<and> ((\<forall>c \<in> set (Ranks l w). cache_Identity c \<noteq> i) \<longrightarrow> Ranks (Without l i) w = Ranks l w)"
proof -
  let ?P = "\<lambda>c. cache_Identity c \<noteq> i" and ?n = "nat (Width (list_code l))" and ?all = "ranking w (list_caches l)"
  have ok: "list_ok l" using NewList_ok(1) [OF assms] .
  have before: "Ranks l w = take ?n ?all" by (rule Ranks_ranking [OF ok])
  have after: "Ranks (Without l i) w = take ?n (filter ?P ?all)"
    unfolding Ranks_ranking [OF Without_eq(1) [OF ok]] Without_eq(2,3) [OF ok] ranking_def
    by (simp add: cached.sort_filter [OF keyed_caches [OF ok]])
  have "c \<in> set (take ?n (filter ?P ?all))" if "c \<in> set (take ?n ?all)" "?P c" for c
    using filter_take [of ?P ?n ?all] that by auto
  moreover have "take ?n (filter ?P ?all) = take ?n ?all" if all: "\<forall>c \<in> set (take ?n ?all). ?P c"
  proof -
    have kept: "filter ?P (take ?n ?all) = take ?n ?all" using all by (simp add: filter_id_conv)
    have "filter ?P ?all = take ?n ?all @ filter ?P (drop ?n ?all)"
      by (metis (no_types, lifting) append_take_drop_id filter_append kept)
    then show ?thesis by (cases "?n \<le> length ?all") simp_all
  qed
  ultimately show ?thesis unfolding before after by blast
qed

definition ex_caches :: "Cache list" where
  "ex_caches = [\<lparr> cache_Identity = 3, cache_Weight = 1, cache_Address = ''c'' \<rparr>,
     \<lparr> cache_Identity = 1, cache_Weight = 2, cache_Address = ''a'' \<rparr>, \<lparr> cache_Identity = 2, cache_Weight = 1, cache_Address = ''b'' \<rparr>]"

definition ex_window :: Window where
  "ex_window = SegmentWindow \<lparr> ref_vm = ''vm'', ref_sequence = 1 \<rparr> ''disk'' 0"

lemma ex_list: "\<exists>l. NewList \<lparr> code_K = 1, code_M = 1 \<rparr> ex_caches [] = Inr l"
  by (simp add: NewList_def Validate_def Width_def ex_caches_def)

theorem leaving_cache_moves_its_own_windows_witness:
  "\<exists>l. NewList \<lparr> code_K = 1, code_M = 1 \<rparr> ex_caches [] = Inr l
    \<and> (\<forall>c \<in> set (Ranks l ex_window). cache_Identity c \<noteq> 2 \<longrightarrow> c \<in> set (Ranks (Without l 2) ex_window))"
  using ex_list leaving_cache_moves_its_own_windows [of "\<lparr> code_K = 1, code_M = 1 \<rparr>" ex_caches "[]" _ ex_window 2] by blast

text \<open>
  C36. A window's ranks are the best caches for it: as many as the code is wide, or all of them;
  in order of the quotient of weight and distance, ties to the lower identity; each before every
  cache of the list that is not among them; and a narrower code's are the first of a wider
  one's.
\<close>

theorem ranks_are_the_best_caches:
  assumes "NewList code caches earlier = Inr l" "Width narrow \<le> Width code"
  shows "length (Ranks l w) = min (length caches) (nat (Width code)) \<and> set (Ranks l w) \<subseteq> set caches
    \<and> sorted_wrt (cache_before w) (Ranks l w)
    \<and> (\<forall>r \<in> set (Ranks l w). \<forall>c \<in> set caches - set (Ranks l w). cache_before w r c)
    \<and> (list_ok (Under l narrow) \<longrightarrow> Ranks (Under l narrow) w = take (nat (Width narrow)) (Ranks l w))"
proof -
  let ?n = "nat (Width code)" and ?all = "ranking w (list_caches l)"
  note ok = NewList_ok [OF assms(1)]
  have ranks: "Ranks l w = take ?n ?all" using Ranks_ranking [OF ok(1)] ok(3) by simp
  have all: "set ?all = set caches" "length ?all = length caches" by (simp_all add: ranking_def ok(2))
  have sorted: "sorted_wrt (cache_before w) ?all"
    unfolding ranking_def by (rule cached.sort_sorted [OF keyed_caches [OF ok(1)]])
  have "sorted_wrt (cache_before w) (take ?n ?all @ drop ?n ?all)" using sorted by simp
  then have split: "sorted_wrt (cache_before w) (take ?n ?all)"
    "\<forall>r \<in> set (take ?n ?all). \<forall>c \<in> set (drop ?n ?all). cache_before w r c" unfolding sorted_wrt_append by blast+
  have "set ?all \<subseteq> set (take ?n ?all) \<union> set (drop ?n ?all)" by (metis append_take_drop_id order_refl set_append)
  moreover have "Ranks (Under l narrow) w = take (nat (Width narrow)) (Ranks l w)" if "list_ok (Under l narrow)"
    using Ranks_ranking [OF that] assms(2) by (simp add: Under_def ranks min_def)
  ultimately show ?thesis unfolding ranks using all split by (auto dest: in_set_takeD)
qed

theorem ranks_are_the_best_caches_witness:
  "\<exists>l. NewList \<lparr> code_K = 1, code_M = 1 \<rparr> ex_caches [] = Inr l \<and> length (Ranks l ex_window) = 2
    \<and> sorted_wrt (cache_before ex_window) (Ranks l ex_window)"
proof -
  obtain l where l: "NewList \<lparr> code_K = 1, code_M = 1 \<rparr> ex_caches [] = Inr l" using ex_list by blast
  moreover have "length ex_caches = 3" "Width \<lparr> code_K = 1, code_M = 1 \<rparr> = 2" by (simp_all add: ex_caches_def Width_def)
  ultimately show ?thesis
    using ranks_are_the_best_caches [OF l, of "\<lparr> code_K = 1, code_M = 1 \<rparr>" ex_window] by auto
qed

end
