(* ===== verification/Stripe.thy ===== *)
theory Stripe
  imports Rank
begin

text \<open>
  Envelopes cut into the stripes of an erasure code and rebuilt from any \<open>k\<close> of them
  (\<^verbatim>\<open>stripe/stripe.go\<close>).

  Reed-Solomon coding is the package \<^verbatim>\<open>klauspost/reedsolomon\<close>, and \<open>reedsolomon\<close> is its interface:
  an encoder for \<open>k\<close> data and \<open>m\<close> parity shards, the parity of a set of shards, and the data
  rebuilt from a set of shards in which a missing one is empty. The map of encoders only saves
  building one twice, and \<^verbatim>\<open>sim.Bug\<close> is false outside a simulation that plants a bug.
\<close>

record reedsolomon =
  rs_New :: "int \<Rightarrow> int \<Rightarrow> error + unit"
  rs_Encode :: "int \<Rightarrow> int \<Rightarrow> bytes list \<Rightarrow> error + bytes list"
  rs_ReconstructData :: "int \<Rightarrow> int \<Rightarrow> bytes list \<Rightarrow> error + bytes list"

abbreviation (input) MaxLength :: int where "MaxLength \<equiv> 2147483647"
abbreviation (input) maxAttempts :: nat where "maxAttempts \<equiv> 64"

record Stripe =
  stripe_Code :: Code
  stripe_Index :: int
  stripe_Length :: int
  stripe_Bytes :: bytes

definition Size :: "Code \<Rightarrow> int \<Rightarrow> int" where
  "Size code len =
     (if len \<le> 0 \<or> code_K code < 1 then 0
      else quotient_toward_zero (wrap64 (wrap64 (len + code_K code) - 1)) (code_K code))"

definition encoderFor :: "reedsolomon \<Rightarrow> Code \<Rightarrow> error + unit" where
  "encoderFor rs code = rs_New rs (code_K code) (code_M code)"

section \<open>Splitting\<close>

definition cut_shards :: "Code \<Rightarrow> bytes \<Rightarrow> bytes list" where
  "cut_shards code envelope =
     (let size = nat (Size code (int (length envelope))); width = nat (Width code);
          all = take (width * size) (envelope @ replicate (width * size - length envelope) 0)
      in map (\<lambda>index. take size (drop (index * size) all)) [0..<width])"

definition label_stripes :: "Code \<Rightarrow> bytes \<Rightarrow> bytes list \<Rightarrow> Stripe list" where
  "label_stripes code envelope shards =
     map (\<lambda>index. \<lparr> stripe_Code = code, stripe_Index = int index, stripe_Length = int (length envelope),
         stripe_Bytes = shards ! index \<rparr>) [0..<nat (Width code)]"

text \<open>
  As in \<open>Ranks\<close>, a code whose width wraps to a negative number gets past \<open>Validate\<close>. The source then
  panics making its slices and this function gives no stripes.
\<close>

definition Split :: "reedsolomon \<Rightarrow> Code \<Rightarrow> bytes \<Rightarrow> error + Stripe list" where
  "Split rs code envelope =
     (case Validate code of
        Inl err \<Rightarrow> Inl err
      | Inr _ \<Rightarrow>
          if int (length envelope) > MaxLength then Inl [Other 0]
          else if code_K code = 1
          then Inr (label_stripes code envelope (replicate (nat (Width code)) envelope))
          else
            let shards = cut_shards code envelope
            in if code_M code > 0 \<and> Size code (int (length envelope)) > 0
               then (case encoderFor rs code of
                       Inl err \<Rightarrow> Inl err
                     | Inr _ \<Rightarrow>
                         (case rs_Encode rs (code_K code) (code_M code) shards of
                            Inl err \<Rightarrow> Inl err
                          | Inr encoded \<Rightarrow> Inr (label_stripes code envelope encoded)))
               else Inr (label_stripes code envelope shards))"

section \<open>Joining\<close>

record Joined =
  joined_Envelope :: bytes
  joined_Used :: "nat list"
  joined_Wrong :: "nat list"

definition wellFormed :: "Code \<Rightarrow> Stripe \<Rightarrow> bool" where
  "wellFormed code s \<longleftrightarrow> stripe_Index s \<ge> 0 \<and> stripe_Index s < Width code \<and> stripe_Length s \<ge> 0
     \<and> stripe_Length s \<le> MaxLength \<and> int (length (stripe_Bytes s)) = Size code (stripe_Length s)"

definition Stripe_Valid :: "Stripe \<Rightarrow> bool" where
  "Stripe_Valid s \<longleftrightarrow> Validate (stripe_Code s) = Inr () \<and> wellFormed (stripe_Code s) s"

text \<open>Sets of \<open>k\<close> candidates in the order the closure \<^verbatim>\<open>walk\<close> yields them: \<open>walk\<close> is the loop of that
  closure over the candidates that are left.\<close>

definition clashes :: "Stripe list \<Rightarrow> nat list \<Rightarrow> nat \<Rightarrow> bool" where
  "clashes stripes chosen at \<longleftrightarrow>
     chosen \<noteq> [] \<and> stripe_Length (stripes ! hd chosen) \<noteq> stripe_Length (stripes ! at)
     \<or> list_ex (\<lambda>position. stripe_Index (stripes ! position) = stripe_Index (stripes ! at)) chosen"

fun walk :: "nat \<Rightarrow> Stripe list \<Rightarrow> nat list \<Rightarrow> nat list \<Rightarrow> nat list list" where
  "walk k stripes chosen [] = (if length chosen = k then [chosen] else [])"
| "walk k stripes chosen (at # candidates) =
     (if length chosen = k then [chosen]
      else if Suc (length candidates) < k - length chosen then []
      else if clashes stripes chosen at then walk k stripes chosen candidates
      else walk k stripes (chosen @ [at]) candidates @ walk k stripes chosen candidates)"

definition subsets :: "Code \<Rightarrow> Stripe list \<Rightarrow> nat list \<Rightarrow> nat list list" where
  "subsets code stripes candidates = walk (nat (code_K code)) stripes [] candidates"

text \<open>The shards a set of stripes gives, \<open>None\<close> where it has none.\<close>

definition shards_of :: "Code \<Rightarrow> Stripe list \<Rightarrow> nat list \<Rightarrow> bytes option list" where
  "shards_of code stripes picks =
     foldl (\<lambda>shards position. shards[nat (stripe_Index (stripes ! position)) := Some (stripe_Bytes (stripes ! position))])
       (replicate (nat (Width code)) None) picks"

definition decode_shards :: "reedsolomon \<Rightarrow> Code \<Rightarrow> bytes option list \<Rightarrow> error + bytes" where
  "decode_shards rs code shards =
     (let k = nat (code_K code); data = take k shards
      in if None \<notin> set data then Inr (concat (map the data))
         else case encoderFor rs code of
           Inl err \<Rightarrow> Inl err
         | Inr _ \<Rightarrow>
             (case rs_ReconstructData rs (code_K code) (code_M code) (map (case_option [] id) shards) of
                Inl err \<Rightarrow> Inl err
              | Inr rebuilt \<Rightarrow> Inr (concat (map (\<lambda>index. case_option (rebuilt ! index) id (data ! index)) [0..<k]))))"

definition rebuild :: "reedsolomon \<Rightarrow> Code \<Rightarrow> Stripe list \<Rightarrow> nat list \<Rightarrow> error + bytes" where
  "rebuild rs code stripes picks =
     (let len = stripe_Length (stripes ! hd picks)
      in if code_K code = 1 then Inr (stripe_Bytes (stripes ! hd picks))
         else if Size code len = 0 then Inr []
         else case decode_shards rs code (shards_of code stripes picks) of
           Inl err \<Rightarrow> Inl err
         | Inr envelope \<Rightarrow>
             if list_ex (\<lambda>b. b \<noteq> 0) (drop (nat len) envelope) then Inl [Padding]
             else Inr (take (nat len) envelope))"

definition mismatched :: "reedsolomon \<Rightarrow> Code \<Rightarrow> Stripe list \<Rightarrow> nat list \<Rightarrow> bytes \<Rightarrow> error + nat list" where
  "mismatched rs code stripes candidates envelope =
     (case Split rs code envelope of
        Inl err \<Rightarrow> Inl err
      | Inr own \<Rightarrow>
          Inr (filter (\<lambda>position. let s = stripes ! position
              in stripe_Length s \<noteq> int (length envelope)
                 \<or> stripe_Bytes s \<noteq> stripe_Bytes (own ! nat (stripe_Index s))) candidates))"

definition Joined_finish :: "Joined \<Rightarrow> Joined" where
  "Joined_finish joined = joined\<lparr> joined_Wrong := remdups_adj (sort (joined_Wrong joined)) \<rparr>"

text \<open>One set rebuilt and checked, and the loop over the sets. \<open>tried\<close> is what the loop leaves in the
  variables of \<open>Join\<close>: the envelope with the set that made it, the attempts, whether one failed, and
  the wrong positions.\<close>

type_synonym tried = "(bytes \<times> nat list) option \<times> nat \<times> bool \<times> nat list"

definition rebuild_checked ::
    "reedsolomon \<Rightarrow> Code \<Rightarrow> Stripe list \<Rightarrow> (bytes \<Rightarrow> error option) option \<Rightarrow> nat list \<Rightarrow> error + bytes" where
  "rebuild_checked rs code stripes check picks =
     (case rebuild rs code stripes picks of
        Inl err \<Rightarrow> Inl err
      | Inr envelope \<Rightarrow>
          (case check of
             None \<Rightarrow> Inr envelope
           | Some test \<Rightarrow> (case test envelope of None \<Rightarrow> Inr envelope | Some err \<Rightarrow> Inl err)))"

fun try_sets ::
    "reedsolomon \<Rightarrow> Code \<Rightarrow> Stripe list \<Rightarrow> (bytes \<Rightarrow> error option) option \<Rightarrow> nat \<Rightarrow> bool \<Rightarrow> nat list \<Rightarrow>
     nat list list \<Rightarrow> tried" where
  "try_sets rs code stripes check attempts failed wrong [] = (None, attempts, failed, wrong)"
| "try_sets rs code stripes check attempts failed wrong (picks # sets) =
     (if attempts = maxAttempts then (None, attempts, failed, wrong)
      else case rebuild_checked rs code stripes check picks of
        Inr envelope \<Rightarrow> (Some (envelope, picks), Suc attempts, failed, wrong)
      | Inl _ \<Rightarrow>
          try_sets rs code stripes check (Suc attempts) True
            (if code_K code = 1 then wrong @ [hd picks] else wrong) sets)"

definition no_joined :: Joined where
  "no_joined = \<lparr> joined_Envelope = [], joined_Used = [], joined_Wrong = [] \<rparr>"

definition Join ::
    "reedsolomon \<Rightarrow> Code \<Rightarrow> Stripe list \<Rightarrow> (bytes \<Rightarrow> error option) option \<Rightarrow> Joined \<times> error option" where
  "Join rs code stripes check =
     (case Validate code of
        Inl err \<Rightarrow> (no_joined, Some err)
      | Inr _ \<Rightarrow>
          let mine = filter (\<lambda>at. stripe_Code (stripes ! at) = code) [0..<length stripes];
              malformed = filter (\<lambda>at. \<not> wellFormed code (stripes ! at)) mine;
              candidates = filter (\<lambda>at. wellFormed code (stripes ! at)) mine
          in (case try_sets rs code stripes check 0 False malformed (subsets code stripes candidates) of
                (None, attempts, failed, wrong) \<Rightarrow>
                  (Joined_finish (no_joined\<lparr> joined_Wrong := wrong \<rparr>),
                   Some [if attempts = 0 then TooFew else WrongStripes])
              | (Some (envelope, picks), attempts, failed, wrong) \<Rightarrow>
                  let joined = \<lparr> joined_Envelope = envelope, joined_Used = picks, joined_Wrong = wrong \<rparr>
                  in if failed
                     then (case mismatched rs code stripes candidates envelope of
                             Inl err \<Rightarrow> (no_joined, Some err)
                           | Inr more_wrong \<Rightarrow> (Joined_finish (joined\<lparr> joined_Wrong := wrong @ more_wrong \<rparr>), None))
                     else (Joined_finish joined, None)))"

end
