(* ===== verification/Stripe_Theorems.thy ===== *)
theory Stripe_Theorems
  imports Stripe "HOL-Library.Sublist"
begin

text \<open>
  What striping promises: any \<open>k\<close> stripes rebuild the envelope, and damaged ones among them are
  found and named.

  \<open>code_fits\<close> is a code whose two numbers add up without wrapping, and \<open>rs_ok\<close> what the package
  documents of Reed-Solomon coding: encoding keeps the data shards and computes parity shards of
  the same length, and any \<open>k\<close> of the shards rebuild the data.
\<close>

definition code_fits :: "Code \<Rightarrow> bool" where
  "code_fits code \<longleftrightarrow> 1 \<le> code_K code \<and> 0 \<le> code_M code \<and> code_K code + code_M code \<le> maxWidth"

definition present_shards :: "bytes list \<Rightarrow> nat set \<Rightarrow> bytes list" where
  "present_shards shards present = map (\<lambda>i. if i \<in> present then shards ! i else []) [0..<length shards]"

definition rs_ok :: "reedsolomon \<Rightarrow> Code \<Rightarrow> bool" where
  "rs_ok rs code \<longleftrightarrow>
     (let k = nat (code_K code); m = nat (code_M code) in
      rs_New rs (code_K code) (code_M code) = Inr ()
      \<and> (\<forall>sz data room. 0 < sz \<longrightarrow> length data = k \<longrightarrow> length room = m \<longrightarrow>
           (\<forall>shard \<in> set (data @ room). length shard = sz) \<longrightarrow>
           (\<exists>parity. rs_Encode rs (code_K code) (code_M code) (data @ room) = Inr (data @ parity)
              \<and> length parity = m \<and> (\<forall>shard \<in> set parity. length shard = sz)
              \<and> (\<forall>present. present \<subseteq> {..<k + m} \<longrightarrow> card present = k \<longrightarrow>
                   (\<exists>rebuilt. rs_ReconstructData rs (code_K code) (code_M code) (present_shards (data @ parity) present) = Inr rebuilt
                      \<and> take k rebuilt = data)))))"

lemma rs_okD:
  assumes "rs_ok rs code" "0 < sz" "length data = nat (code_K code)" "length room = nat (code_M code)"
    "\<forall>shard \<in> set (data @ room). length shard = sz"
  shows "\<exists>parity. rs_Encode rs (code_K code) (code_M code) (data @ room) = Inr (data @ parity)
    \<and> length parity = nat (code_M code) \<and> (\<forall>shard \<in> set parity. length shard = sz)
    \<and> (\<forall>present. present \<subseteq> {..<nat (code_K code) + nat (code_M code)} \<longrightarrow> card present = nat (code_K code) \<longrightarrow>
         (\<exists>rebuilt. rs_ReconstructData rs (code_K code) (code_M code) (present_shards (data @ parity) present) = Inr rebuilt
            \<and> take (nat (code_K code)) rebuilt = data))"
  using assms unfolding rs_ok_def Let_def by simp

section \<open>Sets of stripes\<close>

text \<open>The sets that could rebuild one envelope: distinct indices and one length.\<close>

abbreviation apart :: "Stripe list \<Rightarrow> nat \<Rightarrow> nat \<Rightarrow> bool" where
  "apart stripes p q \<equiv> stripe_Index (stripes ! p) \<noteq> stripe_Index (stripes ! q) \<and> stripe_Length (stripes ! p) = stripe_Length (stripes ! q)"

lemma clashes_apart:
  "sorted_wrt (apart stripes) chosen \<Longrightarrow> \<not> clashes stripes chosen at \<longleftrightarrow> (\<forall>p \<in> set chosen. apart stripes p at)"
  by (cases chosen) (auto simp: clashes_def list_ex_iff)

lemma walk_sound:
  "sorted_wrt (apart stripes) chosen \<Longrightarrow> picks \<in> set (walk k stripes chosen candidates) \<Longrightarrow>
     length picks = k \<and> sorted_wrt (apart stripes) picks \<and> set picks \<subseteq> set chosen \<union> set candidates"
proof (induction k stripes chosen candidates rule: walk.induct)
  case (2 k stripes chosen at candidates)
  show ?case
  proof (cases "length chosen = k \<or> Suc (length candidates) < k - length chosen \<or> clashes stripes chosen at")
    case False
    then have "sorted_wrt (apart stripes) (chosen @ [at])" using 2(4) clashes_apart by (auto simp: sorted_wrt_append)
    then show ?thesis using False 2(2,3) 2(4,5) by fastforce
  qed (use 2(1) 2(4,5) in \<open>auto split: if_splits\<close>)
qed (auto split: if_splits)

lemma walk_complete:
  "sorted_wrt (apart stripes) (chosen @ rest) \<Longrightarrow> subseq rest candidates \<Longrightarrow> length (chosen @ rest) = k \<Longrightarrow>
     chosen @ rest \<in> set (walk k stripes chosen candidates)"
proof (induction k stripes chosen candidates arbitrary: rest rule: walk.induct)
  case (2 k stripes chosen at candidates)
  have room: "length rest \<le> Suc (length candidates)" using list_emb_length [OF 2(5)] by simp
  show ?case
  proof (cases rest)
    case (Cons q rest')
    have go: "length chosen \<noteq> k" "\<not> Suc (length candidates) < k - length chosen" using 2(6) room Cons by auto
    show ?thesis
    proof (cases "q = at \<and> subseq rest' candidates")
      case True
      then have "\<not> clashes stripes chosen at"
        using 2(4) Cons clashes_apart [of stripes chosen at] by (simp add: sorted_wrt_append)
      then show ?thesis using 2(2) [OF go, of rest'] 2(4,6) Cons True go by simp
    next
      case False
      then have "subseq rest candidates" using 2(5) Cons by (auto elim: list_emb.cases)
      then show ?thesis using 2(1) [OF go] 2(3) [OF go] 2(4,6) go by (cases "clashes stripes chosen at") auto
    qed
  qed (use 2(6) in simp)
qed auto

lemma walk_length:
  "length chosen \<le> k \<Longrightarrow> length (walk k stripes chosen candidates) \<le> length candidates choose (k - length chosen)"
proof (induction k stripes chosen candidates rule: walk.induct)
  case (2 k stripes chosen at candidates)
  show ?case
  proof (cases "length chosen = k")
    case False
    then obtain n where n: "k - length chosen = Suc n" using 2(4) by (metis Suc_diff_le diff_is_0_eq le_SucE not0_implies_Suc)
    have "k - length (chosen @ [at]) = n" using n by simp
    then show ?thesis
      using 2(1) [OF False _ _ 2(4)] 2(2) [OF False] 2(3) [OF False _ _ 2(4)] 2(4) False n by (auto intro: add_mono le_add2 order_trans)
  qed simp
qed auto

section \<open>The stripes of an envelope\<close>

lemma code_fits:
  assumes "code_fits code"
  shows "Validate code = Inr ()" "Width code = code_K code + code_M code"
    "nat (Width code) = nat (code_K code) + nat (code_M code)" "0 < nat (code_K code)"
  using assms by (simp_all add: code_fits_def Validate_def Width_def nat_add_distrib)

lemma Size_fits:
  assumes "code_fits code" "0 \<le> len" "len \<le> MaxLength"
  shows "0 \<le> Size code len" "len \<le> code_K code * Size code len" "Size code len = 0 \<longleftrightarrow> len = 0"
    "code_K code = 1 \<Longrightarrow> Size code len = len"
proof -
  have K: "1 \<le> code_K code" "code_K code \<le> 32" using assms(1) by (simp_all add: code_fits_def)
  have len: "Size code len = (if len = 0 then 0 else (len + code_K code - 1) div code_K code)"
    using K assms(2,3) by (simp add: Size_def)
  have mod: "code_K code * ((len + code_K code - 1) div code_K code) = len + code_K code - 1 - (len + code_K code - 1) mod code_K code"
    by (simp add: minus_mod_eq_mult_div)
  have bound: "(len + code_K code - 1) mod code_K code \<le> code_K code - 1" using K pos_mod_bound [of "code_K code"] by (simp add: zle_diff1_eq)
  show "len \<le> code_K code * Size code len" using mod bound assms(2) by (simp add: len)
  show "0 \<le> Size code len" using K assms(2) by (simp add: len pos_imp_zdiv_nonneg_iff)
  have "1 \<le> (len + code_K code - 1) div code_K code" if "len \<noteq> 0"
    using that K assms(2) zdiv_mono1 [of "code_K code" "len + code_K code - 1" "code_K code"] by simp
  then show "Size code len = 0 \<longleftrightarrow> len = 0" by (auto simp: len)
  show "code_K code = 1 \<Longrightarrow> Size code len = len" by (simp add: len)
qed

lemma concat_chunks: "concat (map (\<lambda>i. take n (drop (i * n) xs)) [0..<k]) = take (k * n) xs"
  by (induction k) (simp_all add: take_add [symmetric] add.commute)

definition shards_for :: "reedsolomon \<Rightarrow> Code \<Rightarrow> bytes \<Rightarrow> bytes list \<Rightarrow> bool" where
  "shards_for rs code envelope shards \<longleftrightarrow>
     (let k = nat (code_K code); sz = nat (Size code (int (length envelope))) in
      length shards = nat (Width code) \<and> (\<forall>shard \<in> set shards. length shard = sz)
      \<and> (k = 1 \<longrightarrow> (\<forall>shard \<in> set shards. shard = envelope))
      \<and> (k \<noteq> 1 \<longrightarrow> concat (take k shards) = envelope @ replicate (k * sz - length envelope) 0)
      \<and> (k \<noteq> 1 \<longrightarrow> 0 < code_M code \<longrightarrow> 0 < sz \<longrightarrow>
           (\<forall>present. present \<subseteq> {..<length shards} \<longrightarrow> card present = k \<longrightarrow>
              (\<exists>rebuilt. rs_ReconstructData rs (code_K code) (code_M code) (present_shards shards present) = Inr rebuilt
                 \<and> take k rebuilt = take k shards))))"

lemma cut_shards_data:
  assumes "code_fits code" "int (length envelope) \<le> MaxLength"
  defines "k \<equiv> nat (code_K code)" and "sz \<equiv> nat (Size code (int (length envelope)))"
  shows "length (cut_shards code envelope) = nat (Width code)"
    "\<forall>shard \<in> set (cut_shards code envelope). length shard = sz"
    "concat (take k (cut_shards code envelope)) = envelope @ replicate (k * sz - length envelope) 0"
proof -
  let ?w = "nat (Width code)"
  note S = Size_fits [OF assms(1) of_nat_0_le_iff assms(2)]
  have w: "k \<le> ?w" using code_fits(3) [OF assms(1)] by (simp add: k_def)
  have "int (length envelope) \<le> int (k * sz)" using S(1,2) assms(1) by (simp add: k_def sz_def code_fits_def)
  then have fit: "length envelope \<le> k * sz" by linarith
  then have fits: "length envelope \<le> ?w * sz" using w mult_le_mono1 order_trans by blast
  define all where "all = envelope @ replicate (?w * sz - length envelope) 0"
  have cut: "cut_shards code envelope = map (\<lambda>i. take sz (drop (i * sz) all)) [0..<?w]"
    using fits by (simp add: cut_shards_def Let_def all_def sz_def)
  have all: "length all = ?w * sz" using fits by (simp add: all_def)
  show "length (cut_shards code envelope) = ?w" by (simp add: cut)
  have "length (take sz (drop (i * sz) all)) = sz" if "i < ?w" for i
  proof -
    have "sz + i * sz \<le> ?w * sz" using mult_le_mono1 [of "Suc i" ?w sz] that by simp
    then show ?thesis by (simp add: all)
  qed
  then show "\<forall>shard \<in> set (cut_shards code envelope). length shard = sz" by (simp add: cut)
  have "concat (take k (cut_shards code envelope)) = take (k * sz) all"
    using concat_chunks [of sz all k] w by (simp add: cut take_map)
  also have "\<dots> = envelope @ replicate (k * sz - length envelope) 0"
    using fit mult_le_mono1 [OF w, of sz] diff_le_mono [OF mult_le_mono1 [OF w]] by (simp add: all_def)
  finally show "concat (take k (cut_shards code envelope)) = envelope @ replicate (k * sz - length envelope) 0" .
qed

lemma Split_shards:
  assumes "code_fits code" "int (length envelope) \<le> MaxLength" "rs_ok rs code"
  obtains shards where "Split rs code envelope = Inr (label_stripes code envelope shards)" "shards_for rs code envelope shards"
proof (cases "code_K code = 1")
  case True
  have "shards_for rs code envelope (replicate (nat (Width code)) envelope)"
    using True Size_fits(4) [OF assms(1) of_nat_0_le_iff assms(2)] by (simp add: shards_for_def Let_def)
  moreover have "Split rs code envelope = Inr (label_stripes code envelope (replicate (nat (Width code)) envelope))"
    using True assms code_fits(1) by (simp add: Split_def)
  ultimately show ?thesis using that by blast
next
  case many: False
  then have k: "nat (code_K code) \<noteq> 1" using assms(1) by (simp add: code_fits_def)
  let ?cut = "cut_shards code envelope" and ?k = "nat (code_K code)" and ?sz = "Size code (int (length envelope))"
  note cut = cut_shards_data [OF assms(1,2)]
  show ?thesis
  proof (cases "code_M code > 0 \<and> ?sz > 0")
    case False
    then have "Split rs code envelope = Inr (label_stripes code envelope ?cut)"
      using many assms(2) code_fits(1) [OF assms(1)] by (auto simp: Split_def Let_def)
    moreover have "shards_for rs code envelope ?cut"
      using cut False k Size_fits(1) [OF assms(1) of_nat_0_le_iff assms(2)] by (auto simp: shards_for_def Let_def)
    ultimately show ?thesis using that by blast
  next
    case True
    have "length (take ?k ?cut) = ?k" "length (drop ?k ?cut) = nat (code_M code)"
      "\<forall>shard \<in> set (take ?k ?cut @ drop ?k ?cut). length shard = nat ?sz" "0 < nat ?sz"
      using cut(1,2) code_fits(3) [OF assms(1)] True by simp_all
    from rs_okD [OF assms(3) this(4,1,2,3)]
    obtain parity where parity: "rs_Encode rs (code_K code) (code_M code) ?cut = Inr (take ?k ?cut @ parity)"
        "length parity = nat (code_M code)" "\<forall>shard \<in> set parity. length shard = nat ?sz"
        "\<forall>present. present \<subseteq> {..<?k + nat (code_M code)} \<longrightarrow> card present = ?k \<longrightarrow>
           (\<exists>rebuilt. rs_ReconstructData rs (code_K code) (code_M code) (present_shards (take ?k ?cut @ parity) present) = Inr rebuilt
              \<and> take ?k rebuilt = take ?k ?cut)"
      unfolding append_take_drop_id by blast
    have "shards_for rs code envelope (take ?k ?cut @ parity)"
      using cut parity(2-4) k code_fits(3) [OF assms(1)] unfolding shards_for_def Let_def
      by (auto dest: in_set_takeD)
    moreover have "Split rs code envelope = Inr (label_stripes code envelope (take ?k ?cut @ parity))"
      using many True assms(2,3) parity(1) code_fits(1) [OF assms(1)]
      by (simp add: Split_def encoderFor_def rs_ok_def Let_def)
    ultimately show ?thesis using that by blast
  qed
qed

section \<open>Rebuilding\<close>

lemma own_stripe:
  "s \<in> set (label_stripes code envelope shards) \<longleftrightarrow> stripe_Code s = code \<and> stripe_Length s = int (length envelope)
     \<and> 0 \<le> stripe_Index s \<and> stripe_Index s < Width code \<and> stripe_Bytes s = shards ! nat (stripe_Index s)"
proof
  assume s: "stripe_Code s = code \<and> stripe_Length s = int (length envelope)
     \<and> 0 \<le> stripe_Index s \<and> stripe_Index s < Width code \<and> stripe_Bytes s = shards ! nat (stripe_Index s)"
  then have "s = \<lparr> stripe_Code = code, stripe_Index = int (nat (stripe_Index s)), stripe_Length = int (length envelope),
      stripe_Bytes = shards ! nat (stripe_Index s) \<rparr>" by simp
  moreover have "nat (stripe_Index s) < nat (Width code)" using s by auto
  ultimately show "s \<in> set (label_stripes code envelope shards)"
    unfolding label_stripes_def set_map by (intro image_eqI [where x = "nat (stripe_Index s)"]) auto
qed (auto simp: label_stripes_def)

lemma shards_of_own:
  assumes "\<forall>p \<in> set picks. stripes ! p \<in> set (label_stripes code envelope shards)"
  shows "shards_of code stripes picks =
    map (\<lambda>i. if i \<in> (\<lambda>p. nat (stripe_Index (stripes ! p))) ` set picks then Some (shards ! i) else None) [0..<nat (Width code)]"
  using assms
proof (induction picks rule: rev_induct)
  case (snoc p picks)
  then show ?case by (auto simp: shards_of_def own_stripe nth_list_update intro!: nth_equalityI)
qed (auto simp: shards_of_def intro!: nth_equalityI)

lemma distinct_apart: "sorted_wrt (\<lambda>x y. f x \<noteq> f y) xs \<Longrightarrow> distinct (map f xs)"
  by (induction xs) auto

lemma decode_all:
  "None \<notin> set (take (nat (code_K code)) shards) \<Longrightarrow>
     decode_shards rs code shards = Inr (concat (map the (take (nat (code_K code)) shards)))"
  by (simp add: decode_shards_def Let_def)

lemma decode_rebuilt:
  assumes "None \<in> set (take (nat (code_K code)) shards)" "rs_ok rs code"
    "rs_ReconstructData rs (code_K code) (code_M code) (map (case_option [] id) shards) = Inr rebuilt"
  shows "decode_shards rs code shards = Inr (concat (map (\<lambda>index. case_option (rebuilt ! index) id (take (nat (code_K code)) shards ! index))
    [0..<nat (code_K code)]))"
  using assms by (simp add: decode_shards_def Let_def encoderFor_def rs_ok_def)

lemma decode_own:
  assumes fits: "code_fits code" and shards: "shards_for rs code envelope shards" and rs: "rs_ok rs code"
    and K: "nat (code_K code) \<noteq> 1" and sz: "0 < Size code (int (length envelope))"
    and present: "present \<subseteq> {..<nat (Width code)}" "card present = nat (code_K code)"
  shows "decode_shards rs code (map (\<lambda>i. if i \<in> present then Some (shards ! i) else None) [0..<nat (Width code)])
    = Inr (concat (take (nat (code_K code)) shards))"
proof -
  let ?k = "nat (code_K code)" and ?w = "nat (Width code)"
  define got where "got = map (\<lambda>i. if i \<in> present then Some (shards ! i) else None) [0..<?w]"
  have w: "?k \<le> ?w" "length shards = ?w" using code_fits(3) [OF fits] shards by (simp_all add: shards_for_def Let_def)
  have data: "take ?k got = map (\<lambda>i. if i \<in> present then Some (shards ! i) else None) [0..<?k]"
    using w by (simp add: got_def take_map)
  have "decode_shards rs code got = Inr (concat (take ?k shards))"
  proof (cases "{..<?k} \<subseteq> present")
    case True
    then have all: "take ?k got = map Some (take ?k shards)"
      unfolding data using w by (intro nth_equalityI) auto
    show ?thesis using decode_all [of code got rs] unfolding all by (auto simp: comp_def)
  next
    case False
    have missing: "None \<in> set (take ?k got)" using False unfolding data by auto
    have given: "map (case_option [] id) got = present_shards shards present"
      unfolding got_def present_shards_def w(2) by (intro nth_equalityI) auto
    have "0 < code_M code"
    proof (rule ccontr)
      assume "\<not> 0 < code_M code"
      then have "?w = ?k" using fits code_fits(3) [OF fits] by (simp add: code_fits_def)
      then have "present = {..<?k}" using present by (intro card_subset_eq) auto
      then show False using False by simp
    qed
    then obtain rebuilt where rebuilt: "rs_ReconstructData rs (code_K code) (code_M code) (present_shards shards present) = Inr rebuilt"
        "take ?k rebuilt = take ?k shards"
      using shards K sz present w(2) unfolding shards_for_def Let_def by (metis zero_less_nat_eq)
    have "rebuilt ! i = shards ! i" if "i < ?k" for i using rebuilt(2) that by (metis nth_take)
    then have "map (\<lambda>i. case_option (rebuilt ! i) id (take ?k got ! i)) [0..<?k] = take ?k shards"
      unfolding data using w by (intro nth_equalityI) auto
    then show ?thesis using decode_rebuilt [OF missing rs] rebuilt(1) unfolding given by simp
  qed
  then show ?thesis unfolding got_def .
qed

lemma rebuild_own:
  assumes fits: "code_fits code" and len: "int (length envelope) \<le> MaxLength" and shards: "shards_for rs code envelope shards"
    and rs: "rs_ok rs code" and picks: "sorted_wrt (apart stripes) picks" "length picks = nat (code_K code)"
    and own: "\<forall>p \<in> set picks. stripes ! p \<in> set (label_stripes code envelope shards)"
  shows "rebuild rs code stripes picks = Inr envelope"
proof -
  let ?index = "\<lambda>p. nat (stripe_Index (stripes ! p))" and ?k = "nat (code_K code)"
  have "hd picks \<in> set picks" using picks(2) code_fits(4) [OF fits] by (intro hd_in_set) auto
  then have first: "stripe_Length (stripes ! hd picks) = int (length envelope)"
      "stripe_Bytes (stripes ! hd picks) \<in> set shards"
    using own shards by (auto simp: own_stripe shards_for_def Let_def nat_less_eq_zless intro!: nth_mem)
  note S = Size_fits [OF fits of_nat_0_le_iff len]
  show ?thesis
  proof (cases "code_K code = 1 \<or> Size code (int (length envelope)) = 0")
    case True
    then show ?thesis using first shards S(3) by (auto simp: rebuild_def Let_def shards_for_def)
  next
    case False
    have "sorted_wrt (\<lambda>p q. ?index p \<noteq> ?index q) picks"
      using picks(1) own by (intro sorted_wrt_mono_rel [OF _ picks(1)]) (auto simp: own_stripe eq_nat_nat_iff)
    then have "card (?index ` set picks) = ?k" using distinct_card [OF distinct_apart] picks(2) by fastforce
    moreover have "?index ` set picks \<subseteq> {..<nat (Width code)}" using own by (auto simp: own_stripe)
    moreover have k: "?k \<noteq> 1" using False fits nat_eq_iff [of "code_K code" 1] by (simp add: code_fits_def)
    ultimately have decoded: "decode_shards rs code (shards_of code stripes picks) = Inr (concat (take ?k shards))"
      unfolding shards_of_own [OF own] using decode_own [OF fits shards rs] False S(1) by simp
    show ?thesis using False decoded first(1) shards k
      by (simp add: rebuild_def Let_def shards_for_def list_ex_iff)
  qed
qed

section \<open>Joining\<close>

lemma sorted_wrt_distinct: "distinct xs \<Longrightarrow> (\<And>p q. p \<in> set xs \<Longrightarrow> q \<in> set xs \<Longrightarrow> p \<noteq> q \<Longrightarrow> R p q) \<Longrightarrow> sorted_wrt R xs"
  by (induction xs) auto

lemma walk_reaches:
  assumes "P \<subseteq> set candidates" "distinct candidates" "card P = k"
    and "inj_on (\<lambda>p. stripe_Index (stripes ! p)) P" "\<forall>p \<in> P. stripe_Length (stripes ! p) = len"
  shows "filter (\<lambda>p. p \<in> P) candidates \<in> set (walk k stripes [] candidates)"
proof -
  have P: "set (filter (\<lambda>p. p \<in> P) candidates) = P" using assms(1) by auto
  have "length (filter (\<lambda>p. p \<in> P) candidates) = k" using distinct_card [OF distinct_filter [OF assms(2)]] P assms(3) by metis
  moreover have "sorted_wrt (apart stripes) (filter (\<lambda>p. p \<in> P) candidates)"
    using assms(2,4,5) by (intro sorted_wrt_distinct) (auto dest: inj_onD)
  ultimately show ?thesis using walk_complete [of stripes "[]" "filter (\<lambda>p. p \<in> P) candidates" candidates k] by simp
qed

lemma try_sets_finds:
  assumes "\<exists>x \<in> set sets. \<exists>envelope. rebuild_checked rs code stripes check x = Inr envelope" "attempts + length sets \<le> maxAttempts"
  shows "\<exists>before x after envelope. sets = before @ x # after \<and> rebuild_checked rs code stripes check x = Inr envelope
    \<and> (\<forall>y \<in> set before. \<exists>err. rebuild_checked rs code stripes check y = Inl err)
    \<and> try_sets rs code stripes check attempts failed wrong sets = (Some (envelope, x), Suc (attempts + length before),
        failed \<or> before \<noteq> [], wrong @ (if code_K code = 1 then map hd before else []))"
  using assms
proof (induction sets arbitrary: attempts failed wrong)
  case (Cons y sets)
  show ?case
  proof (cases "rebuild_checked rs code stripes check y")
    case (Inr envelope)
    then show ?thesis using Cons(3) by (intro exI [of _ "[]"] exI [of _ y] exI [of _ sets] exI [of _ envelope]) simp
  next
    case (Inl err)
    let ?wrong = "if code_K code = 1 then wrong @ [hd y] else wrong"
    obtain before x after envelope where found: "sets = before @ x # after" "rebuild_checked rs code stripes check x = Inr envelope"
        "\<forall>y \<in> set before. \<exists>err. rebuild_checked rs code stripes check y = Inl err"
        "try_sets rs code stripes check (Suc attempts) True ?wrong sets = (Some (envelope, x), Suc (Suc attempts + length before),
           True \<or> before \<noteq> [], ?wrong @ (if code_K code = 1 then map hd before else []))"
      using Cons(1) [of "Suc attempts" True ?wrong] Cons(2,3) Inl by force
    then show ?thesis using Cons(3) Inl
      by (intro exI [of _ "y # before"] exI [of _ x] exI [of _ after] exI [of _ envelope]) simp
  qed
qed simp

lemma finish_wrong:
  assumes "set ws = {p. p < n \<and> P p}"
  shows "remdups_adj (sort ws) = filter P [0..<n]"
proof (rule sorted_distinct_set_unique)
  show "sorted (remdups_adj (sort ws))" "distinct (remdups_adj (sort ws))"
    using strict_sorted_remdups_adj [of "sort ws"] by (simp_all add: strict_sorted_iff)
qed (use assms in \<open>auto simp: sorted_wrt_filter\<close>)

text \<open>
  C30. Any \<open>k\<close> stripes rebuild the envelope: joining stripes that splitting made, with \<open>k\<close> or more
  indices among them in any order and number, gives the envelope back and names none wrong.
\<close>

theorem stripes_join_to_the_envelope:
  assumes "code_fits code" "int (length envelope) \<le> MaxLength" "rs_ok rs code" "Split rs code envelope = Inr own"
    and "set given \<subseteq> set own" "code_K code \<le> int (card (stripe_Index ` set given))"
    and "\<forall>test. check = Some test \<longrightarrow> test envelope = None"
  shows "\<exists>used. Join rs code given check = (\<lparr> joined_Envelope = envelope, joined_Used = used, joined_Wrong = [] \<rparr>, None)"
proof -
  let ?k = "nat (code_K code)" and ?all = "[0..<length given]"
  obtain shards where own: "own = label_stripes code envelope shards" and shards: "shards_for rs code envelope shards"
    using Split_shards [OF assms(1-3)] assms(4) by auto
  have mine: "given ! p \<in> set (label_stripes code envelope shards)" if "p < length given" for p using that assms(5) own nth_mem by blast
  have formed: "stripe_Code (given ! p) = code \<and> wellFormed code (given ! p)" if "p < length given" for p
    using mine [OF that] assms(2) shards Size_fits(1) [OF assms(1) of_nat_0_le_iff assms(2)]
    by (auto simp: own_stripe wellFormed_def shards_for_def Let_def nat_less_eq_zless)
  have "stripe_Index ` set given = (\<lambda>p. stripe_Index (given ! p)) ` set ?all" by (metis image_image list.set_map map_nth)
  moreover have "?k \<le> card (stripe_Index ` set given)" using assms(6) by linarith
  then obtain S where S: "S \<subseteq> stripe_Index ` set given" "card S = ?k" by (rule obtain_subset_with_card_n)
  ultimately have "S \<subseteq> (\<lambda>p. stripe_Index (given ! p)) ` set ?all" by simp
  then obtain P where P: "P \<subseteq> set ?all" "inj_on (\<lambda>p. stripe_Index (given ! p)) P" "card P = ?k"
    using S(2) unfolding subset_image_inj by (auto simp: card_image)
  have "\<forall>p \<in> P. stripe_Length (given ! p) = int (length envelope)" using P(1) mine own_stripe by force
  then obtain x sets where sets: "walk ?k given [] ?all = x # sets"
    using walk_reaches [OF P(1) distinct_upt P(3) P(2)] by (cases "walk ?k given [] ?all") auto
  then have "length x = ?k \<and> sorted_wrt (apart given) x \<and> set x \<subseteq> set ?all" using walk_sound [of given "[]" x ?k ?all] by simp
  then have "rebuild rs code given x = Inr envelope"
    using mine by (intro rebuild_own [OF assms(1,2) shards assms(3)]) auto
  then have "rebuild_checked rs code given check x = Inr envelope"
    using assms(7) by (auto simp: rebuild_checked_def split: option.split)
  moreover have "filter (\<lambda>p. stripe_Code (given ! p) = code) ?all = ?all" "filter (\<lambda>p. wellFormed code (given ! p)) ?all = ?all"
      "filter (\<lambda>p. \<not> wellFormed code (given ! p)) ?all = []"
    using formed by (simp_all add: filter_id_conv filter_empty_conv)
  ultimately show ?thesis
    using sets by (simp add: Join_def code_fits(1) [OF assms(1)] Let_def subsets_def Joined_finish_def)
qed

text \<open>Parity by exclusive or, the simplest code of two data stripes.\<close>

definition xor_bytes :: "bytes \<Rightarrow> bytes \<Rightarrow> bytes" where
  "xor_bytes a b = map2 (XOR) a b"

fun xor_Encode :: "bytes list \<Rightarrow> error + bytes list" where
  "xor_Encode [a, b, p] = Inr [a, b, xor_bytes a b]"
| "xor_Encode _ = Inl [Other 0]"

fun xor_Reconstruct :: "bytes list \<Rightarrow> error + bytes list" where
  "xor_Reconstruct [a, b, p] =
     Inr (if a = [] then [xor_bytes b p, b, p] else if b = [] then [a, xor_bytes a p, p] else [a, b, p])"
| "xor_Reconstruct _ = Inl [Other 0]"

definition xor_parity :: reedsolomon where
  "xor_parity = \<lparr> rs_New = \<lambda>k m. Inr (), rs_Encode = \<lambda>k m. xor_Encode, rs_ReconstructData = \<lambda>k m. xor_Reconstruct \<rparr>"

abbreviation (input) two_and_one :: Code where "two_and_one \<equiv> \<lparr> code_K = 2, code_M = 1 \<rparr>"

lemma xor_bytes:
  assumes "length a = length b"
  shows "xor_bytes a (xor_bytes a b) = b" "xor_bytes b (xor_bytes a b) = a" "length (xor_bytes a b) = length b"
proof -
  have self: "x XOR (x XOR y) = y" for x y :: byte by (simp add: xor.assoc [symmetric])
  have other: "y XOR (x XOR y) = x" for x y :: byte by (metis self xor.commute)
  show "xor_bytes a (xor_bytes a b) = b" using assms by (intro nth_equalityI) (simp_all add: xor_bytes_def self)
  show "xor_bytes b (xor_bytes a b) = a" using assms by (intro nth_equalityI) (simp_all add: xor_bytes_def other)
  show "length (xor_bytes a b) = length b" using assms by (simp add: xor_bytes_def)
qed

lemma two_of_three:
  assumes "present \<subseteq> {..<3 :: nat}" "card present = 2"
  shows "0 \<in> present \<or> 1 \<in> present" "0 \<notin> present \<Longrightarrow> 2 \<in> present" "1 \<notin> present \<Longrightarrow> 2 \<in> present"
proof -
  have "{0, 1, 2} - {x} \<subseteq> present" if "x \<notin> present" "x \<in> {0, 1, 2 :: nat}" for x
  proof -
    have sub: "present \<subseteq> {0, 1, 2} - {x}" using assms(1) that(1) by (auto simp: less_Suc_eq numeral_3_eq_3 numeral_2_eq_2)
    have "card ({0, 1, 2} - {x}) = 2" using that(2) by (subst card_Diff_singleton) auto
    then show ?thesis using card_subset_eq [OF _ sub] assms(2) by simp
  qed
  then show "0 \<in> present \<or> 1 \<in> present" "0 \<notin> present \<Longrightarrow> 2 \<in> present" "1 \<notin> present \<Longrightarrow> 2 \<in> present" by fastforce+
qed

lemma present_three:
  "present_shards [a, b, p] present = [if 0 \<in> present then a else [], if 1 \<in> present then b else [], if 2 \<in> present then p else []]"
  by (simp add: present_shards_def numeral_eq_Suc)

lemma xor_parity_ok: "rs_ok xor_parity two_and_one"
proof -
  have "\<exists>parity. xor_Encode (data @ room) = Inr (data @ parity) \<and> length parity = 1 \<and> (\<forall>shard \<in> set parity. length shard = sz)
      \<and> (\<forall>present. present \<subseteq> {..<3} \<longrightarrow> card present = 2 \<longrightarrow>
           (\<exists>rebuilt. xor_Reconstruct (present_shards (data @ parity) present) = Inr rebuilt \<and> take 2 rebuilt = data))"
    if shape: "0 < sz" "length data = 2" "length room = 1" "\<forall>shard \<in> set (data @ room). length shard = sz" for sz data room
  proof -
    obtain a b where data: "data = [a, b]" using shape(2) by (auto simp: numeral_2_eq_2 length_Suc_conv)
    obtain r where room: "room = [r]" using shape(3) by (auto simp: length_Suc_conv)
    have len: "length a = length b" "length b = sz" "a \<noteq> []" "b \<noteq> []" using shape data by auto
    have "\<exists>rebuilt. xor_Reconstruct (present_shards [a, b, xor_bytes a b] present) = Inr rebuilt \<and> take 2 rebuilt = [a, b]"
      if "present \<subseteq> {..<3}" "card present = 2" for present
      using two_of_three [OF that] len xor_bytes [OF len(1)]
      by (cases "0 \<in> present"; cases "1 \<in> present") (simp_all add: present_three)
    then show ?thesis using xor_bytes(3) [OF len(1)] len(2) by (intro exI [of _ "[xor_bytes a b]"]) (simp add: data room)
  qed
  then show ?thesis by (simp add: rs_ok_def xor_parity_def)
qed

definition ex_stripes :: "Stripe list" where
  "ex_stripes = map (\<lambda>(index, bytes). \<lparr> stripe_Code = two_and_one, stripe_Index = index, stripe_Length = 3, stripe_Bytes = bytes \<rparr>)
     [(0, [1, 2]), (1, [3, 0]), (2, [2, 2])]"

lemma ex_stripes: "Split xor_parity two_and_one [1, 2, 3] = Inr ex_stripes" by code_simp

theorem stripes_join_to_the_envelope_witness:
  "\<exists>used. Join xor_parity two_and_one [ex_stripes ! 2, ex_stripes ! 0] None
     = (\<lparr> joined_Envelope = [1, 2, 3], joined_Used = used, joined_Wrong = [] \<rparr>, None)"
  by (rule stripes_join_to_the_envelope [OF _ _ xor_parity_ok ex_stripes]) (simp_all add: code_fits_def ex_stripes_def)

section \<open>Damaged stripes\<close>

abbreviation mine_of :: "Code \<Rightarrow> Stripe list \<Rightarrow> nat list" where
  "mine_of code given \<equiv> filter (\<lambda>at. stripe_Code (given ! at) = code) [0..<length given]"

abbreviation candidates_of :: "Code \<Rightarrow> Stripe list \<Rightarrow> nat list" where
  "candidates_of code given \<equiv> filter (\<lambda>at. wellFormed code (given ! at)) (mine_of code given)"

lemma own_formed:
  assumes "code_fits code" "int (length envelope) \<le> MaxLength" "shards_for rs code envelope shards"
    and "s \<in> set (label_stripes code envelope shards)"
  shows "stripe_Code s = code" "wellFormed code s" "stripe_Length s = int (length envelope)"
  using assms(2-4) Size_fits(1) [OF assms(1) of_nat_0_le_iff assms(2)]
  by (auto simp: own_stripe wellFormed_def shards_for_def Let_def nat_less_eq_zless)

lemma mismatched_own:
  assumes "Split rs code envelope = Inr (label_stripes code envelope shards)"
  shows "mismatched rs code given (candidates_of code given) envelope =
    Inr (filter (\<lambda>p. given ! p \<notin> set (label_stripes code envelope shards)) (candidates_of code given))"
proof -
  have "(stripe_Length s \<noteq> int (length envelope) \<or> stripe_Bytes s \<noteq> stripe_Bytes (label_stripes code envelope shards ! nat (stripe_Index s)))
      \<longleftrightarrow> s \<notin> set (label_stripes code envelope shards)" if "wellFormed code s" "stripe_Code s = code" for s
  proof -
    have "nat (stripe_Index s) < nat (Width code)" using that(1) by (auto simp: wellFormed_def)
    then have "stripe_Bytes (label_stripes code envelope shards ! nat (stripe_Index s)) = shards ! nat (stripe_Index s)"
      by (simp add: label_stripes_def)
    then show ?thesis using that by (auto simp: own_stripe wellFormed_def)
  qed
  then show ?thesis unfolding mismatched_def assms Let_def by (auto intro!: filter_cong)
qed

text \<open>A whole copy that fails its check is none of the envelope's stripes.\<close>

lemma failed_copy:
  assumes "shards_for rs code envelope shards" "code_K code = 1" "test envelope = None"
    and "rebuild_checked rs code given (Some test) x = Inl err"
  shows "given ! hd x \<notin> set (label_stripes code envelope shards)"
proof
  assume "given ! hd x \<in> set (label_stripes code envelope shards)"
  then have "stripe_Bytes (given ! hd x) = envelope"
    using assms(1,2) by (auto simp: own_stripe shards_for_def Let_def nat_less_eq_zless)
  then show False using assms(2-4) by (simp add: rebuild_checked_def rebuild_def Let_def)
qed

lemma failed_set:
  assumes "code_fits code" "shards_for rs code envelope shards" "test envelope = None"
    and y: "y \<in> set (walk (nat (code_K code)) given [] candidates)" "\<exists>err. rebuild_checked rs code given (Some test) y = Inl err"
  shows "hd y \<in> set candidates" "code_K code = 1 \<Longrightarrow> given ! hd y \<notin> set (label_stripes code envelope shards)"
proof -
  from walk_sound [OF _ y(1)] have y': "length y = nat (code_K code)" "set y \<subseteq> set candidates" by simp_all
  then have "y \<noteq> []" using code_fits(4) [OF assms(1)] by auto
  then show "hd y \<in> set candidates" by (rule subsetD [OF y'(2) hd_in_set])
  show "code_K code = 1 \<Longrightarrow> given ! hd y \<notin> set (label_stripes code envelope shards)"
    using failed_copy [where test = test, OF assms(2) _ assms(3)] y(2) by auto
qed

lemma checked_is_the_envelope:
  "(\<And>b. test b = None \<longleftrightarrow> b = envelope) \<Longrightarrow> rebuild_checked rs code given (Some test) x = Inr e \<Longrightarrow> e = envelope"
  by (auto simp: rebuild_checked_def split: sum.splits option.splits)

definition first_set :: "Code \<Rightarrow> Stripe list \<Rightarrow> nat list" where
  "first_set code given = hd (subsets code given (candidates_of code given))"

text \<open>
  C31. Damaged stripes are found and named: among any stripes given, with \<open>k\<close> of the envelope's own
  and few enough in all to try every set of \<open>k\<close>, a join under a check that only the envelope
  passes gives the envelope; and unless the first set it tried made it, the stripes it names are
  exactly those of the code that are not the envelope's.
\<close>

theorem damaged_stripes_are_named:
  assumes "code_fits code" "int (length envelope) \<le> MaxLength" "rs_ok rs code" "Split rs code envelope = Inr own"
    and "P \<subseteq> {..<length given}" "card P = nat (code_K code)" "inj_on (\<lambda>p. stripe_Index (given ! p)) P" "\<forall>p \<in> P. given ! p \<in> set own"
    and "\<And>b. test b = None \<longleftrightarrow> b = envelope" and "length given choose nat (code_K code) \<le> maxAttempts"
  shows "\<exists>j. Join rs code given (Some test) = (j, None) \<and> joined_Envelope j = envelope
    \<and> (joined_Used j = first_set code given
       \<or> joined_Wrong j = filter (\<lambda>p. stripe_Code (given ! p) = code \<and> given ! p \<notin> set own) [0..<length given])"
proof -
  let ?k = "nat (code_K code)" and ?c = "candidates_of code given" and ?sets = "subsets code given (candidates_of code given)"
  let ?bad = "filter (\<lambda>p. \<not> wellFormed code (given ! p)) (mine_of code given)"
  obtain shards where own: "own = label_stripes code envelope shards" and shards: "shards_for rs code envelope shards"
    using Split_shards [OF assms(1-3)] assms(4) by auto
  note formed = own_formed [OF assms(1,2) shards]
  have split: "Split rs code envelope = Inr (label_stripes code envelope shards)" using assms(4) own by simp
  have P: "P \<subseteq> set ?c" "\<forall>p \<in> P. stripe_Length (given ! p) = int (length envelope)" using assms(5,8) formed own by auto
  define good where "good = filter (\<lambda>p. p \<in> P) ?c"
  have good: "good \<in> set ?sets"
    unfolding good_def subsets_def by (rule walk_reaches [OF P(1) _ assms(6,7) P(2)]) simp
  have "rebuild rs code given good = Inr envelope"
    using walk_sound [of given "[]" good ?k ?c] good assms(8) own
    by (intro rebuild_own [OF assms(1,2) shards assms(3)]) (auto simp: subsets_def good_def)
  then have "rebuild_checked rs code given (Some test) good = Inr envelope"
    using assms(9) [of envelope] by (simp add: rebuild_checked_def)
  then have "\<exists>x \<in> set ?sets. \<exists>e. rebuild_checked rs code given (Some test) x = Inr e" using good by blast
  moreover have "length ?c choose ?k \<le> length given choose ?k"
    by (intro binomial_right_mono) (metis diff_zero length_filter_le length_upt order_trans)
  then have "0 + length ?sets \<le> maxAttempts"
    using walk_length [of "[]" ?k given ?c] assms(10) by (simp add: subsets_def)
  ultimately obtain before x after e where found: "?sets = before @ x # after" "rebuild_checked rs code given (Some test) x = Inr e"
      "\<forall>y \<in> set before. \<exists>err. rebuild_checked rs code given (Some test) y = Inl err"
      "try_sets rs code given (Some test) 0 False ?bad ?sets = (Some (e, x), Suc (length before), before \<noteq> [],
         ?bad @ (if code_K code = 1 then map hd before else []))"
    using try_sets_finds [of ?sets rs code given "Some test" 0 False ?bad] by auto
  have e: "e = envelope" using checked_is_the_envelope [OF assms(9) found(2)] .
  show ?thesis
  proof (cases "before = []")
    case True
    then have "x = first_set code given" using found(1) by (simp add: first_set_def)
    then show ?thesis using True found(4) e code_fits(1) [OF assms(1)] by (simp add: Join_def Let_def Joined_finish_def)
  next
    case False
    let ?copies = "if code_K code = 1 then map hd before else []"
    have "y \<in> set (walk ?k given [] ?c)" if "y \<in> set before" for y using found(1) that unfolding subsets_def by simp
    note failed = failed_set [where test = test, OF assms(1) shards assms(9) [THEN iffD2, OF refl] this found(3) [rule_format]]
    have copies: "\<forall>p \<in> set ?copies. p \<in> set ?c \<and> given ! p \<notin> set own"
    proof (cases "code_K code = 1")
      case True
      then show ?thesis using failed(1) failed(2) [OF _ _ True] unfolding own by (auto simp del: set_filter filter_filter)
    qed simp
    have "set (?bad @ ?copies @ filter (\<lambda>p. given ! p \<notin> set own) ?c)
        = {p. p < length given \<and> stripe_Code (given ! p) = code \<and> given ! p \<notin> set own}"
      unfolding set_append using copies formed(2) own by (auto simp only: set_filter set_upt atLeastLessThan_iff)
    from finish_wrong [OF this]
    have "joined_Wrong (Joined_finish (J\<lparr> joined_Wrong := ?bad @ ?copies @ filter (\<lambda>p. given ! p \<notin> set own) ?c \<rparr>))
      = filter (\<lambda>p. stripe_Code (given ! p) = code \<and> given ! p \<notin> set own) [0..<length given]" for J
      by (simp add: Joined_finish_def)
    moreover have "Join rs code given (Some test) = (Joined_finish (\<lparr> joined_Envelope = envelope, joined_Used = x,
        joined_Wrong = ?bad @ ?copies \<rparr>\<lparr> joined_Wrong := ?bad @ ?copies @ filter (\<lambda>p. given ! p \<notin> set own) ?c \<rparr>), None)"
      unfolding Join_def code_fits(1) [OF assms(1)] Let_def sum.case found(4) prod.case option.case
        e mismatched_own [OF split] own using False by simp
    ultimately show ?thesis by (simp add: Joined_finish_def)
  qed
qed

definition ex_damaged :: "Stripe list" where
  "ex_damaged = [(ex_stripes ! 0)\<lparr> stripe_Bytes := [9, 9] \<rparr>, ex_stripes ! 1, ex_stripes ! 2]"

definition ex_test :: "bytes \<Rightarrow> error option" where
  "ex_test b = (if b = [1, 2, 3] then None else Some [Other 1])"

theorem damaged_stripes_are_named_witness:
  "\<exists>j. Join xor_parity two_and_one ex_damaged (Some ex_test) = (j, None) \<and> joined_Envelope j = [1, 2, 3]
     \<and> (joined_Used j = first_set two_and_one ex_damaged
        \<or> joined_Wrong j = filter (\<lambda>p. stripe_Code (ex_damaged ! p) = two_and_one \<and> ex_damaged ! p \<notin> set ex_stripes) [0..<length ex_damaged])"
proof (rule damaged_stripes_are_named [OF _ _ xor_parity_ok ex_stripes])
  show "{1, 2} \<subseteq> {..<length ex_damaged}" "inj_on (\<lambda>p. stripe_Index (ex_damaged ! p)) {1, 2}"
    "\<forall>p \<in> {1, 2}. ex_damaged ! p \<in> set ex_stripes"
    by (simp_all add: ex_damaged_def ex_stripes_def)
  show "length ex_damaged choose nat (code_K two_and_one) \<le> maxAttempts"
    by (simp add: ex_damaged_def numeral_2_eq_2)
  show "ex_test b = None \<longleftrightarrow> b = [1, 2, 3]" for b by (simp add: ex_test_def)
qed (simp_all add: code_fits_def)

end
