(* ===== verification/Rank_Text.thy ===== *)
theory Rank_Text
  imports Rank_Theorems
begin

text \<open>
  Identities and codes as text (\<^verbatim>\<open>rank/rank.go\<close>), with what they use of \<^verbatim>\<open>encoding/hex\<close>,
  \<^verbatim>\<open>strconv\<close> and \<^verbatim>\<open>strings\<close>.
\<close>

section \<open>Identities\<close>

definition hex_digit :: "nat \<Rightarrow> char" where
  "hex_digit n = ''0123456789abcdef'' ! n"

definition hex_value :: "char \<Rightarrow> nat option" where
  "hex_value c =
     (let n = of_char c :: nat
      in if 48 \<le> n \<and> n \<le> 57 then Some (n - 48)
         else if 97 \<le> n \<and> n \<le> 102 then Some (n - 87)
         else if 65 \<le> n \<and> n \<le> 70 then Some (n - 55)
         else None)"

definition hex_byte :: "byte \<Rightarrow> string" where
  "hex_byte b = [hex_digit (unat b div 16), hex_digit (unat b mod 16)]"

fun hex_decode :: "string \<Rightarrow> bytes option" where
  "hex_decode [] = Some []"
| "hex_decode [c] = None"
| "hex_decode (c # d # text) =
     (case (hex_value c, hex_value d, hex_decode text) of
        (Some high, Some low, Some bs) \<Rightarrow> Some (word_of_nat (16 * high + low) # bs)
      | _ \<Rightarrow> None)"

definition Identity_String :: "identity \<Rightarrow> string" where
  "Identity_String i = concat (map hex_byte (identity_bytes i))"

definition ParseIdentity :: "string \<Rightarrow> error + identity" where
  "ParseIdentity text =
     (case hex_decode text of
        None \<Rightarrow> Inl [RankInvalid]
      | Some decoded \<Rightarrow> if length decoded \<noteq> 16 then Inl [RankInvalid] else Inr (identity_of decoded))"

lemma hex_value_digit: "n < 16 \<Longrightarrow> hex_value (hex_digit n) = Some n"
proof -
  have "\<forall>n \<in> set [0..<16]. hex_value (hex_digit n) = Some n" by code_simp
  then show "n < 16 \<Longrightarrow> hex_value (hex_digit n) = Some n" by simp
qed

lemma hex_decode_bytes: "hex_decode (concat (map hex_byte bs)) = Some bs"
proof (induction bs)
  case (Cons b bs)
  have "unat b < 256" using unat_bound [of b] by simp
  then have "hex_value (hex_digit (unat b div 16)) = Some (unat b div 16)" "hex_value (hex_digit (unat b mod 16)) = Some (unat b mod 16)"
    by (simp_all add: hex_value_digit less_mult_imp_div_less)
  then show ?case using Cons by (simp add: hex_byte_def mult.commute)
qed simp

theorem identities_round_trip: "ParseIdentity (Identity_String i) = Inr i"
  by (simp add: ParseIdentity_def Identity_String_def hex_decode_bytes)

section \<open>Codes\<close>

text \<open>\<^verbatim>\<open>strconv.Itoa\<close> and \<^verbatim>\<open>strconv.Atoi\<close>: digits in base ten, with a sign.\<close>

function digits_of :: "nat \<Rightarrow> string" where
  "digits_of n = (if n < 10 then [hex_digit n] else digits_of (n div 10) @ [hex_digit (n mod 10)])"
  by pat_completeness auto
termination by (relation "measure id") auto

declare digits_of.simps [simp del]

definition Itoa :: "int \<Rightarrow> string" where
  "Itoa i = (if i < 0 then CHR ''-'' # digits_of (nat (- i)) else digits_of (nat i))"

definition decimal :: "char \<Rightarrow> bool" where
  "decimal c \<longleftrightarrow> 48 \<le> (of_char c :: nat) \<and> (of_char c :: nat) \<le> 57"

definition number_of :: "string \<Rightarrow> int" where
  "number_of ds = foldl (\<lambda>n c. 10 * n + (of_char c - 48)) 0 ds"

definition Atoi :: "string \<Rightarrow> int option" where
  "Atoi s =
     (let negative = s \<noteq> [] \<and> hd s = CHR ''-'';
          ds = (if s \<noteq> [] \<and> (hd s = CHR ''-'' \<or> hd s = CHR ''+'') then tl s else s);
          i = (if negative then - number_of ds else number_of ds)
      in if ds = [] \<or> \<not> list_all decimal ds \<or> i < - (2 ^ 63) \<or> 2 ^ 63 \<le> i then None else Some i)"

text \<open>\<^verbatim>\<open>strings.TrimSpace\<close>: the encodings of the characters \<^verbatim>\<open>unicode.IsSpace\<close> holds of, taken off
  either end.\<close>

definition spaces :: "nat list list" where
  "spaces = [[9], [10], [11], [12], [13], [32], [194, 133], [194, 160], [225, 154, 128]]
     @ map (\<lambda>n. [226, 128, n]) [128..<139] @ [[226, 128, 168], [226, 128, 169], [226, 128, 175], [226, 129, 159], [227, 128, 128]]"

definition strip_prefix :: "nat list list \<Rightarrow> string \<Rightarrow> string option" where
  "strip_prefix ps s =
     map_option (\<lambda>p. drop (length p) s) (List.find (\<lambda>p. take (length p) (map of_char s) = p) (filter (\<lambda>p. p \<noteq> []) ps))"

lemma strip_prefix_shorter: "strip_prefix ps s = Some t \<Longrightarrow> length t < length s"
proof -
  assume "strip_prefix ps s = Some t"
  then obtain p where p: "List.find (\<lambda>p. take (length p) (map of_char s) = p) (filter (\<lambda>p. p \<noteq> []) ps) = Some p" "t = drop (length p) s"
    by (auto simp: strip_prefix_def)
  then have taken: "p \<noteq> []" "take (length p) (map of_char s) = p" by (auto simp: find_Some_iff dest!: nth_mem)
  then have "s \<noteq> []" by auto
  then show "length t < length s" using taken(1) p(2) by simp
qed

function trim_left :: "nat list list \<Rightarrow> string \<Rightarrow> string" where
  "trim_left ps s = (case strip_prefix ps s of None \<Rightarrow> s | Some t \<Rightarrow> trim_left ps t)"
  by pat_completeness auto
termination by (relation "measure (\<lambda>(_, s). length s)") (auto dest: strip_prefix_shorter)

declare trim_left.simps [simp del]

definition TrimSpace :: "string \<Rightarrow> string" where
  "TrimSpace s = rev (trim_left (map rev spaces) (rev (trim_left spaces s)))"

definition Code_String :: "Code \<Rightarrow> string" where
  "Code_String c = Itoa (code_K c) @ CHR ''+'' # Itoa (code_M c)"

definition ParseCode :: "string \<Rightarrow> error + Code" where
  "ParseCode text =
     (let trimmed = TrimSpace text; k = takeWhile (\<lambda>c. c \<noteq> CHR ''+'') trimmed; rest = dropWhile (\<lambda>c. c \<noteq> CHR ''+'') trimmed
      in case (rest, Atoi k, Atoi (tl rest)) of
        (_ # _, Some data, Some parity) \<Rightarrow>
          let code = \<lparr> code_K = data, code_M = parity \<rparr>
          in (case Validate code of Inl err \<Rightarrow> Inl err | Inr _ \<Rightarrow> Inr code)
      | _ \<Rightarrow> Inl [RankInvalid])"

section \<open>What is printed is read back\<close>

text \<open>The characters \<^verbatim>\<open>Itoa\<close> writes: the digits, and the sign first.\<close>

definition numeral_char :: "char \<Rightarrow> bool" where
  "numeral_char c \<longleftrightarrow> decimal c \<or> c = CHR ''-''"

lemma decimal_digit:
  assumes "n < 10"
  shows "decimal (hex_digit n)" "(of_char (hex_digit n) :: int) = 48 + int n"
proof -
  have "\<forall>n \<in> set [0..<10]. decimal (hex_digit n) \<and> (of_char (hex_digit n) :: int) = 48 + int n" by code_simp
  then show "decimal (hex_digit n)" "(of_char (hex_digit n) :: int) = 48 + int n" using assms by simp_all
qed

lemma digits_of_decimal: "digits_of n \<noteq> [] \<and> list_all decimal (digits_of n)"
proof (induction n rule: digits_of.induct)
  case (1 n)
  then show ?case by (subst (1 2) digits_of.simps) (simp add: decimal_digit)
qed

lemma number_of_digits: "number_of (digits_of n) = int n"
proof (induction n rule: digits_of.induct)
  case (1 n)
  show ?case
  proof (cases "n < 10")
    case True
    then show ?thesis by (subst digits_of.simps) (simp add: number_of_def decimal_digit)
  next
    case False
    have "digits_of n = digits_of (n div 10) @ [hex_digit (n mod 10)]" using False by (subst digits_of.simps) simp
    then have "number_of (digits_of n) = 10 * number_of (digits_of (n div 10)) + int (n mod 10)"
      using decimal_digit(2) [of "n mod 10"] by (simp add: number_of_def)
    also have "\<dots> = 10 * int (n div 10) + int (n mod 10)" using 1 False by simp
    also have "\<dots> = int n" by presburger
    finally show ?thesis .
  qed
qed

lemma decimal_not_sign: "decimal c \<Longrightarrow> c \<noteq> CHR ''-'' \<and> c \<noteq> CHR ''+''"
  by (auto simp: decimal_def)

lemma Atoi_Itoa:
  assumes "- (2 ^ 63) \<le> i" "i < 2 ^ 63"
  shows "Atoi (Itoa i) = Some i"
proof (cases "i < 0")
  case True
  then show ?thesis using assms(1) digits_of_decimal [of "nat (- i)"]
    by (simp add: Itoa_def Atoi_def number_of_digits)
next
  case False
  let ?ds = "digits_of (nat i)"
  obtain d ds where ds: "?ds = d # ds" using digits_of_decimal [of "nat i"] by (cases ?ds) auto
  have "d \<noteq> CHR ''-'' \<and> d \<noteq> CHR ''+''" using digits_of_decimal [of "nat i"] ds decimal_not_sign by simp
  then have "Atoi ?ds = (if \<not> list_all decimal ?ds \<or> number_of ?ds < - (2 ^ 63) \<or> 2 ^ 63 \<le> number_of ?ds then None else Some (number_of ?ds))"
    by (simp add: Atoi_def ds)
  then show ?thesis using False assms digits_of_decimal [of "nat i"] by (simp add: Itoa_def number_of_digits)
qed

lemma Itoa_chars: "Itoa i \<noteq> []" "list_all numeral_char (Itoa i)"
  using digits_of_decimal [of "nat (- i)"] digits_of_decimal [of "nat i"]
  by (auto simp: Itoa_def numeral_char_def list_all_iff)

lemma numeral_no_plus: "numeral_char c \<Longrightarrow> c \<noteq> CHR ''+''"
  by (auto simp: numeral_char_def decimal_def)

text \<open>No space begins or ends with such a character.\<close>

lemma spaces_apart:
  assumes "numeral_char c" "p \<in> set spaces"
  shows "p \<noteq> []" "hd p \<noteq> of_char c" "hd (rev p) \<noteq> of_char c"
proof -
  have all: "list_all (\<lambda>p. p \<noteq> [] \<and> (hd p < 45 \<or> 57 < hd p) \<and> (hd (rev p) < 45 \<or> 57 < hd (rev p))) spaces" by code_simp
  have c: "45 \<le> (of_char c :: nat)" "(of_char c :: nat) \<le> 57" using assms(1) by (auto simp: numeral_char_def decimal_def)
  from all assms(2) have p: "p \<noteq> []" "hd p < 45 \<or> 57 < hd p" "hd (rev p) < 45 \<or> 57 < hd (rev p)" by (auto simp: list_all_iff)
  then show "p \<noteq> []" "hd p \<noteq> of_char c" "hd (rev p) \<noteq> of_char c" using c by auto
qed

lemma trim_left_id:
  assumes "s \<noteq> []" "\<And>p. p \<in> set ps \<Longrightarrow> p \<noteq> [] \<and> hd p \<noteq> of_char (hd s)"
  shows "trim_left ps s = s"
proof -
  have "List.find (\<lambda>p. take (length p) (map of_char s) = p) (filter (\<lambda>p. p \<noteq> []) ps) = None"
    unfolding find_None_iff
  proof
    assume "\<exists>p. p \<in> set (filter (\<lambda>p. p \<noteq> []) ps) \<and> take (length p) (map of_char s) = p"
    then obtain p where p: "p \<in> set ps" "take (length p) (map of_char s) = p" by auto
    have "p \<noteq> []" using assms(2) [OF p(1)] by simp
    then have "hd (take (length p) (map of_char s)) = of_char (hd s)" using assms(1) by (simp add: hd_map)
    then have "hd p = of_char (hd s)" by (subst (asm) p(2))
    then show False using assms(2) [OF p(1)] by simp
  qed
  then show ?thesis by (subst trim_left.simps) (simp add: strip_prefix_def)
qed

lemma TrimSpace_code: "TrimSpace (Code_String c) = Code_String c"
proof -
  obtain a as where first: "Itoa (code_K c) = a # as" "numeral_char a" using Itoa_chars [of "code_K c"] by (cases "Itoa (code_K c)") auto
  obtain z zs where final: "rev (Itoa (code_M c)) = z # zs" "numeral_char z"
    using Itoa_chars [of "code_M c"] by (cases "rev (Itoa (code_M c))") (auto simp: list_all_iff dest: arg_cong [of _ _ set])
  have "trim_left spaces (Code_String c) = Code_String c"
    by (rule trim_left_id) (use spaces_apart [OF first(2)] in \<open>auto simp: Code_String_def first(1)\<close>)
  moreover have "trim_left (map rev spaces) (rev (Code_String c)) = rev (Code_String c)"
    by (rule trim_left_id) (use spaces_apart [OF final(2)] in \<open>auto simp: Code_String_def final(1)\<close>)
  ultimately show ?thesis by (simp add: TrimSpace_def)
qed

lemma Validate_iff:
  assumes "- (2 ^ 63) \<le> code_K c" "code_K c < 2 ^ 63" "- (2 ^ 63) \<le> code_M c" "code_M c < 2 ^ 63"
  shows "Validate c = Inr () \<longleftrightarrow> 1 \<le> code_K c \<and> 0 \<le> code_M c \<and> (code_K c + code_M c \<le> maxWidth \<or> 2 ^ 63 \<le> code_K c + code_M c)"
proof (cases "1 \<le> code_K c \<and> 0 \<le> code_M c")
  case True
  show ?thesis
  proof (cases "code_K c + code_M c < 2 ^ 63")
    case small: True
    then have "Width c = code_K c + code_M c" using True by (simp add: Width_def)
    then show ?thesis using True small by (simp add: Validate_def)
  next
    case False
    define w where "w = code_K c + code_M c - 2 ^ 63"
    have w: "0 \<le> w" "w < 2 ^ 63" using False assms(2,4) by (simp_all add: w_def)
    have "code_K c + code_M c + 2 ^ 63 = w + 2 ^ 64" by (simp add: w_def)
    then have "(code_K c + code_M c + 2 ^ 63) mod 2 ^ 64 = w" using w by simp
    then have "wrap64 (code_K c + code_M c) = code_K c + code_M c - 2 ^ 64" by (simp add: wrap64_def w_def)
    then have "Width c < 0" using assms(2,4) by (simp add: Width_def)
    then show ?thesis using True False by (simp add: Validate_def)
  qed
qed (auto simp: Validate_def)

text \<open>
  C38. A code that is printed is read back when it is valid, and refused when it is not; and it is
  valid just when it has a data stripe, no negative number of parity stripes, and a width of at most
  32 or one that does not fit 64 bits: the check adds the two numbers in 64 bits, where such a width
  is negative.
\<close>

theorem printed_codes_are_read_back:
  assumes "- (2 ^ 63) \<le> code_K c" "code_K c < 2 ^ 63" "- (2 ^ 63) \<le> code_M c" "code_M c < 2 ^ 63"
  shows "ParseCode (Code_String c) =
    (if 1 \<le> code_K c \<and> 0 \<le> code_M c \<and> (code_K c + code_M c \<le> maxWidth \<or> 2 ^ 63 \<le> code_K c + code_M c)
     then Inr c else Inl [RankInvalid])"
proof -
  have k: "\<forall>x \<in> set (Itoa (code_K c)). x \<noteq> CHR ''+''" using Itoa_chars(2) [of "code_K c"] numeral_no_plus by (auto simp: list_all_iff)
  have "takeWhile (\<lambda>x. x \<noteq> CHR ''+'') (Code_String c) = Itoa (code_K c)"
    "dropWhile (\<lambda>x. x \<noteq> CHR ''+'') (Code_String c) = CHR ''+'' # Itoa (code_M c)"
    using k by (simp_all add: Code_String_def takeWhile_append dropWhile_append)
  then have "ParseCode (Code_String c) = (case Validate c of Inl err \<Rightarrow> Inl err | Inr _ \<Rightarrow> Inr c)"
    using assms by (cases c) (simp add: ParseCode_def TrimSpace_code Atoi_Itoa Let_def split: sum.split)
  moreover have "Validate c = Inr () \<or> Validate c = Inl [RankInvalid]" by (simp add: Validate_def)
  ultimately show ?thesis using Validate_iff [OF assms] by auto
qed

theorem printed_codes_are_read_back_witness:
  "ParseCode (Code_String \<lparr> code_K = 4, code_M = 2 \<rparr>) = Inr \<lparr> code_K = 4, code_M = 2 \<rparr>
   \<and> ParseCode (Code_String \<lparr> code_K = 40, code_M = 2 \<rparr>) = Inl [RankInvalid]
   \<and> ParseCode (Code_String \<lparr> code_K = 9223372036854775807, code_M = 1 \<rparr>) = Inr \<lparr> code_K = 9223372036854775807, code_M = 1 \<rparr>"
  using printed_codes_are_read_back [of "\<lparr> code_K = 4, code_M = 2 \<rparr>"] printed_codes_are_read_back [of "\<lparr> code_K = 40, code_M = 2 \<rparr>"]
    printed_codes_are_read_back [of "\<lparr> code_K = 9223372036854775807, code_M = 1 \<rparr>"] by simp

end
