(* ===== verification/Binary_Search.thy ===== *)
theory Binary_Search
  imports Prelude
begin

text \<open>
  \<^verbatim>\<open>slices.BinarySearchFunc\<close> of Go's standard library over entries in the order of a key, and that
  on a list with one entry a key it finds what a search through the whole list does.
\<close>

text \<open>The loop over \<open>i\<close> and \<open>j\<close>: the first index at which \<open>below\<close> no longer holds.\<close>

function search_from :: "(nat \<Rightarrow> bool) \<Rightarrow> nat \<Rightarrow> nat \<Rightarrow> nat" where
  "search_from below i j =
     (if i < j then let h = (i + j) div 2 in if below h then search_from below (h + 1) j else search_from below i h
      else i)"
  by pat_completeness auto
termination by (relation "measure (\<lambda>(_, i, j). j - i)") auto

declare search_from.simps [simp del]

definition binary_search :: "('a \<Rightarrow> 'k::linorder) \<Rightarrow> 'a list \<Rightarrow> 'k \<Rightarrow> nat \<times> bool" where
  "binary_search key xs k =
     (let at = search_from (\<lambda>i. key (xs ! i) < k) 0 (length xs) in (at, at < length xs \<and> key (xs ! at) = k))"

definition find_sorted :: "('a \<Rightarrow> 'k::linorder) \<Rightarrow> 'a list \<Rightarrow> 'k \<Rightarrow> 'a option" where
  "find_sorted key xs k = (case binary_search key xs k of (at, found) \<Rightarrow> if found then Some (xs ! at) else None)"

lemma search_from_point:
  assumes "i \<le> p" "p \<le> j" "\<And>h. h < j \<Longrightarrow> below h \<longleftrightarrow> h < p"
  shows "search_from below i j = p"
  using assms
proof (induction below i j rule: search_from.induct)
  case (1 below i j)
  show ?case
  proof (cases "i < j")
    case True
    then have "(i + j) div 2 < j" by simp
    then show ?thesis
      using 1 True by (subst search_from.simps) (auto simp: Let_def)
  next
    case False
    then show ?thesis using 1(3,4) by (subst search_from.simps) simp
  qed
qed

lemma search_from_key:
  fixes key :: "'a \<Rightarrow> 'k::linorder"
  assumes "sorted_wrt (<) (map key xs)" "p < length xs" "key (xs ! p) = k"
  shows "search_from (\<lambda>i. key (xs ! i) < k) 0 (length xs) = p"
proof (rule search_from_point)
  fix h assume "h < length xs"
  then show "key (xs ! h) < k \<longleftrightarrow> h < p"
    using assms sorted_wrt_nth_less [OF assms(1), of h p] sorted_wrt_nth_less [OF assms(1), of p h]
    by (cases h p rule: linorder_cases) auto
qed (use assms in auto)

lemma find_sorted_Some:
  assumes "sorted_wrt (<) (map key xs)"
  shows "find_sorted key xs k = Some x \<longleftrightarrow> x \<in> set xs \<and> key x = k"
proof
  assume "find_sorted key xs k = Some x"
  then obtain at where "at < length xs" "x = xs ! at" "key x = k"
    by (auto simp: find_sorted_def binary_search_def Let_def split: if_splits)
  then show "x \<in> set xs \<and> key x = k" by simp
next
  assume "x \<in> set xs \<and> key x = k"
  then obtain p where "p < length xs" "xs ! p = x" "key (xs ! p) = k" by (auto simp: in_set_conv_nth)
  then show "find_sorted key xs k = Some x"
    using search_from_key [OF assms, of p k] by (simp add: find_sorted_def binary_search_def)
qed

lemma find_sorted_None:
  assumes sorted: "sorted_wrt (<) (map key xs)"
  shows "find_sorted key xs k = None \<longleftrightarrow> k \<notin> key ` set xs"
proof
  show "k \<notin> key ` set xs" if "find_sorted key xs k = None" using that find_sorted_Some [OF sorted, of k] by auto
  show "find_sorted key xs k = None" if "k \<notin> key ` set xs"
  proof (cases "find_sorted key xs k")
    case (Some a)
    then show ?thesis using that find_sorted_Some [OF sorted, of k a] by auto
  qed
qed

text \<open>What a binary search finds is what a search through the list finds.\<close>

lemma find_sorted_find:
  assumes "sorted_wrt (<) (map key xs)"
  shows "find_sorted key xs k = List.find (\<lambda>x. key x = k) xs"
proof (cases "List.find (\<lambda>x. key x = k) xs")
  case None
  then have "k \<notin> key ` set xs" by (auto simp: find_None_iff)
  then show ?thesis using None find_sorted_None [OF assms, of k] by simp
next
  case (Some x)
  then have "x \<in> set xs \<and> key x = k" by (auto simp: find_Some_iff)
  then show ?thesis using Some find_sorted_Some [OF assms, of k x] by simp
qed

end
