(* ===== verification/Membership.thy ===== *)
theory Membership
  imports Rank_Text Binary_Search
begin

text \<open>
  The membership of a cluster, which hosts are in it and which disk each serves
  (\<^verbatim>\<open>membership/membership.go\<close>), its changes and the rule of what may follow what
  (\<^verbatim>\<open>membership/change.go\<close>).

  A state is a constructor for each constant of the source, one for the zero value, and one for
  the numbers that name none, in the order of the numbers. A method \<^verbatim>\<open>F\<close> of \<^verbatim>\<open>Membership\<close> is
  \<open>Membership_F\<close>. A lookup that the source returns with a flag is an option. \<^verbatim>\<open>sim.Bug\<close> is false
  outside a simulation that plants a bug.
\<close>

section \<open>States\<close>

datatype MemberState = NoMemberState | Joining | Active | Draining | OtherMemberState nat

primrec member_state_number :: "MemberState \<Rightarrow> nat" where
  "member_state_number NoMemberState = 0"
| "member_state_number Joining = 1"
| "member_state_number Active = 2"
| "member_state_number Draining = 3"
| "member_state_number (OtherMemberState n) = n + 4"

datatype DiskState = NoDiskState | Attaching | Serving | Releasing | Released | Deleting | OtherDiskState nat

primrec disk_state_number :: "DiskState \<Rightarrow> nat" where
  "disk_state_number NoDiskState = 0"
| "disk_state_number Attaching = 1"
| "disk_state_number Serving = 2"
| "disk_state_number Releasing = 3"
| "disk_state_number Released = 4"
| "disk_state_number Deleting = 5"
| "disk_state_number (OtherDiskState n) = n + 6"

datatype DiskKind = CacheDisk | JournalDisk | OtherDiskKind nat

lemma member_state_number_inject [simp]: "member_state_number s = member_state_number t \<longleftrightarrow> s = t"
  by (cases s; cases t) simp_all

lemma disk_state_number_inject [simp]: "disk_state_number s = disk_state_number t \<longleftrightarrow> s = t"
  by (cases s; cases t) simp_all

instantiation MemberState :: linorder
begin

definition less_eq_MemberState :: "MemberState \<Rightarrow> MemberState \<Rightarrow> bool" where
  "s \<le> t \<longleftrightarrow> member_state_number s \<le> member_state_number t"

definition less_MemberState :: "MemberState \<Rightarrow> MemberState \<Rightarrow> bool" where
  "s < t \<longleftrightarrow> member_state_number s < member_state_number t"

instance
proof
  fix s t :: MemberState
  show "s = t" if "s \<le> t" "t \<le> s"
    using order_antisym [OF that [unfolded less_eq_MemberState_def]] by simp
qed (auto simp: less_eq_MemberState_def less_MemberState_def)

end

instantiation DiskState :: linorder
begin

definition less_eq_DiskState :: "DiskState \<Rightarrow> DiskState \<Rightarrow> bool" where
  "s \<le> t \<longleftrightarrow> disk_state_number s \<le> disk_state_number t"

definition less_DiskState :: "DiskState \<Rightarrow> DiskState \<Rightarrow> bool" where
  "s < t \<longleftrightarrow> disk_state_number s < disk_state_number t"

instance
proof
  fix s t :: DiskState
  show "s = t" if "s \<le> t" "t \<le> s"
    using order_antisym [OF that [unfolded less_eq_DiskState_def]] by simp
qed (auto simp: less_eq_DiskState_def less_DiskState_def)

end

text \<open>The names of the states and the kinds, and reading them.\<close>

primrec MemberState_String :: "MemberState \<Rightarrow> string" where
  "MemberState_String NoMemberState = ''member-state-0''"
| "MemberState_String Joining = ''joining''"
| "MemberState_String Active = ''active''"
| "MemberState_String Draining = ''draining''"
| "MemberState_String (OtherMemberState n) = ''member-state-'' @ Itoa (int (n + 4))"

primrec DiskState_String :: "DiskState \<Rightarrow> string" where
  "DiskState_String NoDiskState = ''disk-state-0''"
| "DiskState_String Attaching = ''attaching''"
| "DiskState_String Serving = ''serving''"
| "DiskState_String Releasing = ''releasing''"
| "DiskState_String Released = ''released''"
| "DiskState_String Deleting = ''deleting''"
| "DiskState_String (OtherDiskState n) = ''disk-state-'' @ Itoa (int (n + 6))"

primrec DiskKind_String :: "DiskKind \<Rightarrow> string" where
  "DiskKind_String CacheDisk = ''cache''"
| "DiskKind_String JournalDisk = ''journal''"
| "DiskKind_String (OtherDiskKind n) = ''disk-kind-'' @ Itoa (int (n + 2))"

definition ParseDiskKind :: "string \<Rightarrow> error + DiskKind" where
  "ParseDiskKind text =
     (if text = [] \<or> text = ''cache'' then Inr CacheDisk
      else if text = ''journal'' then Inr JournalDisk
      else Inl [MembershipInvalid])"

definition ParseDiskState :: "string \<Rightarrow> error + DiskState" where
  "ParseDiskState text =
     (if text = [] then Inr NoDiskState
      else case List.find (\<lambda>state. DiskState_String state = text) [Attaching, Serving, Releasing, Released, Deleting] of
        Some state \<Rightarrow> Inr state
      | None \<Rightarrow> Inl [MembershipInvalid])"

lemma disk_states_read_back:
  "Attaching \<le> state \<Longrightarrow> state \<le> Deleting \<Longrightarrow> ParseDiskState (DiskState_String state) = Inr state"
  "kind = CacheDisk \<or> kind = JournalDisk \<Longrightarrow> ParseDiskKind (DiskKind_String kind) = Inr kind"
  by (cases state; simp add: ParseDiskState_def less_eq_DiskState_def) (auto simp: ParseDiskKind_def)

section \<open>A membership\<close>

record Member =
  member_ID :: identity
  member_Address :: string
  member_State :: MemberState

record Disk =
  disk_ID :: identity
  disk_Volume :: string
  disk_Weight :: u32
  disk_Member :: identity
  disk_State :: DiskState
  disk_Assigned :: u64
  disk_Kind :: DiskKind
  disk_Machine :: string
  disk_Empty :: bool

record Membership =
  m_generation :: u64
  m_code :: Code
  m_earlier :: "Code list"
  m_nonce :: bytes
  m_members :: "Member list"
  m_disks :: "Disk list"
  m_list :: RankList

definition Membership_Member :: "Membership \<Rightarrow> identity \<Rightarrow> Member option" where
  "Membership_Member m who = find_sorted member_ID (m_members m) who"

definition Membership_Disk :: "Membership \<Rightarrow> identity \<Rightarrow> Disk option" where
  "Membership_Disk m which = find_sorted disk_ID (m_disks m) which"

definition checkDisk :: "Membership \<Rightarrow> Disk \<Rightarrow> error + unit" where
  "checkDisk m disk =
     (if disk_ID disk = 0 \<or> disk_Weight disk = 0 \<and> disk_Kind disk = CacheDisk then Inl [MembershipInvalid]
      else if disk_Kind disk \<noteq> CacheDisk \<and> disk_Kind disk \<noteq> JournalDisk then Inl [MembershipInvalid]
      else if disk_Kind disk = CacheDisk \<and> (disk_Machine disk \<noteq> [] \<or> disk_Empty disk \<or> disk_State disk = Deleting)
      then Inl [MembershipInvalid]
      else if disk_State disk < Attaching \<or> disk_State disk > Deleting then Inl [MembershipInvalid]
      else if disk_State disk = Released \<or> disk_State disk = Deleting
      then (if disk_Member disk \<noteq> 0 \<or> disk_Assigned disk \<noteq> 0 then Inl [MembershipInvalid] else Inr ())
      else if Membership_Member m (disk_Member disk) = None then Inl [MembershipInvalid]
      else if disk_Assigned disk = 0 \<or> disk_Assigned disk > m_generation m then Inl [MembershipInvalid]
      else Inr ())"

definition served :: "Membership \<Rightarrow> Disk \<Rightarrow> string" where
  "served m disk =
     (if disk_State disk \<noteq> Serving then []
      else case Membership_Member m (disk_Member disk) of None \<Rightarrow> [] | Some member \<Rightarrow> member_Address member)"

text \<open>The loops of \<open>New\<close> over the members and the disks, each with the entry before.\<close>

fun check_members :: "Member option \<Rightarrow> Member list \<Rightarrow> error + unit" where
  "check_members before [] = Inr ()"
| "check_members before (member # members) =
     (if member_ID member = 0 \<or> member_Address member = [] then Inl [MembershipInvalid]
      else if member_State member < Joining \<or> member_State member > Draining then Inl [MembershipInvalid]
      else if map_option member_ID before = Some (member_ID member) then Inl [MembershipInvalid]
      else check_members (Some member) members)"

fun check_disks :: "Membership \<Rightarrow> Disk option \<Rightarrow> Disk list \<Rightarrow> error + Cache list" where
  "check_disks m before [] = Inr []"
| "check_disks m before (disk # disks) =
     (if map_option disk_ID before = Some (disk_ID disk) then Inl [MembershipInvalid]
      else case checkDisk m disk of
        Inl err \<Rightarrow> Inl err
      | Inr _ \<Rightarrow>
          (case check_disks m (Some disk) disks of
             Inl err \<Rightarrow> Inl err
           | Inr caches \<Rightarrow>
               Inr (if disk_Kind disk = CacheDisk
                    then \<lparr> cache_Identity = disk_ID disk, cache_Weight = disk_Weight disk, cache_Address = served m disk \<rparr> # caches
                    else caches)))"

definition New :: "u64 \<Rightarrow> Code \<Rightarrow> Member list \<Rightarrow> Disk list \<Rightarrow> Code list \<Rightarrow> error + Membership" where
  "New generation code members disks earlier =
     (case Validate code of
        Inl err \<Rightarrow> Inl (MembershipInvalid # err)
      | Inr _ \<Rightarrow>
          let m = \<lparr> m_generation = generation, m_code = code, m_earlier = earlier, m_nonce = [],
                m_members = sort_key member_ID members, m_disks = sort_key disk_ID disks, m_list = no_list \<rparr>
          in case check_members None (m_members m) of
            Inl err \<Rightarrow> Inl err
          | Inr _ \<Rightarrow>
              (case check_disks m None (m_disks m) of
                 Inl err \<Rightarrow> Inl err
               | Inr caches \<Rightarrow>
                   (case NewList code caches earlier of
                      Inl err \<Rightarrow> Inl (MembershipInvalid # err)
                    | Inr l \<Rightarrow> Inr (m\<lparr> m_list := l \<rparr>))))"

definition Membership_Alone :: "Member \<Rightarrow> Disk \<Rightarrow> Membership" where
  "Membership_Alone self disk =
     (let self = self\<lparr> member_State := Active \<rparr>;
          disk = disk\<lparr> disk_Member := member_ID self, disk_State := Serving, disk_Assigned := 0 \<rparr>;
          nobody = member_ID self = 0 \<or> member_Address self = [] \<or> disk_ID disk = 0 \<or> disk_Weight disk = 0;
          l = rank_Alone (if nobody then \<lparr> cache_Identity = 0, cache_Weight = 0, cache_Address = [] \<rparr>
            else \<lparr> cache_Identity = disk_ID disk, cache_Weight = disk_Weight disk, cache_Address = member_Address self \<rparr>)
      in \<lparr> m_generation = 0, m_code = list_code l, m_earlier = [], m_nonce = [],
           m_members = (if nobody then [] else [self]), m_disks = (if nobody then [] else [disk]), m_list = l \<rparr>)"

definition Serves :: "Membership \<Rightarrow> identity \<Rightarrow> identity \<Rightarrow> bool" where
  "Serves m member disk \<longleftrightarrow>
     (case Membership_Disk m disk of
        None \<Rightarrow> False
      | Some found \<Rightarrow> member \<noteq> 0 \<and> disk_Member found = member \<and> disk_State found = Serving)"

record Route =
  route_Disk :: identity
  route_Address :: string
  route_Generation :: u64
  route_Assigned :: u64

definition Membership_Route :: "Membership \<Rightarrow> identity \<Rightarrow> Route option" where
  "Membership_Route m disk =
     (case Membership_Disk m disk of
        None \<Rightarrow> None
      | Some found \<Rightarrow>
          let address = served m found
          in if address = [] then None
             else Some \<lparr> route_Disk = disk, route_Address = address, route_Generation = m_generation m,
               route_Assigned = disk_Assigned found \<rparr>)"

definition Membership_Equal :: "Membership \<Rightarrow> Membership \<Rightarrow> bool" where
  "Membership_Equal m other \<longleftrightarrow> m_generation m = m_generation other \<and> m_code m = m_code other
     \<and> m_earlier m = m_earlier other \<and> m_members m = m_members other \<and> m_disks m = m_disks other"

definition FromList :: "u64 \<Rightarrow> RankList \<Rightarrow> error + Membership" where
  "FromList generation l =
     New generation (list_code l)
       (map (\<lambda>c. \<lparr> member_ID = cache_Identity c, member_Address = cache_Address c, member_State = Active \<rparr>) (list_caches l))
       (map (\<lambda>c. \<lparr> disk_ID = cache_Identity c, disk_Volume = Identity_String (cache_Identity c), disk_Weight = cache_Weight c,
          disk_Member = cache_Identity c, disk_State = Serving, disk_Assigned = 1, disk_Kind = CacheDisk,
          disk_Machine = [], disk_Empty = False \<rparr>) (list_caches l))
       (list_earlier l)"

text \<open>\<open>Empty\<close> of \<^verbatim>\<open>membership/store.go\<close>: the membership of a deployment that has written none.\<close>

definition no_membership :: Membership where
  "no_membership = \<lparr> m_generation = 0, m_code = \<lparr> code_K = 0, code_M = 0 \<rparr>, m_earlier = [], m_nonce = [],
     m_members = [], m_disks = [], m_list = no_list \<rparr>"

definition Membership_Empty :: Membership where
  "Membership_Empty = (case New 0 (CodeFor 1) [] [] [] of Inl _ \<Rightarrow> no_membership | Inr m \<Rightarrow> m)"

section \<open>Changes\<close>

definition Membership_next :: "Membership \<Rightarrow> Member list \<Rightarrow> Disk list \<Rightarrow> error + Membership" where
  "Membership_next m members disks = New (m_generation m + 1) (m_code m) members disks (m_earlier m)"

definition put_disk :: "Disk list \<Rightarrow> Disk \<Rightarrow> Disk list" where
  "put_disk disks disk =
     (case index_func (\<lambda>listed. disk_ID listed = disk_ID disk) disks of
        Some place \<Rightarrow> disks[place := disk]
      | None \<Rightarrow> disks @ [disk])"

definition Membership_Join :: "Membership \<Rightarrow> Member \<Rightarrow> Disk list \<Rightarrow> error + Membership" where
  "Membership_Join m member disks =
     (case Membership_Member m (member_ID member) of
        Some listed \<Rightarrow>
          if list_ex (\<lambda>disk. map_option disk_Member (Membership_Disk m (disk_ID disk)) \<noteq> Some (member_ID listed)) disks
          then Inl [MembershipInvalid] else Inl [Unchanged]
      | None \<Rightarrow>
          Membership_next m (m_members m @ [member\<lparr> member_State := Joining \<rparr>])
            (foldl put_disk (m_disks m) (map (\<lambda>disk. disk\<lparr> disk_Member := member_ID member, disk_State := Attaching,
               disk_Assigned := m_generation m + 1 \<rparr>) disks)))"

definition Membership_Add :: "Membership \<Rightarrow> Disk \<Rightarrow> error + Membership" where
  "Membership_Add m disk =
     (if Membership_Disk m (disk_ID disk) \<noteq> None then Inl [Unchanged]
      else Membership_next m (m_members m)
        (m_disks m @ [disk\<lparr> disk_Member := 0, disk_State := Released, disk_Assigned := 0 \<rparr>]))"

definition Membership_Serve :: "Membership \<Rightarrow> identity \<Rightarrow> identity \<Rightarrow> error + Membership" where
  "Membership_Serve m disk member =
     (case Membership_Disk m disk of
        None \<Rightarrow> Inl [MembershipInvalid]
      | Some found \<Rightarrow>
          if disk_Member found \<noteq> member then Inl [MembershipInvalid]
          else if disk_State found = Serving then Inl [Unchanged]
          else if disk_State found \<noteq> Attaching then Inl [MembershipInvalid]
          else Membership_next m
            (map (\<lambda>listed. if member_ID listed = member \<and> member_State listed = Joining
               then listed\<lparr> member_State := Active \<rparr> else listed) (m_members m))
            (put_disk (m_disks m) (found\<lparr> disk_State := Serving \<rparr>)))"

definition Membership_Move :: "Membership \<Rightarrow> identity \<Rightarrow> string \<Rightarrow> error + Membership" where
  "Membership_Move m member address =
     (case index_func (\<lambda>listed. member_ID listed = member) (m_members m) of
        None \<Rightarrow> Inl [MembershipInvalid]
      | Some place \<Rightarrow>
          if member_Address (m_members m ! place) = address then Inl [Unchanged]
          else Membership_next m ((m_members m)[place := (m_members m ! place)\<lparr> member_Address := address \<rparr>]) (m_disks m))"

definition Membership_Weigh :: "Membership \<Rightarrow> identity \<Rightarrow> u32 \<Rightarrow> error + Membership" where
  "Membership_Weigh m disk weight =
     (case Membership_Disk m disk of
        None \<Rightarrow> Inl [MembershipInvalid]
      | Some found \<Rightarrow>
          if disk_Weight found = weight then Inl [Unchanged]
          else Membership_next m (m_members m) (put_disk (m_disks m) (found\<lparr> disk_Weight := weight \<rparr>)))"

definition draining_disk :: "identity \<Rightarrow> Disk \<Rightarrow> bool" where
  "draining_disk member disk \<longleftrightarrow> disk_Member disk = member \<and> (disk_State disk = Attaching \<or> disk_State disk = Serving)"

definition Membership_Drain :: "Membership \<Rightarrow> identity \<Rightarrow> error + Membership" where
  "Membership_Drain m member =
     (case index_func (\<lambda>listed. member_ID listed = member) (m_members m) of
        None \<Rightarrow> Inl [MembershipInvalid]
      | Some place \<Rightarrow>
          if member_State (m_members m ! place) = Draining \<and> \<not> list_ex (draining_disk member) (m_disks m)
          then Inl [Unchanged]
          else Membership_next m ((m_members m)[place := (m_members m ! place)\<lparr> member_State := Draining \<rparr>])
            (map (\<lambda>disk. if draining_disk member disk then disk\<lparr> disk_State := Releasing \<rparr> else disk) (m_disks m)))"

definition Membership_Release :: "Membership \<Rightarrow> identity \<Rightarrow> error + Membership" where
  "Membership_Release m disk =
     (case Membership_Disk m disk of
        None \<Rightarrow> Inl [MembershipInvalid]
      | Some found \<Rightarrow>
          if disk_State found = Releasing \<or> disk_State found = Released then Inl [Unchanged]
          else Membership_next m (m_members m) (put_disk (m_disks m) (found\<lparr> disk_State := Releasing \<rparr>)))"

definition Membership_Let :: "Membership \<Rightarrow> identity \<Rightarrow> identity \<Rightarrow> error + Membership" where
  "Membership_Let m disk member =
     (case Membership_Disk m disk of
        None \<Rightarrow> Inl [MembershipInvalid]
      | Some found \<Rightarrow>
          if disk_State found = Released then Inl [Unchanged]
          else if disk_State found \<noteq> Releasing \<or> disk_Member found \<noteq> member then Inl [MembershipInvalid]
          else Membership_next m (m_members m) (put_disk (m_disks m)
            (found\<lparr> disk_Member := 0, disk_State := Released, disk_Assigned := 0 \<rparr>)))"

definition Membership_Assign :: "Membership \<Rightarrow> identity \<Rightarrow> identity \<Rightarrow> error + Membership" where
  "Membership_Assign m disk member =
     (case Membership_Disk m disk of
        None \<Rightarrow> Inl [MembershipInvalid]
      | Some found \<Rightarrow>
          if disk_Member found = member \<and> (disk_State found = Attaching \<or> disk_State found = Serving) then Inl [Unchanged]
          else
            let found = found\<lparr> disk_Member := member, disk_State := Attaching, disk_Assigned := m_generation m + 1 \<rparr>;
                found = (if disk_Kind found = JournalDisk then found\<lparr> disk_Empty := False \<rparr> else found)
            in Membership_next m (m_members m) (put_disk (m_disks m) found))"

definition Membership_Reserve :: "Membership \<Rightarrow> identity \<Rightarrow> string \<Rightarrow> error + Membership" where
  "Membership_Reserve m disk machine =
     (case Membership_Disk m disk of
        None \<Rightarrow> Inl [MembershipInvalid]
      | Some found \<Rightarrow>
          if disk_Kind found \<noteq> JournalDisk then Inl [MembershipInvalid]
          else if disk_Machine found = machine then Inl [Unchanged]
          else Membership_next m (m_members m) (put_disk (m_disks m) (found\<lparr> disk_Machine := machine \<rparr>)))"

definition Membership_MarkEmpty :: "Membership \<Rightarrow> identity \<Rightarrow> bool \<Rightarrow> error + Membership" where
  "Membership_MarkEmpty m disk is_empty =
     (case Membership_Disk m disk of
        None \<Rightarrow> Inl [MembershipInvalid]
      | Some found \<Rightarrow>
          if disk_Kind found \<noteq> JournalDisk then Inl [MembershipInvalid]
          else if disk_Empty found = is_empty then Inl [Unchanged]
          else Membership_next m (m_members m) (put_disk (m_disks m) (found\<lparr> disk_Empty := is_empty \<rparr>)))"

definition Membership_Delete :: "Membership \<Rightarrow> identity \<Rightarrow> error + Membership" where
  "Membership_Delete m disk =
     (case Membership_Disk m disk of
        None \<Rightarrow> Inl [MembershipInvalid]
      | Some found \<Rightarrow>
          if disk_Kind found \<noteq> JournalDisk then Inl [MembershipInvalid]
          else if disk_State found = Deleting then Inl [Unchanged]
          else Membership_next m (m_members m) (put_disk (m_disks m) (found\<lparr> disk_State := Deleting \<rparr>)))"

definition delete_at :: "nat \<Rightarrow> 'a list \<Rightarrow> 'a list" where
  "delete_at place xs = take place xs @ drop (place + 1) xs"

definition Membership_Remove :: "Membership \<Rightarrow> identity \<Rightarrow> error + Membership" where
  "Membership_Remove m disk =
     (case index_func (\<lambda>listed. disk_ID listed = disk) (m_disks m) of
        None \<Rightarrow> Inl [Unchanged]
      | Some place \<Rightarrow> Membership_next m (m_members m) (delete_at place (m_disks m)))"

definition Membership_Leave :: "Membership \<Rightarrow> identity \<Rightarrow> error + Membership" where
  "Membership_Leave m member =
     (case index_func (\<lambda>listed. member_ID listed = member) (m_members m) of
        None \<Rightarrow> Inl [Unchanged]
      | Some place \<Rightarrow> Membership_next m (delete_at place (m_members m)) (m_disks m))"

definition Recode :: "Membership \<Rightarrow> Code \<Rightarrow> Code list \<Rightarrow> error + Membership" where
  "Recode m code earlier =
     (if code = m_code m \<and> earlier = m_earlier m then Inl [Unchanged]
      else New (m_generation m + 1) code (m_members m) (m_disks m) earlier)"

section \<open>What may follow what\<close>

definition stepJournal :: "Disk option \<Rightarrow> Disk \<Rightarrow> error + unit" where
  "stepJournal listed disk =
     (case listed of
        None \<Rightarrow> Inr ()
      | Some was \<Rightarrow>
          if disk_Kind disk \<noteq> disk_Kind was then Inl [MembershipInvalid]
          else if disk_State disk = Deleting \<and> disk_State was \<noteq> Deleting
              \<and> (disk_State was \<noteq> Released \<or> \<not> disk_Empty was) then Inl [MembershipInvalid]
          else if disk_State disk = Attaching \<and> disk_State was = Released \<and> disk_Empty disk then Inl [MembershipInvalid]
          else if disk_State was = Deleting \<and> disk_State disk \<noteq> Deleting then Inl [MembershipInvalid]
          else if disk_Machine disk \<noteq> disk_Machine was \<and> disk_State was \<noteq> Released then Inl [MembershipInvalid]
          else Inr ())"

definition assigning :: "Disk option \<Rightarrow> Disk \<Rightarrow> bool" where
  "assigning listed disk \<longleftrightarrow> disk_State disk = Attaching \<and> map_option disk_Member listed \<noteq> Some (disk_Member disk)"

definition stepDisk :: "Membership \<Rightarrow> Disk option \<Rightarrow> Disk \<Rightarrow> error + unit" where
  "stepDisk after listed disk =
     (case stepJournal listed disk of
        Inl err \<Rightarrow> Inl err
      | Inr _ \<Rightarrow>
          if assigning listed disk
          then (if listed \<noteq> None \<and> map_option disk_State listed \<noteq> Some Released then Inl [MembershipInvalid]
                else if map_option member_State (Membership_Member after (disk_Member disk)) = Some Draining
                then Inl [MembershipInvalid]
                else if disk_Assigned disk \<noteq> m_generation after then Inl [MembershipInvalid]
                else Inr ())
          else case listed of
            None \<Rightarrow> if disk_State disk \<noteq> Released then Inl [MembershipInvalid] else Inr ()
          | Some was \<Rightarrow>
              if disk_State disk = Released
              then (if disk_State was \<noteq> Releasing \<and> disk_State was \<noteq> Released then Inl [MembershipInvalid] else Inr ())
              else if disk_State disk = Deleting then Inr ()
              else if disk_Member disk \<noteq> disk_Member was \<or> disk_Assigned disk \<noteq> disk_Assigned was
              then Inl [MembershipInvalid]
              else if disk_State disk < disk_State was then Inl [MembershipInvalid]
              else Inr ())"

primrec first_error :: "('a \<Rightarrow> error + unit) \<Rightarrow> 'a list \<Rightarrow> error + unit" where
  "first_error f [] = Inr ()"
| "first_error f (x # xs) = (case f x of Inl err \<Rightarrow> Inl err | Inr _ \<Rightarrow> first_error f xs)"

definition step_removal :: "Membership \<Rightarrow> Disk \<Rightarrow> error + unit" where
  "step_removal after disk =
     (let kept = Membership_Disk after (disk_ID disk) \<noteq> None
      in if \<not> kept \<and> disk_State disk \<noteq> Released \<and> disk_State disk \<noteq> Deleting then Inl [MembershipInvalid]
         else if \<not> kept \<and> disk_Kind disk = JournalDisk \<and> disk_State disk \<noteq> Deleting then Inl [MembershipInvalid]
         else Inr ())"

definition step_leave :: "Membership \<Rightarrow> Member \<Rightarrow> error + unit" where
  "step_leave after member =
     (if Membership_Member after (member_ID member) \<noteq> None then Inr ()
      else if member_State member \<noteq> Draining then Inl [MembershipInvalid]
      else Inr ())"

definition Step :: "Membership \<Rightarrow> Membership \<Rightarrow> error + unit" where
  "Step current after =
     (if m_generation after \<noteq> m_generation current + 1 then Inl [MembershipInvalid]
      else case first_error (\<lambda>disk. stepDisk after (Membership_Disk current (disk_ID disk)) disk) (m_disks after) of
        Inl err \<Rightarrow> Inl err
      | Inr _ \<Rightarrow>
          (case first_error (step_removal after) (m_disks current) of
             Inl err \<Rightarrow> Inl err
           | Inr _ \<Rightarrow> first_error (step_leave after) (m_members current)))"

end
