(* ===== verification/Membership_Step.thy ===== *)
theory Membership_Step
  imports Membership
begin

text \<open>
  What \<open>New\<close> makes is well formed, what \<open>Step\<close> admits of one disk, and the histories of
  memberships that \<open>Step\<close> allows.
\<close>

section \<open>Well-formed memberships\<close>

definition member_ok :: "Member \<Rightarrow> bool" where
  "member_ok member \<longleftrightarrow> member_ID member \<noteq> 0 \<and> member_Address member \<noteq> [] \<and> member_State member \<in> {Joining, Active, Draining}"

text \<open>A disk a member holds, and one nobody does.\<close>

definition assigned :: "Disk \<Rightarrow> bool" where
  "assigned disk \<longleftrightarrow> disk_State disk \<in> {Attaching, Serving, Releasing}"

definition disk_ok :: "Membership \<Rightarrow> Disk \<Rightarrow> bool" where
  "disk_ok m disk \<longleftrightarrow> disk_ID disk \<noteq> 0
     \<and> (disk_Kind disk = CacheDisk \<and> disk_Weight disk \<noteq> 0 \<and> disk_Machine disk = [] \<and> \<not> disk_Empty disk \<and> disk_State disk \<noteq> Deleting
        \<or> disk_Kind disk = JournalDisk)
     \<and> (assigned disk \<and> disk_Member disk \<in> member_ID ` set (m_members m) \<and> 0 < disk_Assigned disk \<and> disk_Assigned disk \<le> m_generation m
        \<or> disk_State disk \<in> {Released, Deleting} \<and> disk_Member disk = 0 \<and> disk_Assigned disk = 0)"

definition caches_of :: "Membership \<Rightarrow> Cache list" where
  "caches_of m = map (\<lambda>disk. \<lparr> cache_Identity = disk_ID disk, cache_Weight = disk_Weight disk, cache_Address = served m disk \<rparr>)
     (filter (\<lambda>disk. disk_Kind disk = CacheDisk) (m_disks m))"

definition membership_ok :: "Membership \<Rightarrow> bool" where
  "membership_ok m \<longleftrightarrow> Validate (m_code m) = Inr ()
     \<and> sorted_wrt (<) (map member_ID (m_members m)) \<and> (\<forall>member \<in> set (m_members m). member_ok member)
     \<and> sorted_wrt (<) (map disk_ID (m_disks m)) \<and> (\<forall>disk \<in> set (m_disks m). disk_ok m disk)
     \<and> NewList (m_code m) (caches_of m) (m_earlier m) = Inr (m_list m)"

lemma member_states: "\<not> (s < Joining \<or> s > Draining) \<longleftrightarrow> s \<in> {Joining, Active, Draining}"
  by (cases s) (simp_all add: less_MemberState_def)

lemma disk_states: "\<not> (s < Attaching \<or> s > Deleting) \<longleftrightarrow> s \<in> {Attaching, Serving, Releasing, Released, Deleting}"
  by (cases s) (simp_all add: less_DiskState_def)

lemma Membership_Member_Some:
  "sorted_wrt (<) (map member_ID (m_members m)) \<Longrightarrow>
     Membership_Member m who = Some member \<longleftrightarrow> member \<in> set (m_members m) \<and> member_ID member = who"
  by (simp add: Membership_Member_def find_sorted_Some)

lemma Membership_Member_None:
  "sorted_wrt (<) (map member_ID (m_members m)) \<Longrightarrow> Membership_Member m who = None \<longleftrightarrow> who \<notin> member_ID ` set (m_members m)"
  by (simp add: Membership_Member_def find_sorted_None)

lemma Membership_Disk_Some:
  "sorted_wrt (<) (map disk_ID (m_disks m)) \<Longrightarrow>
     Membership_Disk m which = Some disk \<longleftrightarrow> disk \<in> set (m_disks m) \<and> disk_ID disk = which"
  by (simp add: Membership_Disk_def find_sorted_Some)

lemma Membership_Disk_None:
  "sorted_wrt (<) (map disk_ID (m_disks m)) \<Longrightarrow> Membership_Disk m which = None \<longleftrightarrow> which \<notin> disk_ID ` set (m_disks m)"
  by (simp add: Membership_Disk_def find_sorted_None)

lemma checkDisk_ok:
  assumes "sorted_wrt (<) (map member_ID (m_members m))"
  shows "checkDisk m disk = Inr () \<longleftrightarrow> disk_ok m disk"
  by (cases "disk_State disk"; cases "disk_Kind disk")
    (simp_all add: checkDisk_def disk_ok_def assigned_def less_DiskState_def Membership_Member_None [OF assms] word_gt_0 not_less, auto simp: not_le)

text \<open>A list in order whose neighbours differ is strictly in order.\<close>

lemma strict_Cons:
  fixes x :: "'k::linorder"
  assumes "sorted (x # xs)" "sorted_wrt (<) xs" "xs \<noteq> [] \<Longrightarrow> x \<noteq> hd xs"
  shows "sorted_wrt (<) (x # xs)"
  using assms by (cases xs) (auto simp: order.strict_iff_order)

lemma check_members_ok:
  "check_members before members = Inr () \<Longrightarrow> sorted (map member_ID members) \<Longrightarrow>
     (\<forall>member \<in> set members. member_ok member) \<and> sorted_wrt (<) (map member_ID members)
     \<and> (members \<noteq> [] \<longrightarrow> map_option member_ID before \<noteq> Some (member_ID (hd members)))"
proof (induction members arbitrary: before)
  case (Cons member members)
  have here: "member_ok member" "map_option member_ID before \<noteq> Some (member_ID member)" "check_members (Some member) members = Inr ()"
    using Cons(2) member_states [of "member_State member"] by (simp_all add: member_ok_def split: if_splits)
  have "sorted (map member_ID members)" using Cons(3) by simp
  then have rest: "\<forall>member \<in> set members. member_ok member" "sorted_wrt (<) (map member_ID members)"
      "members \<noteq> [] \<Longrightarrow> member_ID member \<noteq> member_ID (hd members)"
    using Cons(1) [OF here(3)] by simp_all
  have "sorted_wrt (<) (map member_ID (member # members))"
    using strict_Cons [of "member_ID member" "map member_ID members"] Cons(3) rest(2,3) by (simp add: hd_map)
  then show ?case using here rest by simp
qed simp

lemma check_disks_ok:
  "check_disks m before disks = Inr caches \<Longrightarrow> sorted (map disk_ID disks) \<Longrightarrow>
     (\<forall>disk \<in> set disks. checkDisk m disk = Inr ()) \<and> sorted_wrt (<) (map disk_ID disks)
     \<and> caches = map (\<lambda>disk. \<lparr> cache_Identity = disk_ID disk, cache_Weight = disk_Weight disk, cache_Address = served m disk \<rparr>)
         (filter (\<lambda>disk. disk_Kind disk = CacheDisk) disks)
     \<and> (disks \<noteq> [] \<longrightarrow> map_option disk_ID before \<noteq> Some (disk_ID (hd disks)))"
proof (induction disks arbitrary: before caches)
  case (Cons disk disks)
  obtain others where here: "checkDisk m disk = Inr ()" "map_option disk_ID before \<noteq> Some (disk_ID disk)"
      "check_disks m (Some disk) disks = Inr others"
      "caches = (if disk_Kind disk = CacheDisk
         then \<lparr> cache_Identity = disk_ID disk, cache_Weight = disk_Weight disk, cache_Address = served m disk \<rparr> # others else others)"
    using Cons(2) by (simp split: if_splits sum.splits)
  have "sorted (map disk_ID disks)" using Cons(3) by simp
  note rest = Cons(1) [OF here(3) this]
  have "sorted_wrt (<) (map disk_ID (disk # disks))"
    using strict_Cons [of "disk_ID disk" "map disk_ID disks"] Cons(3) rest by (simp add: hd_map)
  then show ?case using here rest by simp
qed simp

lemma New_ok:
  assumes "New generation code members disks earlier = Inr m"
  shows "membership_ok m" "m_generation m = generation" "m_code m = code" "m_earlier m = earlier"
    "m_members m = sort_key member_ID members" "m_disks m = sort_key disk_ID disks" "m_nonce m = []"
proof -
  define m0 where "m0 = \<lparr> m_generation = generation, m_code = code, m_earlier = earlier, m_nonce = [],
    m_members = sort_key member_ID members, m_disks = sort_key disk_ID disks, m_list = no_list \<rparr>"
  obtain caches l where made: "Validate code = Inr ()" "check_members None (m_members m0) = Inr ()"
      "check_disks m0 None (m_disks m0) = Inr caches" "NewList code caches earlier = Inr l" "m = m0\<lparr> m_list := l \<rparr>"
    using assms by (auto simp: New_def Let_def m0_def split: sum.splits)
  have sorted: "sorted (map member_ID (m_members m0))" "sorted (map disk_ID (m_disks m0))" by (simp_all add: m0_def)
  note members = check_members_ok [OF made(2) sorted(1)] and disks = check_disks_ok [OF made(3) sorted(2)]
  have served: "served m = served m0" and same: "disk_ok m = disk_ok m0"
    by (simp_all add: made(5) served_def Membership_Member_def disk_ok_def fun_eq_iff)
  show "m_generation m = generation" "m_code m = code" "m_earlier m = earlier" "m_members m = sort_key member_ID members"
    "m_disks m = sort_key disk_ID disks" "m_nonce m = []" by (simp_all add: made(5) m0_def)
  have "\<forall>disk \<in> set (m_disks m0). disk_ok m0 disk" using disks members checkDisk_ok by blast
  moreover have "caches_of m = caches" using disks by (simp add: caches_of_def served) (simp add: made(5))
  ultimately show "membership_ok m" unfolding membership_ok_def same
    using made members disks by (simp add: m0_def)
qed

lemma membership_okD:
  assumes "membership_ok m"
  shows "Membership_Disk m which = Some disk \<longleftrightarrow> disk \<in> set (m_disks m) \<and> disk_ID disk = which"
    "Membership_Disk m which = None \<longleftrightarrow> which \<notin> disk_ID ` set (m_disks m)"
    "Membership_Member m who = Some member \<longleftrightarrow> member \<in> set (m_members m) \<and> member_ID member = who"
    "Membership_Member m who = None \<longleftrightarrow> who \<notin> member_ID ` set (m_members m)"
    "Membership_Disk m which = Some disk \<Longrightarrow> disk_ok m disk"
  using assms
  by (simp_all add: membership_ok_def Membership_Disk_Some Membership_Disk_None Membership_Member_Some Membership_Member_None)

lemma Empty_New: "New 0 (CodeFor 1) [] [] [] = Inr Membership_Empty"
  by (simp add: Membership_Empty_def New_def CodeFor_def Validate_def Width_def NewList_def)

lemma Empty_ok: "membership_ok Membership_Empty" "m_generation Membership_Empty = 0" "m_disks Membership_Empty = []"
    "m_members Membership_Empty = []"
  using New_ok [OF Empty_New] by simp_all

section \<open>What \<open>New\<close> takes\<close>

text \<open>Codes a membership may have, and entries one at a generation may list.\<close>

definition codes_ok :: "Code \<Rightarrow> Code list \<Rightarrow> bool" where
  "codes_ok code earlier \<longleftrightarrow> Validate code = Inr () \<and> length earlier \<le> MaxEarlierCodes \<and> check_earlier code [] earlier = Inr ()"

abbreviation listing :: "u64 \<Rightarrow> Member list \<Rightarrow> Membership" where
  "listing generation members \<equiv> no_membership\<lparr> m_generation := generation, m_members := members \<rparr>"

definition lists_ok :: "u64 \<Rightarrow> Member list \<Rightarrow> Disk list \<Rightarrow> bool" where
  "lists_ok generation members disks \<longleftrightarrow>
     distinct (map member_ID members) \<and> (\<forall>member \<in> set members. member_ok member)
     \<and> distinct (map disk_ID disks) \<and> (\<forall>disk \<in> set disks. disk_ok (listing generation members) disk)"

lemma check_members_complete:
  assumes "sorted_wrt (<) (map member_ID members)" "\<forall>member \<in> set members. member_ok member"
    and "\<forall>b. before = Some b \<longrightarrow> (\<forall>member \<in> set members. member_ID b < member_ID member)"
  shows "check_members before members = Inr ()"
  using assms
proof (induction members arbitrary: before)
  case (Cons member members)
  have "check_members (Some member) members = Inr ()" using Cons.prems by (intro Cons.IH) auto
  moreover have "map_option member_ID before \<noteq> Some (member_ID member)" using Cons.prems(3) by (cases before) auto
  moreover have "member_ok member" using Cons.prems(2) by simp
  ultimately show ?case using member_states [of "member_State member"] by (simp add: member_ok_def)
qed simp

lemma check_disks_complete:
  assumes "sorted_wrt (<) (map disk_ID disks)" "\<forall>disk \<in> set disks. checkDisk m disk = Inr ()"
    and "\<forall>b. before = Some b \<longrightarrow> (\<forall>disk \<in> set disks. disk_ID b < disk_ID disk)"
  shows "check_disks m before disks = Inr (map (\<lambda>disk. \<lparr> cache_Identity = disk_ID disk, cache_Weight = disk_Weight disk,
    cache_Address = served m disk \<rparr>) (filter (\<lambda>disk. disk_Kind disk = CacheDisk) disks))"
  using assms
proof (induction disks arbitrary: before)
  case (Cons disk disks)
  have "check_disks m (Some disk) disks = Inr (map (\<lambda>disk. \<lparr> cache_Identity = disk_ID disk, cache_Weight = disk_Weight disk,
      cache_Address = served m disk \<rparr>) (filter (\<lambda>disk. disk_Kind disk = CacheDisk) disks))"
    using Cons.prems by (intro Cons.IH) auto
  moreover have "map_option disk_ID before \<noteq> Some (disk_ID disk)" using Cons.prems(3) by (cases before) auto
  ultimately show ?case using Cons.prems(2) by simp
qed simp

lemma check_caches_complete:
  assumes "sorted_wrt (<) (map cache_Identity caches)" "\<forall>c \<in> set caches. cache_Identity c \<noteq> 0 \<and> cache_Weight c \<noteq> 0"
    and "\<forall>b. before = Some b \<longrightarrow> (\<forall>c \<in> set caches. cache_Identity b < cache_Identity c)"
  shows "\<exists>seeds. check_caches before caches = Inr seeds"
  using assms
proof (induction caches arbitrary: before)
  case (Cons c caches)
  obtain seeds where "check_caches (Some c) caches = Inr seeds" using Cons.IH [of "Some c"] Cons.prems by auto
  moreover have "map_option cache_Identity before \<noteq> Some (cache_Identity c)" using Cons.prems(3) by (cases before) auto
  ultimately show ?case using Cons.prems(2) by simp
qed simp

lemma sorted_strictly:
  fixes key :: "'a \<Rightarrow> 'k::linorder"
  shows "distinct (map key xs) \<Longrightarrow> sorted_wrt (<) (map key (sort_key key xs))"
  by (simp add: strict_sorted_iff distinct_map)

lemma NewList_succeeds:
  assumes "codes_ok code earlier" "distinct (map cache_Identity caches)" "\<forall>c \<in> set caches. cache_Identity c \<noteq> 0 \<and> cache_Weight c \<noteq> 0"
  shows "\<exists>l. NewList code caches earlier = Inr l"
proof -
  obtain seeds where "check_caches None (sort_key cache_Identity caches) = Inr seeds"
    using check_caches_complete [OF sorted_strictly [OF assms(2)], of None] assms(3) by auto
  then show ?thesis using assms(1) by (simp add: codes_ok_def NewList_def)
qed

lemma disk_ok_listing: "disk_ok m disk \<longleftrightarrow> disk_ok (listing (m_generation m) (m_members m)) disk"
  by (simp add: disk_ok_def)

lemma New_succeeds:
  assumes codes: "codes_ok code earlier" and lists: "lists_ok generation members disks"
  shows "\<exists>after. New generation code members disks earlier = Inr after"
proof -
  define m where "m = \<lparr> m_generation = generation, m_code = code, m_earlier = earlier, m_nonce = [],
    m_members = sort_key member_ID members, m_disks = sort_key disk_ID disks, m_list = no_list \<rparr>"
  have fields: "m_generation m = generation" "m_members m = sort_key member_ID members" by (simp_all add: m_def)
  have sorted: "sorted_wrt (<) (map member_ID (m_members m))" "sorted_wrt (<) (map disk_ID (sort_key disk_ID disks))"
    unfolding fields using lists by (simp_all only: lists_ok_def sorted_strictly)
  have members: "check_members None (m_members m) = Inr ()"
    by (rule check_members_complete [OF sorted(1)]) (use lists in \<open>simp_all add: fields lists_ok_def\<close>)
  have "\<forall>disk \<in> set (sort_key disk_ID disks). checkDisk m disk = Inr ()"
    using lists by (auto simp: checkDisk_ok [OF sorted(1)] lists_ok_def disk_ok_def fields)
  note disks = check_disks_complete [OF sorted(2) this, of None]
  let ?caches = "map (\<lambda>disk. \<lparr> cache_Identity = disk_ID disk, cache_Weight = disk_Weight disk, cache_Address = served m disk \<rparr>)
    (filter (\<lambda>disk. disk_Kind disk = CacheDisk) (sort_key disk_ID disks))"
  have "distinct (map cache_Identity ?caches)" using sorted(2) by (simp add: strict_sorted_iff distinct_map_filter comp_def)
  moreover have "\<forall>c \<in> set ?caches. cache_Identity c \<noteq> 0 \<and> cache_Weight c \<noteq> 0" using lists by (auto simp: lists_ok_def disk_ok_def)
  ultimately obtain l where "NewList code ?caches earlier = Inr l" using NewList_succeeds [OF codes] by blast
  then show ?thesis using codes members disks unfolding m_def by (simp add: New_def codes_ok_def)
qed

lemma membership_ok_lists:
  assumes "membership_ok m"
  shows "codes_ok (m_code m) (m_earlier m)" "lists_ok (m_generation m) (m_members m) (m_disks m)"
proof -
  have "NewList (m_code m) (caches_of m) (m_earlier m) = Inr (m_list m)" using assms by (simp add: membership_ok_def)
  then show "codes_ok (m_code m) (m_earlier m)" by (auto simp: codes_ok_def NewList_def Let_def split: sum.splits if_splits)
  show "lists_ok (m_generation m) (m_members m) (m_disks m)"
    using assms by (auto simp: membership_ok_def lists_ok_def strict_sorted_iff disk_ok_listing [of m])
qed

text \<open>A membership in order is the one its own lists make.\<close>

lemma New_complete:
  assumes "membership_ok m"
  shows "New (m_generation m) (m_code m) (m_members m) (m_disks m) (m_earlier m) = Inr (m\<lparr> m_nonce := [] \<rparr>)"
proof -
  obtain m' where m': "New (m_generation m) (m_code m) (m_members m) (m_disks m) (m_earlier m) = Inr m'"
    using New_succeeds [OF membership_ok_lists [OF assms]] by blast
  note made = New_ok [OF m']
  have sorted: "sort_key member_ID (m_members m) = m_members m" "sort_key disk_ID (m_disks m) = m_disks m"
    using assms by (simp_all add: membership_ok_def sort_key_id_if_sorted strict_sorted_imp_sorted)
  have same: "m_members m' = m_members m" "m_disks m' = m_disks m" using made(5,6) sorted by simp_all
  then have "served m' = served m" by (simp add: fun_eq_iff served_def Membership_Member_def)
  then have "caches_of m' = caches_of m" using same by (simp add: caches_of_def)
  then have "m_list m' = m_list m" using made(1,3,4) assms by (simp add: membership_ok_def)
  then have "m' = m\<lparr> m_nonce := [] \<rparr>" using made(2,3,4,7) same by (cases m; cases m') simp
  then show ?thesis using m' by simp
qed

section \<open>What a step does to one disk\<close>

lemma first_error_Inr: "first_error f xs = Inr () \<longleftrightarrow> (\<forall>x \<in> set xs. f x = Inr ())"
  by (induction xs) (auto split: sum.splits)

lemma Step_Inr:
  "Step m after = Inr () \<longleftrightarrow> m_generation after = m_generation m + 1
     \<and> (\<forall>disk \<in> set (m_disks after). stepDisk after (Membership_Disk m (disk_ID disk)) disk = Inr ())
     \<and> (\<forall>disk \<in> set (m_disks m). step_removal after disk = Inr ())
     \<and> (\<forall>member \<in> set (m_members m). step_leave after member = Inr ())"
  by (auto simp: Step_def first_error_Inr [symmetric] split: sum.splits)

lemma Step_disk:
  assumes "Step m after = Inr ()" "membership_ok after" "Membership_Disk after which = Some disk"
  shows "stepDisk after (Membership_Disk m which) disk = Inr ()"
  using assms membership_okD(1) [OF assms(2)] by (auto simp: Step_Inr)

lemma stepDisk_journal: "stepDisk after listed disk = Inr () \<Longrightarrow> stepJournal listed disk = Inr ()"
  by (auto simp: stepDisk_def split: sum.splits)

text \<open>A disk assigned after a step was assigned before it, to the same member under the same
  generation and no later in its states; or was assigned to nobody, and the step assigned it.\<close>

lemma step_assigned:
  assumes step: "Step m after = Inr ()" and ok: "membership_ok m" "membership_ok after"
    and disk: "Membership_Disk after which = Some y" "assigned y"
  shows "(\<exists>x. Membership_Disk m which = Some x \<and> assigned x \<and> disk_Member x = disk_Member y
      \<and> disk_Assigned x = disk_Assigned y \<and> disk_State x \<le> disk_State y)
    \<or> (\<forall>x. Membership_Disk m which = Some x \<longrightarrow> disk_State x = Released) \<and> disk_State y = Attaching
      \<and> disk_Assigned y = m_generation after"
proof -
  have d: "stepDisk after (Membership_Disk m which) y = Inr ()" using step ok(2) disk(1) by (rule Step_disk)
  have "disk_Member y \<noteq> 0" using membership_okD(5) [OF ok(2) disk(1)] disk(2) ok(2)
    by (auto simp: disk_ok_def assigned_def membership_ok_def member_ok_def)
  moreover have "disk_ok m x" if "Membership_Disk m which = Some x" for x using membership_okD(5) [OF ok(1) that] .
  ultimately show ?thesis
    using d stepDisk_journal [OF d] disk(2)
    by (cases "Membership_Disk m which")
      (auto simp: stepDisk_def stepJournal_def assigning_def assigned_def disk_ok_def not_less split: if_splits sum.splits)
qed

lemma step_journal:
  assumes step: "Step m after = Inr ()" and ok: "membership_ok m" "membership_ok after"
    and disk: "Membership_Disk m which = Some x" "disk_Kind x = JournalDisk" "disk_State x \<noteq> Deleting"
  shows "\<exists>y. Membership_Disk after which = Some y \<and> disk_Kind y = JournalDisk
    \<and> (disk_State y = Deleting \<longrightarrow> disk_State x = Released \<and> disk_Empty x)
    \<and> (disk_State x = Released \<longrightarrow> disk_State y = Attaching \<longrightarrow> \<not> disk_Empty y)"
proof (cases "Membership_Disk after which")
  case None
  have "x \<in> set (m_disks m)" "disk_ID x = which" using membership_okD(1) [OF ok(1)] disk(1) by blast+
  then have "step_removal after x = Inr ()" using step by (simp add: Step_Inr)
  then show ?thesis using None disk(2,3) \<open>disk_ID x = which\<close> by (simp add: step_removal_def Let_def split: if_splits)
next
  case (Some y)
  then have "stepJournal (Some x) y = Inr ()" using stepDisk_journal [OF Step_disk [OF step ok(2) Some]] disk(1) by simp
  then show ?thesis using Some disk(2,3) by (auto simp: stepJournal_def split: if_splits)
qed

section \<open>Histories\<close>

text \<open>The memberships of a deployment in the order they were written, from the empty one on: each
  well formed, and each one \<open>Step\<close> admits after the one before it.\<close>

inductive history :: "Membership list \<Rightarrow> bool" where
  history_start: "history [Membership_Empty]"
| history_step: "history ms \<Longrightarrow> Step (last ms) m = Inr () \<Longrightarrow> membership_ok m \<Longrightarrow> history (ms @ [m])"

inductive_cases history_snocE: "history (ms @ [m])"

lemma history_nth:
  assumes "history ms"
  shows "ms \<noteq> []" "i < length ms \<Longrightarrow> membership_ok (ms ! i)" "i < length ms \<Longrightarrow> m_generation (ms ! i) = of_nat i"
    "Suc i < length ms \<Longrightarrow> Step (ms ! i) (ms ! Suc i) = Inr ()"
proof -
  have "ms \<noteq> [] \<and> (\<forall>i < length ms. membership_ok (ms ! i) \<and> m_generation (ms ! i) = of_nat i
      \<and> (Suc i < length ms \<longrightarrow> Step (ms ! i) (ms ! Suc i) = Inr ()))"
    using assms
  proof (induction rule: history.induct)
    case (history_step ms m)
    then obtain n where n: "length ms = Suc n" by (cases ms) auto
    then have last: "last ms = ms ! n" by (metis diff_Suc_1 last_conv_nth length_0_conv nat.simps(3))
    have "m_generation m = of_nat n + 1" using history_step n last by (simp add: Step_Inr)
    then have "m_generation m = of_nat (length ms)" by (simp add: n add.commute)
    then show ?case using history_step n last by (auto simp: nth_append less_Suc_eq)
  qed (use Empty_ok in simp)
  then show "ms \<noteq> []" "i < length ms \<Longrightarrow> membership_ok (ms ! i)" "i < length ms \<Longrightarrow> m_generation (ms ! i) = of_nat i"
    "Suc i < length ms \<Longrightarrow> Step (ms ! i) (ms ! Suc i) = Inr ()" by auto
qed

lemma history_generation_less:
  assumes "history ms" "length ms \<le> 2 ^ 64" "i < j" "j < length ms"
  shows "m_generation (ms ! i) < m_generation (ms ! j)"
  using history_nth(3) [OF assms(1)] assms(2-4) by (simp add: word_less_nat_alt unat_of_nat take_bit_nat_eq_self)

end
