(* ===== verification/Membership_Theorems.thy ===== *)
theory Membership_Theorems
  imports Membership_Step
begin

text \<open>
  What the membership promises over its history: a disk has one holder an assignment, is released
  before it is assigned again, and a journal disk is deleted only once it was released and found
  empty.
\<close>

section \<open>One holder\<close>

text \<open>What is so of a disk's assignment at one generation and at a later one.\<close>

definition assignment_follows :: "Membership list \<Rightarrow> identity \<Rightarrow> nat \<Rightarrow> nat \<Rightarrow> Disk \<Rightarrow> Disk \<Rightarrow> bool" where
  "assignment_follows ms which i j x y \<longleftrightarrow>
     disk_Assigned x = disk_Assigned y \<and> disk_Member x = disk_Member y \<and> disk_State x \<le> disk_State y
     \<or> disk_Assigned x < disk_Assigned y
       \<and> (\<exists>k. i < k \<and> k < j \<and> (\<forall>z. Membership_Disk (ms ! k) which = Some z \<longrightarrow> disk_State z = Released))"

text \<open>
  C6. One holder an assignment: of a disk assigned at one generation of the history and at a later
  one, either it is the same assignment, to the same member, no earlier in its states; or the later
  assignment has a greater generation, and between the two the disk was assigned to nobody.
\<close>

theorem a_disk_has_one_holder:
  assumes "history ms" "length ms \<le> 2 ^ 64" "i \<le> j" "j < length ms"
    and "Membership_Disk (ms ! i) which = Some x" "assigned x" "Membership_Disk (ms ! j) which = Some y" "assigned y"
  shows "assignment_follows ms which i j x y"
  using assms(3,4,7,8)
proof (induction j arbitrary: y rule: dec_induct)
  case base
  then show ?case using assms(5) by (simp add: assignment_follows_def)
next
  case (step j)
  have ok: "membership_ok (ms ! j)" "membership_ok (ms ! Suc j)" "membership_ok (ms ! i)" "Step (ms ! j) (ms ! Suc j) = Inr ()"
    using history_nth [OF assms(1)] step(1,2,4) by simp_all
  from step_assigned [OF ok(4,1,2) step(5,6)] show ?case
  proof (elim disjE exE conjE)
    fix z assume z: "Membership_Disk (ms ! j) which = Some z" "assigned z" "disk_Member z = disk_Member y"
      "disk_Assigned z = disk_Assigned y" "disk_State z \<le> disk_State y"
    have "assignment_follows ms which i j x z" using step(3) [OF _ z(1,2)] step(4) by simp
    then show ?thesis using z by (auto simp: assignment_follows_def intro: less_SucI order_trans)
  next
    assume free: "\<forall>x. Membership_Disk (ms ! j) which = Some x \<longrightarrow> disk_State x = Released"
      and new: "disk_Assigned y = m_generation (ms ! Suc j)"
    have "i \<noteq> j" using free assms(5,6) by (auto simp: assigned_def)
    moreover have "disk_Assigned x \<le> m_generation (ms ! i)"
      using membership_okD(5) [OF ok(3) assms(5)] assms(6) by (auto simp: disk_ok_def assigned_def)
    then have "disk_Assigned x < disk_Assigned y"
      unfolding new using history_generation_less [OF assms(1,2), of i "Suc j"] step(1,4) by simp
    ultimately show ?thesis using free step(1) by (auto simp: assignment_follows_def intro!: exI [of _ j])
  qed
qed

section \<open>Journal disks\<close>

text \<open>The step to the generation after \<open>l\<close> assigns the disk, which is then \<open>v\<close>.\<close>

definition assigns :: "Membership list \<Rightarrow> identity \<Rightarrow> nat \<Rightarrow> Disk \<Rightarrow> bool" where
  "assigns ms which l v \<longleftrightarrow> Membership_Disk (ms ! Suc l) which = Some v \<and> disk_State v = Attaching
     \<and> (\<forall>u. Membership_Disk (ms ! l) which = Some u \<longrightarrow> disk_State u = Released)"

text \<open>Between the two the disk was assigned to nobody and marked empty, and no earlier step assigned
  it marked, but for one that listed it first.\<close>

definition found_empty :: "Membership list \<Rightarrow> identity \<Rightarrow> nat \<Rightarrow> nat \<Rightarrow> bool" where
  "found_empty ms which i j \<longleftrightarrow>
     (\<exists>k z. i \<le> k \<and> k < j \<and> Membership_Disk (ms ! k) which = Some z \<and> disk_State z = Released \<and> disk_Empty z
        \<and> (\<forall>l v. l < k \<longrightarrow> assigns ms which l v \<longrightarrow> \<not> disk_Empty v \<or> Membership_Disk (ms ! l) which = None))"

lemma found_empty_Suc: "found_empty ms which i j \<Longrightarrow> found_empty ms which i (Suc j)"
  unfolding found_empty_def by (meson less_SucI)

lemma assigned_unmarked:
  assumes "history ms" "Suc l < length ms" "assigns ms which l v"
  shows "\<not> disk_Empty v \<or> Membership_Disk (ms ! l) which = None"
proof (cases "Membership_Disk (ms ! l) which")
  case (Some u)
  have "stepDisk (ms ! Suc l) (Some u) v = Inr ()"
    using Step_disk [OF history_nth(4) [OF assms(1,2)] history_nth(2) [OF assms(1,2)]] assms(3) Some by (metis assigns_def)
  from stepDisk_journal [OF this] show ?thesis using assms(3) Some by (auto simp: assigns_def stepJournal_def split: if_splits)
qed simp

text \<open>
  C7. A journal disk is deleted only once it was released and marked empty: of one that is listed at
  some generation and at a later one is being deleted or is gone, there is a generation in between at
  which it was assigned to nobody and marked empty. Every step before that assigned the disk from
  released left it unmarked, so the mark was made after the last such assignment. A step that assigns
  a disk as it lists it first may list it marked: the rule of what may follow what does not look at
  the mark there.
\<close>

theorem deleted_journals_were_empty:
  assumes "history ms" "i \<le> j" "j < length ms"
    and "Membership_Disk (ms ! i) which = Some x" "disk_Kind x = JournalDisk" "disk_State x \<noteq> Deleting"
    and "\<forall>y. Membership_Disk (ms ! j) which = Some y \<longrightarrow> disk_State y = Deleting"
  shows "found_empty ms which i j"
proof -
  have "found_empty ms which i j \<or> (\<exists>y. Membership_Disk (ms ! j) which = Some y
      \<and> disk_Kind y = JournalDisk \<and> disk_State y \<noteq> Deleting)"
    using assms(2,3)
  proof (induction j rule: dec_induct)
    case base
    then show ?case using assms(4-6) by simp
  next
    case (step j)
    have ok: "membership_ok (ms ! j)" "membership_ok (ms ! Suc j)" "Step (ms ! j) (ms ! Suc j) = Inr ()"
      using history_nth [OF assms(1)] step(1,2,4) by simp_all
    from step(3,4) consider "found_empty ms which i j" | y where
        "Membership_Disk (ms ! j) which = Some y" "disk_Kind y = JournalDisk" "disk_State y \<noteq> Deleting" by auto
    then show ?case
    proof cases
      case 2
      from step_journal [OF ok(3,1,2) 2]
      obtain v where v: "Membership_Disk (ms ! Suc j) which = Some v" "disk_Kind v = JournalDisk"
        "disk_State v = Deleting \<longrightarrow> disk_State y = Released \<and> disk_Empty y" by blast
      have "\<not> disk_Empty u \<or> Membership_Disk (ms ! l) which = None" if "l < j" "assigns ms which l u" for l u
        using assigned_unmarked [OF assms(1) _ that(2)] that(1) step(4) by simp
      then have "found_empty ms which i (Suc j)" if "disk_State v = Deleting"
        unfolding found_empty_def using that v(3) 2(1) step(1) by (intro exI [of _ j] exI [of _ y]) simp
      then show ?thesis using v by blast
    qed (simp add: found_empty_Suc)
  qed
  then show ?thesis using assms(7) by blast
qed

end
