(* ===== verification/Membership_Control.thy ===== *)
theory Membership_Control
  imports Membership "HOL-Library.List_Lexorder" "HOL-Library.Char_ord"
begin

text \<open>
  The controller of the membership: the one step \<open>Next\<close> takes towards what is wanted
  (\<^verbatim>\<open>membership/controller.go\<close>), its steps for the journal disks (\<^verbatim>\<open>membership/journals.go\<close>),
  and the attaches and detaches that carry a membership out (\<^verbatim>\<open>membership/attach.go\<close>).

  A \<^verbatim>\<open>Change\<close> of the source is a closure over one method of \<^verbatim>\<open>Membership\<close>. Here it is that method's
  name with what the closure holds, and \<open>run_change\<close> calls it. A loop that returns at the first
  entry it accepts is \<open>List.find\<close>, and the steps of \<open>Next\<close> are tried in the source's order.
\<close>

section \<open>What is wanted\<close>

record Host =
  host_ID :: identity
  host_Address :: string
  host_Disks :: "Disk list"
  host_Held :: u64
  host_Machine :: string
  host_Leaving :: bool

record Shard =
  shard_Disk :: Disk
  shard_Machines :: "string list"
  shard_Known :: bool

record Want =
  want_Code :: Code
  want_Earlier :: "Code list"
  want_Hosts :: "Host list"
  want_Shards :: "Shard list"
  want_Journals :: "Shard list"
  want_JournalsKnown :: bool
  want_Pool :: "string list"
  want_Expired :: "identity list"
  want_JournalsAfter :: u64

abbreviation shard_ID :: "Shard \<Rightarrow> identity" where "shard_ID s \<equiv> disk_ID (shard_Disk s)"

definition ShardIdentity :: "string \<Rightarrow> identity" where
  "ShardIdentity volume = identity_of (take 16 (sha256 (string_bytes ''sproutfs shard'' @ [0] @ string_bytes volume)))"

definition JournalIdentity :: "string \<Rightarrow> identity" where
  "JournalIdentity volume = identity_of (take 16 (sha256 (string_bytes ''sproutfs journal'' @ [0] @ string_bytes volume)))"

datatype Change =
    ChangeRecode Code "Code list"
  | ChangeDrain identity
  | ChangeLet identity identity
  | ChangeRemove identity
  | ChangeAdd Disk
  | ChangeLeave identity
  | ChangeJoin Member "Disk list"
  | ChangeMove identity string
  | ChangeServe identity identity
  | ChangeWeigh identity u32
  | ChangeDelete identity
  | ChangeMarkEmpty identity bool
  | ChangeRelease identity
  | ChangeReserve identity string
  | ChangeAssign identity identity

primrec run_change :: "Change \<Rightarrow> Membership \<Rightarrow> error + Membership" where
  "run_change (ChangeRecode code earlier) m = Recode m code earlier"
| "run_change (ChangeDrain member) m = Membership_Drain m member"
| "run_change (ChangeLet disk member) m = Membership_Let m disk member"
| "run_change (ChangeRemove disk) m = Membership_Remove m disk"
| "run_change (ChangeAdd disk) m = Membership_Add m disk"
| "run_change (ChangeLeave member) m = Membership_Leave m member"
| "run_change (ChangeJoin member disks) m = Membership_Join m member disks"
| "run_change (ChangeMove member address) m = Membership_Move m member address"
| "run_change (ChangeServe disk member) m = Membership_Serve m disk member"
| "run_change (ChangeWeigh disk weight) m = Membership_Weigh m disk weight"
| "run_change (ChangeDelete disk) m = Membership_Delete m disk"
| "run_change (ChangeMarkEmpty disk is_empty) m = Membership_MarkEmpty m disk is_empty"
| "run_change (ChangeRelease disk) m = Membership_Release m disk"
| "run_change (ChangeReserve disk machine) m = Membership_Reserve m disk machine"
| "run_change (ChangeAssign disk member) m = Membership_Assign m disk member"

definition or_else :: "'a option \<Rightarrow> 'a option \<Rightarrow> 'a option" where
  "or_else a b = (case a of Some x \<Rightarrow> Some x | None \<Rightarrow> b)"

section \<open>The maps the steps read\<close>

definition sortedHosts :: "Host list \<Rightarrow> Host list" where
  "sortedHosts hosts = sort_key host_ID hosts"

definition hosts_of :: "Host list \<Rightarrow> identity \<Rightarrow> Host option" where
  "hosts_of hosts = foldl (\<lambda>f host. f(host_ID host \<mapsto> host)) (\<lambda>_. None) hosts"

definition report :: "identity \<Rightarrow> (identity \<Rightarrow> identity option) \<Rightarrow> Disk \<Rightarrow> identity \<Rightarrow> identity option" where
  "report host f disk = (if f (disk_ID disk) = None then f(disk_ID disk \<mapsto> host) else f)"

definition reported_by :: "Host list \<Rightarrow> identity \<Rightarrow> identity option" where
  "reported_by hosts = foldl (\<lambda>f host. foldl (report (host_ID host)) f (host_Disks host)) (\<lambda>_. None) hosts"

definition shards_map :: "Shard list \<Rightarrow> identity \<Rightarrow> Shard option" where
  "shards_map shards = foldl (\<lambda>f shard. f(shard_ID shard \<mapsto> shard)) (\<lambda>_. None) shards"

text \<open>An identity a map of the source has no entry for reads as the zero identity.\<close>

definition or_zero :: "identity option \<Rightarrow> identity" where
  "or_zero i = (case i of None \<Rightarrow> 0 | Some x \<Rightarrow> x)"

definition no_host :: Host where
  "no_host = \<lparr> host_ID = 0, host_Address = [], host_Disks = [], host_Held = 0, host_Machine = [], host_Leaving = False \<rparr>"

definition or_no_host :: "Host option \<Rightarrow> Host" where
  "or_no_host h = (case h of None \<Rightarrow> no_host | Some host \<Rightarrow> host)"

definition readRelease :: "Host \<Rightarrow> Disk \<Rightarrow> bool" where
  "readRelease h disk \<longleftrightarrow> \<not> host_Held h < disk_Assigned disk
     \<and> list_ex (\<lambda>held. disk_ID held = disk_ID disk \<and> disk_State held = Releasing) (host_Disks h)"

section \<open>The steps of \<open>Next\<close>\<close>

definition next_recode :: "Membership \<Rightarrow> Want \<Rightarrow> Change option" where
  "next_recode m want =
     (if (want_Code want \<noteq> m_code m \<or> want_Earlier want \<noteq> m_earlier m) \<and> Validate (want_Code want) = Inr ()
      then Some (ChangeRecode (want_Code want) (want_Earlier want)) else None)"

definition next_drain :: "Membership \<Rightarrow> (identity \<Rightarrow> Host option) \<Rightarrow> Change option" where
  "next_drain m hosts =
     map_option (\<lambda>member. ChangeDrain (member_ID member))
       (List.find (\<lambda>member. (case hosts (member_ID member) of None \<Rightarrow> True | Some host \<Rightarrow> host_Leaving host)
          \<and> member_State member \<noteq> Draining) (m_members m))"

definition let_go :: "(identity \<Rightarrow> Host option) \<Rightarrow> (identity \<Rightarrow> Shard option) \<Rightarrow> Disk \<Rightarrow> bool" where
  "let_go hosts shards disk \<longleftrightarrow>
     (case shards (disk_ID disk) of
        None \<Rightarrow> (case hosts (disk_Member disk) of None \<Rightarrow> True | Some host \<Rightarrow> readRelease host disk)
      | Some shard \<Rightarrow>
          (case hosts (disk_Member disk) of
             None \<Rightarrow> True
           | Some host \<Rightarrow> \<not> list_ex (\<lambda>held. disk_ID held = disk_ID disk) (host_Disks host))
          \<and> shard_Known shard \<and> shard_Machines shard = [])"

definition next_let :: "Membership \<Rightarrow> (identity \<Rightarrow> Host option) \<Rightarrow> (identity \<Rightarrow> Shard option) \<Rightarrow> Change option" where
  "next_let m hosts shards =
     map_option (\<lambda>disk. ChangeLet (disk_ID disk) (disk_Member disk))
       (List.find (\<lambda>disk. disk_State disk = Releasing \<and> let_go hosts shards disk) (m_disks m))"

definition next_remove ::
    "Membership \<Rightarrow> (identity \<Rightarrow> identity option) \<Rightarrow> (identity \<Rightarrow> Shard option) \<Rightarrow> Change option" where
  "next_remove m reported shards =
     map_option (\<lambda>disk. ChangeRemove (disk_ID disk))
       (List.find (\<lambda>disk. reported (disk_ID disk) = None \<and> shards (disk_ID disk) = None \<and> disk_State disk = Released
          \<and> disk_Kind disk = CacheDisk) (m_disks m))"

definition next_add :: "Membership \<Rightarrow> Want \<Rightarrow> Change option" where
  "next_add m want =
     map_option (\<lambda>shard. ChangeAdd (shard_Disk shard))
       (List.find (\<lambda>shard. Membership_Disk m (shard_ID shard) = None) (want_Shards want))"

definition next_leave :: "Membership \<Rightarrow> Change option" where
  "next_leave m =
     map_option (\<lambda>member. ChangeLeave (member_ID member))
       (List.find (\<lambda>member. member_State member = Draining
          \<and> \<not> list_ex (\<lambda>disk. disk_Member disk = member_ID member) (m_disks m)) (m_members m))"

text \<open>The disks a host joins with.\<close>

definition joining_disks ::
    "Membership \<Rightarrow> (identity \<Rightarrow> identity option) \<Rightarrow> (identity \<Rightarrow> Shard option) \<Rightarrow> Host \<Rightarrow> Disk list" where
  "joining_disks m reported shards host =
     filter (\<lambda>disk. shards (disk_ID disk) = None \<and> disk_Kind disk = CacheDisk
         \<and> or_zero (reported (disk_ID disk)) = host_ID host
         \<and> (case Membership_Disk m (disk_ID disk) of None \<Rightarrow> True | Some found \<Rightarrow> disk_State found = Released))
       (host_Disks host)"

definition next_join ::
    "Membership \<Rightarrow> Want \<Rightarrow> (identity \<Rightarrow> identity option) \<Rightarrow> (identity \<Rightarrow> Shard option) \<Rightarrow> Change option" where
  "next_join m want reported shards =
     map_option (\<lambda>host. ChangeJoin \<lparr> member_ID = host_ID host, member_Address = host_Address host, member_State = NoMemberState \<rparr>
         (joining_disks m reported shards host))
       (List.find (\<lambda>host. Membership_Member m (host_ID host) = None \<and> \<not> host_Leaving host) (sortedHosts (want_Hosts want)))"

definition next_move :: "Membership \<Rightarrow> (identity \<Rightarrow> Host option) \<Rightarrow> Change option" where
  "next_move m hosts =
     map_option (\<lambda>member. ChangeMove (member_ID member) (host_Address (or_no_host (hosts (member_ID member)))))
       (List.find (\<lambda>member. (case hosts (member_ID member) of None \<Rightarrow> False | Some host \<Rightarrow> host_Address host \<noteq> member_Address member)
          \<and> member_State member \<noteq> Draining) (m_members m))"

definition next_serve :: "Membership \<Rightarrow> (identity \<Rightarrow> identity option) \<Rightarrow> Change option" where
  "next_serve m reported =
     map_option (\<lambda>disk. ChangeServe (disk_ID disk) (disk_Member disk))
       (List.find (\<lambda>disk. disk_State disk = Attaching \<and> or_zero (reported (disk_ID disk)) = disk_Member disk) (m_disks m))"

definition next_weigh ::
    "Membership \<Rightarrow> Want \<Rightarrow> (identity \<Rightarrow> identity option) \<Rightarrow> (identity \<Rightarrow> Shard option) \<Rightarrow> Change option" where
  "next_weigh m want reported shards =
     map_option (\<lambda>(host, disk). ChangeWeigh (disk_ID disk) (disk_Weight disk))
       (List.find (\<lambda>(host, disk). shards (disk_ID disk) = None \<and> disk_Kind disk = CacheDisk
          \<and> (case Membership_Disk m (disk_ID disk) of None \<Rightarrow> False | Some found \<Rightarrow> disk_Weight found \<noteq> disk_Weight disk)
          \<and> or_zero (reported (disk_ID disk)) = host_ID host)
          (concat (map (\<lambda>host. map (\<lambda>disk. (host, disk)) (host_Disks host)) (sortedHosts (want_Hosts want)))))"

definition next_weigh_shard :: "Membership \<Rightarrow> Want \<Rightarrow> Change option" where
  "next_weigh_shard m want =
     map_option (\<lambda>shard. ChangeWeigh (shard_ID shard) (disk_Weight (shard_Disk shard)))
       (List.find (\<lambda>shard. case Membership_Disk m (shard_ID shard) of
          None \<Rightarrow> False | Some found \<Rightarrow> disk_Weight found \<noteq> disk_Weight (shard_Disk shard)) (want_Shards want))"

section \<open>Journal disks\<close>

definition journalDisks :: "Membership \<Rightarrow> Disk list" where
  "journalDisks m = filter (\<lambda>disk. disk_Kind disk = JournalDisk) (m_disks m)"

definition Disk_free :: "Disk \<Rightarrow> bool" where
  "Disk_free d \<longleftrightarrow> disk_State d = Released \<and> disk_Machine d = []"

definition holdsOwn :: "Disk list \<Rightarrow> identity \<Rightarrow> string \<Rightarrow> bool" where
  "holdsOwn journals member machine \<longleftrightarrow>
     list_ex (\<lambda>disk. disk_Member disk = member \<and> disk_Machine disk = machine \<and> disk_State disk \<noteq> Released) journals"

definition JournalHolder :: "Membership \<Rightarrow> identity \<Rightarrow> Member option \<times> bool" where
  "JournalHolder m disk =
     (case Membership_Disk m disk of
        None \<Rightarrow> (None, False)
      | Some found \<Rightarrow>
          if disk_Kind found = JournalDisk \<and> disk_Empty found \<and> (disk_State found = Released \<or> disk_State found = Deleting)
          then (None, False)
          else if disk_Kind found \<noteq> JournalDisk \<or> disk_State found \<noteq> Serving then (None, True)
          else (Membership_Member m (disk_Member found), True))"

definition journal_add :: "Membership \<Rightarrow> Want \<Rightarrow> Change option" where
  "journal_add m want =
     map_option (\<lambda>journal. ChangeAdd ((shard_Disk journal)\<lparr> disk_Kind := JournalDisk, disk_Empty := True, disk_Machine := [] \<rparr>))
       (List.find (\<lambda>journal. Membership_Disk m (shard_ID journal) = None \<and> m_generation m \<le> want_JournalsAfter want) (want_Journals want))"

definition journal_remove :: "Membership \<Rightarrow> Want \<Rightarrow> Change option" where
  "journal_remove m want =
     map_option (\<lambda>disk. ChangeRemove (disk_ID disk))
       (List.find (\<lambda>disk. disk_State disk = Deleting \<and> want_JournalsKnown want
          \<and> disk_ID disk \<notin> shard_ID ` set (want_Journals want)) (journalDisks m))"

definition journal_delete :: "Membership \<Rightarrow> Want \<Rightarrow> Change option" where
  "journal_delete m want =
     map_option (\<lambda>disk. ChangeDelete (disk_ID disk))
       (List.find (\<lambda>disk. Disk_free disk \<and> disk_Empty disk \<and> disk_ID disk \<in> set (want_Expired want)) (journalDisks m))"

text \<open>What a disk's holder reports of it under the assignment it has now: whether it is empty.\<close>

definition reported_empty :: "(identity \<Rightarrow> Host option) \<Rightarrow> Disk \<Rightarrow> bool option" where
  "reported_empty hosts disk =
     map_option disk_Empty (List.find (\<lambda>held. disk_ID held = disk_ID disk \<and> disk_Assigned held = disk_Assigned disk)
       (host_Disks (or_no_host (hosts (disk_Member disk)))))"

definition mark_of :: "(identity \<Rightarrow> Host option) \<Rightarrow> Disk \<Rightarrow> bool option" where
  "mark_of hosts disk =
     (case reported_empty hosts disk of
        None \<Rightarrow> None
      | Some reported \<Rightarrow>
          if disk_State disk \<noteq> Serving \<and> disk_State disk \<noteq> Releasing then None
          else
            let reading = (disk_State disk = Serving \<and> disk_Machine disk \<noteq> host_Machine (or_no_host (hosts (disk_Member disk))))
            in if (reading \<or> disk_State disk = Releasing) \<and> reported \<and> \<not> disk_Empty disk \<or> \<not> reported \<and> disk_Empty disk
               then Some reported else None)"

definition journal_mark :: "Membership \<Rightarrow> (identity \<Rightarrow> Host option) \<Rightarrow> Change option" where
  "journal_mark m hosts =
     map_option (\<lambda>disk. ChangeMarkEmpty (disk_ID disk) (the (mark_of hosts disk)))
       (List.find (\<lambda>disk. mark_of hosts disk \<noteq> None) (journalDisks m))"

definition journal_release :: "Membership \<Rightarrow> (identity \<Rightarrow> Host option) \<Rightarrow> Change option" where
  "journal_release m hosts =
     map_option (\<lambda>disk. ChangeRelease (disk_ID disk))
       (List.find (\<lambda>disk. disk_State disk = Serving \<and> disk_Empty disk
          \<and> (case hosts (disk_Member disk) of None \<Rightarrow> False | Some host \<Rightarrow> disk_Machine disk \<noteq> host_Machine host)) (journalDisks m))"

definition journal_unreserve :: "Membership \<Rightarrow> Want \<Rightarrow> Change option" where
  "journal_unreserve m want =
     map_option (\<lambda>disk. ChangeReserve (disk_ID disk) [])
       (List.find (\<lambda>disk. disk_State disk = Released \<and> disk_Machine disk \<noteq> [] \<and> disk_Machine disk \<notin> set (want_Pool want)) (journalDisks m))"

definition journal_reserve :: "Membership \<Rightarrow> Want \<Rightarrow> Change option" where
  "journal_reserve m want =
     map_option (\<lambda>(machine, disk). ChangeReserve (disk_ID disk) machine)
       (List.find (\<lambda>(machine, disk). \<not> list_ex (\<lambda>other. disk_Machine other = machine) (journalDisks m) \<and> Disk_free disk \<and> disk_Empty disk)
          (concat (map (\<lambda>machine. map (\<lambda>disk. (machine, disk)) (journalDisks m)) (sort (want_Pool want)))))"

text \<open>The members a disk may be assigned to, and the first of those that have the least or the most
  of something.\<close>

definition takers :: "Membership \<Rightarrow> (identity \<Rightarrow> Host option) \<Rightarrow> Member list" where
  "takers m hosts =
     filter (\<lambda>member. member_State member \<noteq> Draining
       \<and> (case hosts (member_ID member) of None \<Rightarrow> False | Some host \<Rightarrow> \<not> host_Leaving host \<and> host_Machine host \<noteq> [])) (m_members m)"

definition least_of :: "(identity \<Rightarrow> nat) \<Rightarrow> identity list \<Rightarrow> identity" where
  "least_of load members = foldl (\<lambda>chosen member. if load member < load chosen then member else chosen) (hd members) (tl members)"

definition most_of :: "(identity \<Rightarrow> nat) \<Rightarrow> identity list \<Rightarrow> identity" where
  "most_of load members = foldl (\<lambda>chosen member. if load member > load chosen then member else chosen) (hd members) (tl members)"

definition journal_own :: "Membership \<Rightarrow> (identity \<Rightarrow> Host option) \<Rightarrow> Change option" where
  "journal_own m hosts =
     map_option (\<lambda>(member, disk). ChangeAssign (disk_ID disk) (member_ID member))
       (List.find (\<lambda>(member, disk). let machine = host_Machine (or_no_host (hosts (member_ID member)))
            in disk_State disk = Released \<and> disk_Machine disk = machine \<and> \<not> holdsOwn (journalDisks m) (member_ID member) machine)
          (concat (map (\<lambda>member. map (\<lambda>disk. (member, disk)) (journalDisks m)) (takers m hosts))))"

definition readers :: "Membership \<Rightarrow> identity \<Rightarrow> nat" where
  "readers m member = length (filter (\<lambda>disk. disk_Member disk = member) (journalDisks m))"

definition journal_reader :: "Membership \<Rightarrow> (identity \<Rightarrow> Host option) \<Rightarrow> Change option" where
  "journal_reader m hosts =
     (if takers m hosts = [] then None
      else map_option (\<lambda>disk. ChangeAssign (disk_ID disk) (least_of (readers m) (map member_ID (takers m hosts))))
        (List.find (\<lambda>disk. disk_State disk = Released \<and> \<not> disk_Empty disk \<and> disk_Machine disk = []) (journalDisks m)))"

definition nextJournalStep :: "Membership \<Rightarrow> (identity \<Rightarrow> Host option) \<Rightarrow> Want \<Rightarrow> Change option" where
  "nextJournalStep m hosts want =
     or_else (journal_add m want) (or_else (journal_remove m want) (or_else (journal_delete m want)
       (or_else (journal_mark m hosts) (or_else (journal_release m hosts) (or_else (journal_unreserve m want)
         (or_else (journal_reserve m want) (or_else (journal_own m hosts) (journal_reader m hosts))))))))"

section \<open>Moving shards\<close>

definition shard_load :: "Membership \<Rightarrow> (identity \<Rightarrow> Shard option) \<Rightarrow> identity \<Rightarrow> nat" where
  "shard_load m shards member =
     length (filter (\<lambda>disk. shards (disk_ID disk) \<noteq> None \<and> disk_State disk \<noteq> Released \<and> disk_Member disk = member) (m_disks m))"

definition shards_moving :: "Membership \<Rightarrow> (identity \<Rightarrow> Shard option) \<Rightarrow> bool" where
  "shards_moving m shards \<longleftrightarrow>
     list_ex (\<lambda>disk. shards (disk_ID disk) \<noteq> None \<and> (disk_State disk = Attaching \<or> disk_State disk = Releasing)) (m_disks m)"

definition nextShardMove :: "Membership \<Rightarrow> (identity \<Rightarrow> Host option) \<Rightarrow> (identity \<Rightarrow> Shard option) \<Rightarrow> Change option" where
  "nextShardMove m hosts shards =
     (let members = map member_ID (takers m hosts); load = shard_load m shards; least = least_of load members; most = most_of load members
      in if members = [] then None
         else case List.find (\<lambda>disk. shards (disk_ID disk) \<noteq> None \<and> disk_State disk = Released) (m_disks m) of
           Some disk \<Rightarrow> Some (ChangeAssign (disk_ID disk) least)
         | None \<Rightarrow>
             if shards_moving m shards then None
             else if int (load most) - int (load least) < 2 then None
             else map_option (\<lambda>disk. ChangeRelease (disk_ID disk))
               (List.find (\<lambda>disk. shards (disk_ID disk) \<noteq> None \<and> disk_Member disk = most \<and> disk_State disk = Serving) (m_disks m)))"

definition Next :: "Membership \<Rightarrow> Want \<Rightarrow> Change option" where
  "Next m want =
     (let hosts = hosts_of (sortedHosts (want_Hosts want));
          reported = reported_by (sortedHosts (want_Hosts want));
          shards = shards_map (want_Shards want @ want_Journals want)
      in or_else (next_recode m want) (or_else (next_drain m hosts) (or_else (next_let m hosts shards)
        (or_else (next_remove m reported shards) (or_else (next_add m want) (or_else (next_leave m)
        (or_else (next_join m want reported shards) (or_else (next_move m hosts) (or_else (next_serve m reported)
        (or_else (next_weigh m want reported shards) (or_else (next_weigh_shard m want)
        (or_else (nextJournalStep m hosts want) (nextShardMove m hosts (shards_map (want_Shards want)))))))))))))))"

section \<open>What the cloud is asked for\<close>

definition NeedsJournal :: "Membership \<Rightarrow> Want \<Rightarrow> string list" where
  "NeedsJournal m want =
     (let free = length (filter (\<lambda>disk. (Disk_free disk \<or> disk_State disk = Released \<and> disk_Machine disk \<notin> set (want_Pool want))
              \<and> disk_Empty disk) (journalDisks m))
            + length (filter (\<lambda>journal. Membership_Disk m (shard_ID journal) = None) (want_Journals want));
          without = filter (\<lambda>machine. \<not> list_ex (\<lambda>disk. disk_Machine disk = machine) (journalDisks m)) (sort (want_Pool want))
      in drop free without)"

record Action =
  action_Volume :: string
  action_Machine :: string
  action_Attach :: bool

text \<open>Where a disk should be attached, and whether it is left as it is.\<close>

definition carryShard :: "Membership \<Rightarrow> (identity \<Rightarrow> Host option) \<Rightarrow> Shard \<Rightarrow> string \<times> bool" where
  "carryShard m hosts shard =
     (case Membership_Disk m (shard_ID shard) of
        None \<Rightarrow> ([], False)
      | Some disk \<Rightarrow>
          (case disk_State disk of
             Releasing \<Rightarrow> ([], case hosts (disk_Member disk) of None \<Rightarrow> False
               | Some host \<Rightarrow> list_ex (\<lambda>held. disk_ID held = shard_ID shard) (host_Disks host))
           | state \<Rightarrow>
               if state = Attaching \<or> state = Serving
               then (let target = (case hosts (disk_Member disk) of None \<Rightarrow> [] | Some host \<Rightarrow> host_Machine host) in (target, target = []))
               else ([], False)))"

definition carryJournal :: "Membership \<Rightarrow> Want \<Rightarrow> (identity \<Rightarrow> Host option) \<Rightarrow> Shard \<Rightarrow> string \<times> bool" where
  "carryJournal m want hosts journal =
     (case Membership_Disk m (shard_ID journal) of
        None \<Rightarrow> ([], False)
      | Some disk \<Rightarrow>
          if disk_State disk = Released \<and> disk_Machine disk \<noteq> [] \<and> disk_Machine disk \<in> set (want_Pool want)
          then (disk_Machine disk, False)
          else carryShard m hosts journal)"

text \<open>The detaches and the attaches one disk needs, given where it should be.\<close>

definition detaches_of :: "(Shard \<Rightarrow> string \<times> bool) \<Rightarrow> Shard \<Rightarrow> Action list" where
  "detaches_of carry shard =
     (if \<not> shard_Known shard \<or> snd (carry shard) then []
      else map (\<lambda>machine. \<lparr> action_Volume = disk_Volume (shard_Disk shard), action_Machine = machine, action_Attach = False \<rparr>)
        (filter (\<lambda>machine. machine \<noteq> fst (carry shard)) (shard_Machines shard)))"

definition attaches_of :: "(Shard \<Rightarrow> string \<times> bool) \<Rightarrow> Shard \<Rightarrow> Action list" where
  "attaches_of carry shard =
     (if \<not> shard_Known shard \<or> snd (carry shard) then []
      else if fst (carry shard) \<noteq> [] \<and> fst (carry shard) \<notin> set (shard_Machines shard)
      then [\<lparr> action_Volume = disk_Volume (shard_Disk shard), action_Machine = fst (carry shard), action_Attach = True \<rparr>]
      else [])"

definition Carry :: "Membership \<Rightarrow> Want \<Rightarrow> Action list" where
  "Carry m want =
     (let hosts = hosts_of (want_Hosts want);
          shards = sort_key shard_ID (want_Shards want); journals = sort_key shard_ID (want_Journals want)
      in concat (map (detaches_of (carryShard m hosts)) shards) @ concat (map (detaches_of (carryJournal m want hosts)) journals)
         @ concat (map (attaches_of (carryShard m hosts)) shards) @ concat (map (attaches_of (carryJournal m want hosts)) journals))"

section \<open>How long a journal disk has been free\<close>

record JournalControl =
  jc_Expiry :: int
  jc_freeSince :: "identity \<Rightarrow> int option"

abbreviation (input) DefaultJournalExpiry :: int where "DefaultJournalExpiry \<equiv> 3600000000000"

text \<open>\<open>Expired\<close> at the time \<open>now\<close>, in nanoseconds, with the times it keeps.\<close>

definition Expired :: "JournalControl \<Rightarrow> int \<Rightarrow> Membership \<Rightarrow> identity list \<times> JournalControl" where
  "Expired c now m =
     (let expiry = (if jc_Expiry c = 0 then DefaultJournalExpiry else jc_Expiry c);
          free = map disk_ID (filter (\<lambda>disk. Disk_free disk \<and> disk_Empty disk) (journalDisks m))
      in (filter (\<lambda>i. case jc_freeSince c i of None \<Rightarrow> False | Some since \<Rightarrow> now - since \<ge> expiry) free,
          c\<lparr> jc_freeSince := \<lambda>i. if i \<in> set free then Some (case jc_freeSince c i of None \<Rightarrow> now | Some since \<Rightarrow> since) else None \<rparr>))"

end
