(* ===== verification/Membership_Admit.thy ===== *)
theory Membership_Admit
  imports Membership_Step Membership_Control
begin

text \<open>
  Every change the controller picks is one that can be made: it builds a well-formed membership, and
  \<open>Step\<close> admits it. Each lemma below is one change under the condition the controller picks it in.
\<close>

section \<open>What a change comes to\<close>

definition admitted :: "Membership \<Rightarrow> error + Membership \<Rightarrow> bool" where
  "admitted m r \<longleftrightarrow> (\<exists>after. r = Inr after \<and> Step m after = Inr () \<and> membership_ok after)"

text \<open>A membership in order that has a generation left.\<close>

definition ready :: "Membership \<Rightarrow> bool" where
  "ready m \<longleftrightarrow> membership_ok m \<and> m_generation m + 1 \<noteq> 0"

lemma ready_ok: "ready m \<Longrightarrow> membership_ok m"
  by (simp add: ready_def)

lemma admitted_New:
  assumes "codes_ok code earlier" "lists_ok generation members disks"
    and "\<And>after. New generation code members disks earlier = Inr after \<Longrightarrow> Step m after = Inr ()"
  shows "admitted m (New generation code members disks earlier)"
proof -
  obtain after where "New generation code members disks earlier = Inr after" using New_succeeds [OF assms(1,2)] by blast
  then show ?thesis using assms(3) New_ok(1) by (auto simp: admitted_def)
qed

lemma next_generation: "m_generation m + 1 \<noteq> 0 \<Longrightarrow> m_generation m \<le> m_generation m + 1"
  using less_plus_one [of "m_generation m" "- 1"] by (cases "m_generation m = - 1") (simp_all add: order.strict_iff_order)

lemma kept_disk:
  assumes "ready m" "disk_ok m x" "member_ID ` set (m_members m) \<subseteq> member_ID ` set members"
  shows "disk_ok (listing (m_generation m + 1) members) x"
  using assms next_generation [of m] by (auto simp: disk_ok_def ready_def intro: order_trans)

lemma ready_entries:
  assumes "ready m"
  shows "\<forall>member \<in> set (m_members m). member_ok member" "\<forall>disk \<in> set (m_disks m). disk_ok m disk"
    "codes_ok (m_code m) (m_earlier m)"
  using assms membership_ok_lists by (simp_all add: ready_def membership_ok_def)

lemma ready_disk:
  assumes "ready m" "x \<in> set (m_disks m)"
  shows "disk_ok m x" "disk_ok (listing (m_generation m + 1) (m_members m)) x"
proof -
  show here: "disk_ok m x" using assms ready_entries(2) by blast
  show "disk_ok (listing (m_generation m + 1) (m_members m)) x" by (rule kept_disk [OF assms(1) here order_refl])
qed

text \<open>A disk that is held stays one a membership may list in any state in which it is held.\<close>

lemma disk_ok_held: "disk_ok m x \<Longrightarrow> assigned x \<Longrightarrow> state \<in> {Attaching, Serving, Releasing} \<Longrightarrow> disk_ok m (x\<lparr> disk_State := state \<rparr>)"
  by (auto simp: disk_ok_def assigned_def)

lemma lists_kept:
  assumes "ready m" "distinct (map member_ID members)" "\<forall>member \<in> set members. member_ok member"
    and "member_ID ` set (m_members m) \<subseteq> member_ID ` set members"
    and "distinct (map disk_ID disks)" "\<And>y. y \<in> set disks \<Longrightarrow> y \<in> set (m_disks m) \<or> disk_ok (listing (m_generation m + 1) members) y"
  shows "lists_ok (m_generation m + 1) members disks"
  using assms kept_disk [OF assms(1) _ assms(4)] ready_entries(2) [OF assms(1)] unfolding lists_ok_def by blast

section \<open>Steps from what changed\<close>

lemma stepDisk_same: "disk_ok m disk \<Longrightarrow> stepDisk after (Some disk) disk = Inr ()"
  by (auto simp: stepDisk_def stepJournal_def assigning_def disk_ok_def assigned_def)

lemma Step_intro:
  assumes ok: "membership_ok m" and made: "New (m_generation m + 1) code members disks earlier = Inr after"
    and disks: "\<And>y. y \<in> set disks \<Longrightarrow> Membership_Disk m (disk_ID y) = Some y \<or> stepDisk after (Membership_Disk m (disk_ID y)) y = Inr ()"
    and removed: "\<And>x. x \<in> set (m_disks m) \<Longrightarrow>
      disk_ID x \<in> disk_ID ` set disks \<or> disk_State x = Deleting \<or> disk_State x = Released \<and> disk_Kind x \<noteq> JournalDisk"
    and left: "\<And>p. p \<in> set (m_members m) \<Longrightarrow> member_ID p \<in> member_ID ` set members \<or> member_State p = Draining"
  shows "Step m after = Inr ()"
proof -
  note after = New_ok [OF made]
  have "stepDisk after (Membership_Disk m (disk_ID y)) y = Inr ()" if "y \<in> set disks" for y
    using disks [OF that] membership_okD(5) [OF ok] stepDisk_same by fastforce
  moreover have "step_removal after x = Inr ()" if "x \<in> set (m_disks m)" for x
    using removed [OF that] membership_okD(2) [OF after(1), of "disk_ID x"] after(6) by (auto simp: step_removal_def Let_def)
  moreover have "step_leave after p = Inr ()" if "p \<in> set (m_members m)" for p
    using left [OF that] membership_okD(4) [OF after(1), of "member_ID p"] after(5) by (auto simp: step_leave_def)
  ultimately show ?thesis using after(2,6) by (simp add: Step_Inr)
qed

lemma put_disk_set:
  assumes "distinct (map disk_ID disks)"
  shows "set (put_disk disks disk) = {x \<in> set disks. disk_ID x \<noteq> disk_ID disk} \<union> {disk}" "distinct (map disk_ID (put_disk disks disk))"
proof -
  show "set (put_disk disks disk) = {x \<in> set disks. disk_ID x \<noteq> disk_ID disk} \<union> {disk}"
  proof (cases "index_func (\<lambda>listed. disk_ID listed = disk_ID disk) disks")
    case None
    then have "put_disk disks disk = disks @ [disk]" by (simp add: put_disk_def)
    moreover have "\<forall>x \<in> set disks. disk_ID x \<noteq> disk_ID disk" using None unfolding index_func_None .
    ultimately show ?thesis by auto
  next
    case (Some i)
    have i: "i < length disks" "disk_ID (disks ! i) = disk_ID disk" using index_func_Some [OF Some] by auto
    have "x = disks ! i" if "x \<in> set disks" "disk_ID x = disk_ID disk" for x
      using assms that i by (metis distinct_map inj_on_def nth_mem)
    then show ?thesis using Some i assms set_update_distinct [of disks i disk] by (auto simp: put_disk_def distinct_map)
  qed
  show "distinct (map disk_ID (put_disk disks disk))"
  proof (cases "index_func (\<lambda>listed. disk_ID listed = disk_ID disk) disks")
    case None
    then have "put_disk disks disk = disks @ [disk]" by (simp add: put_disk_def)
    moreover have "\<forall>x \<in> set disks. disk_ID x \<noteq> disk_ID disk" using None unfolding index_func_None .
    ultimately show ?thesis using assms by auto
  next
    case (Some i)
    have "map disk_ID (disks[i := disk]) = map disk_ID disks" using index_func_Some [OF Some] by (metis list_update_id map_update nth_map)
    then show ?thesis using Some assms by (simp add: put_disk_def)
  qed
qed

lemma disks_distinct: "membership_ok m \<Longrightarrow> distinct (map disk_ID (m_disks m))" "membership_ok m \<Longrightarrow> distinct (map member_ID (m_members m))"
  by (simp_all add: membership_ok_def strict_sorted_iff)

lemma listed_disk: "membership_ok m \<Longrightarrow> x \<in> set (m_disks m) \<Longrightarrow> Membership_Disk m (disk_ID x) = Some x"
  by (simp add: membership_okD)

text \<open>A change of one listed disk is what \<open>stepDisk\<close> says of it.\<close>

lemma admitted_one:
  assumes ready: "ready m" and listed: "Membership_Disk m which = Some found" and "disk_ID disk = which"
    and members: "map member_ID members = map member_ID (m_members m)" "\<forall>member \<in> set members. member_ok member"
    and new: "disk_ok (listing (m_generation m + 1) members) disk"
    and step: "\<And>after. Membership_next m members (put_disk (m_disks m) disk) = Inr after \<Longrightarrow> stepDisk after (Some found) disk = Inr ()"
  shows "admitted m (Membership_next m members (put_disk (m_disks m) disk))"
  unfolding Membership_next_def
proof (rule admitted_New)
  note ok = ready_ok [OF ready]
  note put = put_disk_set [OF disks_distinct(1) [OF ok], of disk]
  have ids: "member_ID ` set members = member_ID ` set (m_members m)" using members(1) by (metis list.set_map)
  show "codes_ok (m_code m) (m_earlier m)" by (rule ready_entries(3) [OF ready])
  show "lists_ok (m_generation m + 1) members (put_disk (m_disks m) disk)"
    by (rule lists_kept [OF ready]) (use members new ids put disks_distinct(2) [OF ok] in auto)
  fix after assume made: "New (m_generation m + 1) (m_code m) members (put_disk (m_disks m) disk) (m_earlier m) = Inr after"
  show "Step m after = Inr ()"
  proof (rule Step_intro [OF ok made])
    show "Membership_Disk m (disk_ID y) = Some y \<or> stepDisk after (Membership_Disk m (disk_ID y)) y = Inr ()"
      if "y \<in> set (put_disk (m_disks m) disk)" for y
      using that step made listed assms(3) membership_okD(1) [OF ok, of "disk_ID y" y] unfolding put(1) Membership_next_def by auto
    show "disk_ID x \<in> disk_ID ` set (put_disk (m_disks m) disk) \<or> disk_State x = Deleting \<or> disk_State x = Released \<and> disk_Kind x \<noteq> JournalDisk"
      if "x \<in> set (m_disks m)" for x
      using that unfolding put(1) by (cases "disk_ID x = disk_ID disk") auto
    show "member_ID p \<in> member_ID ` set members \<or> member_State p = Draining" if "p \<in> set (m_members m)" for p
      using that ids by auto
  qed
qed

text \<open>The same with the members left as they are.\<close>

lemma admitted_disk:
  assumes ready: "ready m" and x: "x \<in> set (m_disks m)" "disk_ID y = disk_ID x"
    and new: "disk_ok (listing (m_generation m + 1) (m_members m)) y"
    and step: "\<And>after. m_members after = m_members m \<Longrightarrow> m_generation after = m_generation m + 1 \<Longrightarrow> membership_ok after \<Longrightarrow>
      stepDisk after (Some x) y = Inr ()"
  shows "admitted m (Membership_next m (m_members m) (put_disk (m_disks m) y))"
proof (rule admitted_one [OF ready listed_disk [OF ready_ok [OF ready] x(1)] x(2) refl ready_entries(1) [OF ready] new])
  fix after assume "Membership_next m (m_members m) (put_disk (m_disks m) y) = Inr after"
  note after = New_ok [OF this [unfolded Membership_next_def]]
  have "sort_key member_ID (m_members m) = m_members m"
    using ready_ok [OF ready] by (simp add: membership_ok_def sort_key_id_if_sorted strict_sorted_imp_sorted)
  then show "stepDisk after (Some x) y = Inr ()" using after by (intro step) simp_all
qed

section \<open>The changes\<close>

lemma admitted_Recode:
  assumes ready: "ready m" and "code \<noteq> m_code m \<or> earlier \<noteq> m_earlier m" and codes: "codes_ok code earlier"
  shows "admitted m (Recode m code earlier)"
proof -
  note ok = ready_ok [OF ready]
  have "Recode m code earlier = New (m_generation m + 1) code (m_members m) (m_disks m) earlier" using assms(2) by (auto simp: Recode_def)
  moreover have "lists_ok (m_generation m + 1) (m_members m) (m_disks m)"
    by (rule lists_kept [OF ready]) (simp_all add: disks_distinct [OF ok] ready_entries(1) [OF ready])
  then have "admitted m (New (m_generation m + 1) code (m_members m) (m_disks m) earlier)"
    by (intro admitted_New codes, assumption, intro Step_intro [OF ok]) (auto simp: listed_disk [OF ok])
  ultimately show ?thesis by simp
qed

lemma index_of_entry:
  assumes "distinct (map key xs)" "x \<in> set xs"
  obtains i where "index_func (\<lambda>y. key y = key x) xs = Some i" "i < length xs" "xs ! i = x"
proof (cases "index_func (\<lambda>y. key y = key x) xs")
  case None
  then show ?thesis using assms(2) by (auto simp: index_func_None)
next
  case (Some i)
  from index_func_Some [OF Some] have "i < length xs" "key (xs ! i) = key x" by auto
  then show ?thesis using that Some assms by (metis distinct_map inj_on_def nth_mem)
qed

lemma delete_at_set:
  assumes "distinct xs" "i < length xs"
  shows "set (delete_at i xs) = set xs - {xs ! i}"
proof -
  have split: "xs = take i xs @ xs ! i # drop (Suc i) xs" using assms(2) by (rule id_take_nth_drop)
  then have "distinct (take i xs @ xs ! i # drop (Suc i) xs)" "set xs = set (take i xs @ xs ! i # drop (Suc i) xs)" using assms(1) by simp_all
  then show ?thesis unfolding delete_at_def by auto
qed

lemma delete_at_distinct:
  assumes "distinct (map key xs)"
  shows "distinct (map key (delete_at i xs))"
proof -
  have "map key (delete_at i xs) = take i (map key xs) @ drop (i + 1) (map key xs)"
    unfolding delete_at_def map_append take_map drop_map ..
  moreover have "set (take i (map key xs)) \<inter> set (drop (i + 1) (map key xs)) = {}"
    using assms by (intro set_take_disj_set_drop_if_distinct) simp_all
  ultimately show ?thesis using assms by simp
qed

lemma update_map: "i < length xs \<Longrightarrow> key y = key (xs ! i) \<Longrightarrow> map key (xs[i := y]) = map key xs"
  by (metis list_update_id map_update nth_map)

lemma update_ids: "i < length xs \<Longrightarrow> key y = key (xs ! i) \<Longrightarrow> key ` set (xs[i := y]) = key ` set xs"
  by (metis list.set_map update_map)

text \<open>One member replaced by another of its identity.\<close>

lemma lists_member:
  assumes ready: "ready m" and i: "i < length (m_members m)" "member_ID q = member_ID (m_members m ! i)" "member_ok q"
    and disks: "distinct (map disk_ID disks)"
      "\<And>y. y \<in> set disks \<Longrightarrow> y \<in> set (m_disks m) \<or> disk_ok (listing (m_generation m + 1) (m_members m)) y"
  shows "lists_ok (m_generation m + 1) ((m_members m)[i := q]) disks"
proof (rule lists_kept [OF ready _ _ _ disks(1)])
  have ids: "member_ID ` set ((m_members m)[i := q]) = member_ID ` set (m_members m)" by (rule update_ids [OF i(1,2)])
  show "distinct (map member_ID ((m_members m)[i := q]))"
    unfolding update_map [OF i(1,2)] by (rule disks_distinct(2) [OF ready_ok [OF ready]])
  show "\<forall>member \<in> set ((m_members m)[i := q]). member_ok member"
    using ready_entries(1) [OF ready] i(3) set_update_subset_insert [of "m_members m" i q] by auto
  show "member_ID ` set (m_members m) \<subseteq> member_ID ` set ((m_members m)[i := q])" using ids by simp
  show "y \<in> set (m_disks m) \<or> disk_ok (listing (m_generation m + 1) ((m_members m)[i := q])) y" if "y \<in> set disks" for y
    using disks(2) [OF that] ids by (auto simp: disk_ok_def)
qed

lemma draining_moved:
  "draining_disk who x \<Longrightarrow> stepDisk after (Some x) (x\<lparr> disk_State := Releasing \<rparr>) = Inr ()"
  by (auto simp: draining_disk_def stepDisk_def stepJournal_def assigning_def less_DiskState_def)

lemma admitted_Drain:
  assumes ready: "ready m" and p: "p \<in> set (m_members m)" "member_State p \<noteq> Draining"
  shows "admitted m (Membership_Drain m (member_ID p))"
proof -
  note ok = ready_ok [OF ready]
  obtain i where i: "index_func (\<lambda>listed. member_ID listed = member_ID p) (m_members m) = Some i" "i < length (m_members m)" "m_members m ! i = p"
    by (rule index_of_entry [OF disks_distinct(2) [OF ok] p(1)])
  let ?members = "(m_members m)[i := p\<lparr> member_State := Draining \<rparr>]"
  let ?drain = "\<lambda>disk. if draining_disk (member_ID p) disk then disk\<lparr> disk_State := Releasing \<rparr> else disk"
  have ids: "member_ID ` set ?members = member_ID ` set (m_members m)" using update_ids [OF i(2), of member_ID] i(3) by simp
  have good: "member_ok (p\<lparr> member_State := Draining \<rparr>)" using ready_entries(1) [OF ready] p(1) by (simp add: member_ok_def)
  have drained: "disk_ok (listing (m_generation m + 1) (m_members m)) (?drain x)" if "x \<in> set (m_disks m)" for x
    using ready_disk(2) [OF ready that] disk_ok_held [OF ready_disk(2) [OF ready that], of Releasing]
    by (auto simp: assigned_def draining_disk_def)
  have "lists_ok (m_generation m + 1) ?members (map ?drain (m_disks m))"
  proof (rule lists_member [OF ready i(2) _ good])
    show "member_ID (p\<lparr> member_State := Draining \<rparr>) = member_ID (m_members m ! i)" using i(3) by simp
    have "map disk_ID (map ?drain (m_disks m)) = map disk_ID (m_disks m)" by auto
    then show "distinct (map disk_ID (map ?drain (m_disks m)))" using disks_distinct(1) [OF ok] by (simp only:)
    fix y assume "y \<in> set (map ?drain (m_disks m))"
    then obtain x where "x \<in> set (m_disks m)" "y = ?drain x" by auto
    then show "y \<in> set (m_disks m) \<or> disk_ok (listing (m_generation m + 1) (m_members m)) y" using drained by blast
  qed
  then have "admitted m (New (m_generation m + 1) (m_code m) ?members (map ?drain (m_disks m)) (m_earlier m))"
  proof (rule admitted_New [OF ready_entries(3) [OF ready]], intro Step_intro [OF ok])
    fix after y assume "y \<in> set (map ?drain (m_disks m))"
    then obtain x where "x \<in> set (m_disks m)" "y = ?drain x" by auto
    then show "Membership_Disk m (disk_ID y) = Some y \<or> stepDisk after (Membership_Disk m (disk_ID y)) y = Inr ()"
      using listed_disk [OF ok] draining_moved by (cases "draining_disk (member_ID p) x") auto
  next
    fix x assume "x \<in> set (m_disks m)"
    then have "disk_ID (?drain x) \<in> disk_ID ` set (map ?drain (m_disks m))" by simp
    then show "disk_ID x \<in> disk_ID ` set (map ?drain (m_disks m)) \<or> disk_State x = Deleting \<or> disk_State x = Released \<and> disk_Kind x \<noteq> JournalDisk"
      by (cases "draining_disk (member_ID p) x") simp_all
  qed (use ids in auto)
  then show ?thesis using i p(2) by (simp add: Membership_Drain_def Membership_next_def)
qed

lemma admitted_Let:
  assumes ready: "ready m" and x: "x \<in> set (m_disks m)" "disk_State x = Releasing"
  shows "admitted m (Membership_Let m (disk_ID x) (disk_Member x))"
proof -
  have "admitted m (Membership_next m (m_members m) (put_disk (m_disks m) (x\<lparr> disk_Member := 0, disk_State := Released, disk_Assigned := 0 \<rparr>)))"
    by (rule admitted_disk [OF ready x(1)])
      (use x(2) ready_disk(1) [OF ready x(1)] in \<open>auto simp: stepDisk_def stepJournal_def assigning_def disk_ok_def\<close>)
  then show ?thesis using listed_disk [OF ready_ok [OF ready] x(1)] x(2) by (simp add: Membership_Let_def)
qed

lemma admitted_Remove:
  assumes ready: "ready m" and x: "x \<in> set (m_disks m)"
    "disk_State x = Deleting \<or> disk_State x = Released \<and> disk_Kind x \<noteq> JournalDisk"
  shows "admitted m (Membership_Remove m (disk_ID x))"
proof -
  note ok = ready_ok [OF ready]
  obtain i where i: "index_func (\<lambda>listed. disk_ID listed = disk_ID x) (m_disks m) = Some i" "i < length (m_disks m)" "m_disks m ! i = x"
    by (rule index_of_entry [OF disks_distinct(1) [OF ok] x(1)])
  have rest: "set (delete_at i (m_disks m)) = set (m_disks m) - {x}"
    using delete_at_set [OF _ i(2)] disks_distinct(1) [OF ok] i(3) by (simp add: distinct_map)
  have "lists_ok (m_generation m + 1) (m_members m) (delete_at i (m_disks m))"
    by (rule lists_kept [OF ready]) (use disks_distinct [OF ok] ready_entries(1) [OF ready] rest in \<open>auto intro: delete_at_distinct\<close>)
  then have "admitted m (New (m_generation m + 1) (m_code m) (m_members m) (delete_at i (m_disks m)) (m_earlier m))"
    by (rule admitted_New [OF ready_entries(3) [OF ready]], intro Step_intro [OF ok]) (use x(2) in \<open>auto simp: listed_disk [OF ok] rest\<close>)
  then show ?thesis by (simp add: Membership_Remove_def i(1) Membership_next_def)
qed

text \<open>A disk that may be listed once it is assigned to nobody.\<close>

definition entry_ok :: "Disk \<Rightarrow> bool" where
  "entry_ok disk \<longleftrightarrow> disk_ID disk \<noteq> 0
     \<and> (disk_Kind disk = CacheDisk \<and> disk_Weight disk \<noteq> 0 \<and> disk_Machine disk = [] \<and> \<not> disk_Empty disk \<or> disk_Kind disk = JournalDisk)"

lemma admitted_Add:
  assumes ready: "ready m" and "Membership_Disk m (disk_ID disk) = None" and entry: "entry_ok disk"
  shows "admitted m (Membership_Add m disk)"
proof -
  note ok = ready_ok [OF ready]
  let ?disks = "m_disks m @ [disk\<lparr> disk_Member := 0, disk_State := Released, disk_Assigned := 0 \<rparr>]"
  have "disk_ID disk \<notin> disk_ID ` set (m_disks m)" using assms(2) by (simp add: membership_okD(2) [OF ok])
  then have "distinct (map disk_ID ?disks)" using disks_distinct(1) [OF ok] by simp
  moreover have "disk_ok (listing (m_generation m + 1) (m_members m)) (disk\<lparr> disk_Member := 0, disk_State := Released, disk_Assigned := 0 \<rparr>)"
    using entry by (auto simp: entry_ok_def disk_ok_def)
  ultimately have "lists_ok (m_generation m + 1) (m_members m) ?disks"
    by (intro lists_kept [OF ready disks_distinct(2) [OF ok] ready_entries(1) [OF ready]]) auto
  then have "admitted m (New (m_generation m + 1) (m_code m) (m_members m) ?disks (m_earlier m))"
    by (rule admitted_New [OF ready_entries(3) [OF ready]], intro Step_intro [OF ok])
      (use assms(2) in \<open>auto simp: listed_disk [OF ok] stepDisk_def stepJournal_def assigning_def\<close>)
  then show ?thesis using assms(2) by (simp add: Membership_Add_def Membership_next_def)
qed

lemma admitted_Leave:
  assumes ready: "ready m" and p: "p \<in> set (m_members m)" "member_State p = Draining"
    and unused: "\<not> list_ex (\<lambda>disk. disk_Member disk = member_ID p) (m_disks m)"
  shows "admitted m (Membership_Leave m (member_ID p))"
proof -
  note ok = ready_ok [OF ready]
  obtain i where i: "index_func (\<lambda>listed. member_ID listed = member_ID p) (m_members m) = Some i" "i < length (m_members m)" "m_members m ! i = p"
    by (rule index_of_entry [OF disks_distinct(2) [OF ok] p(1)])
  let ?members = "delete_at i (m_members m)"
  have rest: "set ?members = set (m_members m) - {p}"
    using delete_at_set [OF _ i(2)] disks_distinct(2) [OF ok] i(3) by (simp add: distinct_map)
  have "disk_ok (listing (m_generation m + 1) ?members) x" if x: "x \<in> set (m_disks m)" for x
  proof -
    have "disk_Member x \<noteq> member_ID p" using unused x by (auto simp: list_ex_iff)
    moreover have "disk_ok (listing (m_generation m + 1) (m_members m)) x"
      by (rule ready_disk(2) [OF ready x])
    moreover have "member_ID ` set (m_members m) - {member_ID p} \<subseteq> member_ID ` set ?members" unfolding rest by blast
    ultimately show ?thesis unfolding disk_ok_def by (simp, blast)
  qed
  moreover have "\<forall>member \<in> set ?members. member_ok member" using ready_entries(1) [OF ready] rest by simp
  ultimately have "lists_ok (m_generation m + 1) ?members (m_disks m)"
    unfolding lists_ok_def using disks_distinct(1) [OF ok] delete_at_distinct [OF disks_distinct(2) [OF ok]] by simp
  then have "admitted m (New (m_generation m + 1) (m_code m) ?members (m_disks m) (m_earlier m))"
    by (rule admitted_New [OF ready_entries(3) [OF ready]], intro Step_intro [OF ok]) (use p(2) in \<open>auto simp: listed_disk [OF ok] rest\<close>)
  then show ?thesis by (simp add: Membership_Leave_def i(1) Membership_next_def)
qed

lemma foldl_put_set:
  assumes "distinct (map disk_ID disks)"
  shows "set (foldl put_disk disks more_disks) \<subseteq> {x \<in> set disks. disk_ID x \<notin> disk_ID ` set more_disks} \<union> set more_disks"
    "disk_ID ` set disks \<subseteq> disk_ID ` set (foldl put_disk disks more_disks)"
    "distinct (map disk_ID (foldl put_disk disks more_disks))"
proof -
  have all: "set (foldl put_disk disks more_disks) \<subseteq> {x \<in> set disks. disk_ID x \<notin> disk_ID ` set more_disks} \<union> set more_disks
      \<and> disk_ID ` set disks \<subseteq> disk_ID ` set (foldl put_disk disks more_disks)
      \<and> distinct (map disk_ID (foldl put_disk disks more_disks))"
    using assms
  proof (induction more_disks arbitrary: disks)
    case (Cons d more_disks)
    note put = put_disk_set [OF Cons(2), of d]
    note rest = Cons(1) [OF put(2)]
    have "disk_ID ` set disks \<subseteq> disk_ID ` set (put_disk disks d)" unfolding put(1) by auto
    also have "\<dots> \<subseteq> disk_ID ` set (foldl put_disk (put_disk disks d) more_disks)" by (rule conjunct1 [OF conjunct2 [OF rest]])
    finally have ids: "disk_ID ` set disks \<subseteq> disk_ID ` set (foldl put_disk disks (d # more_disks))" by simp
    have "{x \<in> set (put_disk disks d). disk_ID x \<notin> disk_ID ` set more_disks} \<union> set more_disks
        \<subseteq> {x \<in> set disks. disk_ID x \<notin> disk_ID ` set (d # more_disks)} \<union> set (d # more_disks)" unfolding put(1) by auto
    with conjunct1 [OF rest] have "set (foldl put_disk disks (d # more_disks))
        \<subseteq> {x \<in> set disks. disk_ID x \<notin> disk_ID ` set (d # more_disks)} \<union> set (d # more_disks)"
      unfolding foldl_Cons by (rule order_trans)
    moreover have "distinct (map disk_ID (foldl put_disk disks (d # more_disks)))"
      unfolding foldl_Cons by (rule conjunct2 [OF conjunct2 [OF rest]])
    ultimately show ?case using ids by (intro conjI)
  qed simp
  show "set (foldl put_disk disks more_disks) \<subseteq> {x \<in> set disks. disk_ID x \<notin> disk_ID ` set more_disks} \<union> set more_disks"
    by (rule conjunct1 [OF all])
  show "disk_ID ` set disks \<subseteq> disk_ID ` set (foldl put_disk disks more_disks)" by (rule conjunct1 [OF conjunct2 [OF all]])
  show "distinct (map disk_ID (foldl put_disk disks more_disks))" by (rule conjunct2 [OF conjunct2 [OF all]])
qed

text \<open>The disks a member joins with, as they are assigned to it.\<close>

abbreviation owned_disk :: "Membership \<Rightarrow> Member \<Rightarrow> Disk \<Rightarrow> Disk" where
  "owned_disk m member disk \<equiv> disk\<lparr> disk_Member := member_ID member, disk_State := Attaching, disk_Assigned := m_generation m + 1 \<rparr>"

lemma joining_step:
  assumes ok: "membership_ok m" and after: "membership_ok after" "m_generation after = m_generation m + 1"
      "Membership_Member after (member_ID member) = Some (member\<lparr> member_State := Joining \<rparr>)" and "member_ID member \<noteq> 0"
    and d: "entry_ok d" "disk_Kind d = CacheDisk"
      "\<And>found. Membership_Disk m (disk_ID d) = Some found \<Longrightarrow> disk_State found = Released \<and> disk_Kind found = disk_Kind d"
  shows "stepDisk after (Membership_Disk m (disk_ID d)) (owned_disk m member d) = Inr ()"
proof (cases "Membership_Disk m (disk_ID d)")
  case None
  then show ?thesis using after by (simp add: stepDisk_def stepJournal_def assigning_def)
next
  case (Some found)
  have "disk_Member found = 0" using d(3) [OF Some] membership_okD(5) [OF ok Some] by (auto simp: disk_ok_def assigned_def)
  then show ?thesis using Some d after(2,3) assms(5) d(3) [OF Some] by (auto simp: stepDisk_def stepJournal_def assigning_def entry_ok_def)
qed

lemma joining_lists:
  assumes ready: "ready m" and new: "Membership_Member m (member_ID member) = None"
    and member: "member_ID member \<noteq> 0" "member_Address member \<noteq> []" and entries: "\<forall>d \<in> set disks. entry_ok d"
  shows "lists_ok (m_generation m + 1) (m_members m @ [member\<lparr> member_State := Joining \<rparr>])
    (foldl put_disk (m_disks m) (map (owned_disk m member) disks))"
proof (rule lists_kept [OF ready])
  note ok = ready_ok [OF ready]
  note put = foldl_put_set [OF disks_distinct(1) [OF ok], of "map (owned_disk m member) disks"]
  have "member_ID member \<notin> member_ID ` set (m_members m)" using new by (simp add: membership_okD(4) [OF ok])
  then show "distinct (map member_ID (m_members m @ [member\<lparr> member_State := Joining \<rparr>]))" using disks_distinct(2) [OF ok] by simp
  show "\<forall>p \<in> set (m_members m @ [member\<lparr> member_State := Joining \<rparr>]). member_ok p"
    using ready_entries(1) [OF ready] member by (auto simp: member_ok_def)
  have "0 < m_generation m + 1" using ready by (simp add: ready_def word_gt_0)
  then have own: "disk_ok (listing (m_generation m + 1) (m_members m @ [member\<lparr> member_State := Joining \<rparr>])) y"
    if "y \<in> set (map (owned_disk m member) disks)" for y
    using that entries by (auto simp: disk_ok_def assigned_def entry_ok_def)
  show "y \<in> set (m_disks m) \<or> disk_ok (listing (m_generation m + 1) (m_members m @ [member\<lparr> member_State := Joining \<rparr>])) y"
    if "y \<in> set (foldl put_disk (m_disks m) (map (owned_disk m member) disks))" for y
    using subsetD [OF put(1) that] own by blast
  show "distinct (map disk_ID (foldl put_disk (m_disks m) (map (owned_disk m member) disks)))" by (rule put(3))
qed auto

lemma admitted_Join:
  assumes ready: "ready m" and new: "Membership_Member m (member_ID member) = None"
    and member: "member_ID member \<noteq> 0" "member_Address member \<noteq> []"
    and disks: "\<And>d found. d \<in> set disks \<Longrightarrow> Membership_Disk m (disk_ID d) = Some found \<Longrightarrow> disk_State found = Released \<and> disk_Kind found = disk_Kind d"
    and kinds: "\<And>d. d \<in> set disks \<Longrightarrow> disk_Kind d = CacheDisk \<and> entry_ok d"
  shows "admitted m (Membership_Join m member disks)"
proof -
  note ok = ready_ok [OF ready]
  let ?own = "map (owned_disk m member) disks"
  let ?members = "m_members m @ [member\<lparr> member_State := Joining \<rparr>]"
  note put = foldl_put_set [OF disks_distinct(1) [OF ok], of ?own]
  have "lists_ok (m_generation m + 1) ?members (foldl put_disk (m_disks m) ?own)"
    using joining_lists [OF ready new member] kinds by blast
  then have "admitted m (New (m_generation m + 1) (m_code m) ?members (foldl put_disk (m_disks m) ?own) (m_earlier m))"
  proof (rule admitted_New [OF ready_entries(3) [OF ready]])
    fix after
    assume made: "New (m_generation m + 1) (m_code m) ?members (foldl put_disk (m_disks m) ?own) (m_earlier m) = Inr after"
    note after = New_ok [OF made]
    have joined: "Membership_Member after (member_ID member) = Some (member\<lparr> member_State := Joining \<rparr>)"
      using membership_okD(3) [OF after(1)] after(5) by simp
    show "Step m after = Inr ()"
    proof (rule Step_intro [OF ok made])
      fix y assume "y \<in> set (foldl put_disk (m_disks m) ?own)"
      from subsetD [OF put(1) this] show "Membership_Disk m (disk_ID y) = Some y \<or> stepDisk after (Membership_Disk m (disk_ID y)) y = Inr ()"
      proof
        assume "y \<in> set ?own"
        then obtain d where d: "d \<in> set disks" "y = owned_disk m member d" by auto
        show ?thesis using joining_step [OF ok after(1,2) joined member(1), of d] kinds [OF d(1)] disks [OF d(1)] d(2) by simp
      qed (use listed_disk [OF ok] in simp)
    qed (use put(2) in auto)
  qed
  then show ?thesis using new by (simp add: Membership_Join_def Membership_next_def)
qed

lemma admitted_Move:
  assumes ready: "ready m" and p: "p \<in> set (m_members m)" "member_Address p \<noteq> address" and "address \<noteq> []"
  shows "admitted m (Membership_Move m (member_ID p) address)"
proof -
  note ok = ready_ok [OF ready]
  obtain i where i: "index_func (\<lambda>listed. member_ID listed = member_ID p) (m_members m) = Some i" "i < length (m_members m)" "m_members m ! i = p"
    by (rule index_of_entry [OF disks_distinct(2) [OF ok] p(1)])
  let ?members = "(m_members m)[i := p\<lparr> member_Address := address \<rparr>]"
  have good: "member_ok (p\<lparr> member_Address := address \<rparr>)" using ready_entries(1) [OF ready] p(1) assms(4) by (simp add: member_ok_def)
  have ids: "member_ID ` set ?members = member_ID ` set (m_members m)" using update_ids [OF i(2), of member_ID] i(3) by simp
  have "lists_ok (m_generation m + 1) ?members (m_disks m)"
    by (rule lists_member [OF ready i(2)])
      (use i(3) good disks_distinct(1) [OF ok] in auto)
  then have "admitted m (New (m_generation m + 1) (m_code m) ?members (m_disks m) (m_earlier m))"
    by (rule admitted_New [OF ready_entries(3) [OF ready]], intro Step_intro [OF ok]) (use ids in \<open>auto simp: listed_disk [OF ok]\<close>)
  then show ?thesis using i p(2) by (simp add: Membership_Move_def Membership_next_def)
qed

lemma admitted_Serve:
  assumes ready: "ready m" and x: "x \<in> set (m_disks m)" "disk_State x = Attaching"
  shows "admitted m (Membership_Serve m (disk_ID x) (disk_Member x))"
proof -
  note ok = ready_ok [OF ready]
  define members where "members = map (\<lambda>listed. if member_ID listed = disk_Member x \<and> member_State listed = Joining
    then listed\<lparr> member_State := Active \<rparr> else listed) (m_members m)"
  have ids: "map member_ID members = map member_ID (m_members m)" by (simp add: members_def)
  have good: "\<forall>member \<in> set members. member_ok member" using ready_entries(1) [OF ready] by (auto simp: members_def member_ok_def)
  have "member_ID ` set members = member_ID ` set (m_members m)" using ids by (metis list.set_map)
  then have new: "disk_ok (listing (m_generation m + 1) members) (x\<lparr> disk_State := Serving \<rparr>)"
    by (intro disk_ok_held kept_disk [OF ready ready_disk(1) [OF ready x(1)]]) (simp_all add: x(2) assigned_def)
  have "stepDisk after (Some x) (x\<lparr> disk_State := Serving \<rparr>) = Inr ()" for after
    using x(2) by (simp add: stepDisk_def stepJournal_def assigning_def less_DiskState_def)
  then have "admitted m (Membership_next m members (put_disk (m_disks m) (x\<lparr> disk_State := Serving \<rparr>)))"
    by (intro admitted_one [OF ready listed_disk [OF ok x(1)] _ ids good new]) simp_all
  then show ?thesis using listed_disk [OF ok x(1)] x(2) by (simp add: Membership_Serve_def members_def)
qed

lemma admitted_Weigh:
  assumes ready: "ready m" and x: "Membership_Disk m which = Some x" "disk_Weight x \<noteq> weight" and "weight \<noteq> 0"
  shows "admitted m (Membership_Weigh m which weight)"
proof -
  note ok = ready_ok [OF ready]
  have listed: "disk_ok m x" "disk_ID x = which" "x \<in> set (m_disks m)" using membership_okD(1,5) [OF ok] x(1) by blast+
  have "admitted m (Membership_next m (m_members m) (put_disk (m_disks m) (x\<lparr> disk_Weight := weight \<rparr>)))"
    by (rule admitted_disk [OF ready listed(3)])
      (use listed(1) assms(4) ready_disk(2) [OF ready listed(3)] in
        \<open>auto simp: stepDisk_def stepJournal_def assigning_def disk_ok_def assigned_def\<close>)
  then show ?thesis using x by (simp add: Membership_Weigh_def)
qed

lemma admitted_Delete:
  assumes ready: "ready m" and x: "x \<in> set (m_disks m)" "disk_Kind x = JournalDisk" "disk_State x = Released" "disk_Empty x"
  shows "admitted m (Membership_Delete m (disk_ID x))"
proof -
  have "admitted m (Membership_next m (m_members m) (put_disk (m_disks m) (x\<lparr> disk_State := Deleting \<rparr>)))"
    by (rule admitted_disk [OF ready x(1)])
      (use x(2-4) ready_disk(2) [OF ready x(1)] in \<open>auto simp: stepDisk_def stepJournal_def assigning_def disk_ok_def assigned_def\<close>)
  then show ?thesis using listed_disk [OF ready_ok [OF ready] x(1)] x by (simp add: Membership_Delete_def)
qed

lemma admitted_MarkEmpty:
  assumes ready: "ready m" and x: "x \<in> set (m_disks m)" "disk_Kind x = JournalDisk" "disk_State x \<in> {Serving, Releasing}" "disk_Empty x \<noteq> e"
  shows "admitted m (Membership_MarkEmpty m (disk_ID x) e)"
proof -
  have "admitted m (Membership_next m (m_members m) (put_disk (m_disks m) (x\<lparr> disk_Empty := e \<rparr>)))"
    by (rule admitted_disk [OF ready x(1)])
      (use x(2,3) ready_disk(2) [OF ready x(1)] in \<open>auto simp: stepDisk_def stepJournal_def assigning_def disk_ok_def assigned_def\<close>)
  then show ?thesis using listed_disk [OF ready_ok [OF ready] x(1)] x by (simp add: Membership_MarkEmpty_def)
qed

lemma admitted_Release:
  assumes ready: "ready m" and x: "x \<in> set (m_disks m)" "disk_State x = Serving"
  shows "admitted m (Membership_Release m (disk_ID x))"
proof -
  have "admitted m (Membership_next m (m_members m) (put_disk (m_disks m) (x\<lparr> disk_State := Releasing \<rparr>)))"
    by (rule admitted_disk [OF ready x(1)])
      (use x(2) ready_disk(2) [OF ready x(1)] in \<open>auto simp: stepDisk_def stepJournal_def assigning_def less_DiskState_def disk_ok_def assigned_def\<close>)
  then show ?thesis using listed_disk [OF ready_ok [OF ready] x(1)] x by (simp add: Membership_Release_def)
qed

lemma admitted_Reserve:
  assumes ready: "ready m" and x: "x \<in> set (m_disks m)" "disk_Kind x = JournalDisk" "disk_State x = Released" "disk_Machine x \<noteq> machine"
  shows "admitted m (Membership_Reserve m (disk_ID x) machine)"
proof -
  have "admitted m (Membership_next m (m_members m) (put_disk (m_disks m) (x\<lparr> disk_Machine := machine \<rparr>)))"
    by (rule admitted_disk [OF ready x(1)])
      (use x(2-4) ready_disk(2) [OF ready x(1)] in \<open>auto simp: stepDisk_def stepJournal_def assigning_def disk_ok_def assigned_def\<close>)
  then show ?thesis using listed_disk [OF ready_ok [OF ready] x(1)] x by (simp add: Membership_Reserve_def)
qed

lemma admitted_Assign:
  assumes ready: "ready m" and x: "x \<in> set (m_disks m)" "disk_State x = Released"
    and p: "p \<in> set (m_members m)" "member_State p \<noteq> Draining"
  shows "admitted m (Membership_Assign m (disk_ID x) (member_ID p))"
proof -
  note ok = ready_ok [OF ready]
  let ?y = "x\<lparr> disk_Member := member_ID p, disk_State := Attaching, disk_Assigned := m_generation m + 1 \<rparr>"
  let ?z = "if disk_Kind ?y = JournalDisk then ?y\<lparr> disk_Empty := False \<rparr> else ?y"
  note good = ready_disk(1) [OF ready x(1)]
  then have free: "disk_Member x = 0" "disk_Kind x \<noteq> JournalDisk \<Longrightarrow> \<not> disk_Empty x" using x(2) by (auto simp: disk_ok_def assigned_def)
  have who: "member_ID p \<noteq> 0" using ready_entries(1) [OF ready] p(1) by (simp add: member_ok_def)
  have "0 < m_generation m + 1" using ready by (simp add: ready_def word_gt_0)
  then have new: "disk_ok (listing (m_generation m + 1) (m_members m)) ?z"
    using good p(1) x(2) by (auto simp: disk_ok_def assigned_def)
  have "admitted m (Membership_next m (m_members m) (put_disk (m_disks m) ?z))"
  proof (rule admitted_disk [OF ready x(1) _ new])
    fix after assume after: "m_members after = m_members m" "m_generation after = m_generation m + 1" "membership_ok after"
    have "Membership_Member after (member_ID p) = Some p" using membership_okD(3) [OF after(3)] after(1) p(1) by simp
    then show "stepDisk after (Some x) ?z = Inr ()"
      using x(2) p(2) free who after(2) by (auto simp: stepDisk_def stepJournal_def assigning_def)
  qed auto
  then show ?thesis using listed_disk [OF ok x(1)] x(2) by (simp add: Membership_Assign_def Let_def)
qed

section \<open>The controller's choice\<close>

definition picks_admitted :: "Membership \<Rightarrow> Change option \<Rightarrow> bool" where
  "picks_admitted m choice \<longleftrightarrow> (\<forall>change. choice = Some change \<longrightarrow> admitted m (run_change change m))"

lemma picks_or_else: "picks_admitted m a \<Longrightarrow> picks_admitted m b \<Longrightarrow> picks_admitted m (or_else a b)"
  by (auto simp: picks_admitted_def or_else_def split: option.splits)

lemma picks_find:
  assumes "\<And>x. x \<in> set xs \<Longrightarrow> P x \<Longrightarrow> admitted m (run_change (f x) m)"
  shows "picks_admitted m (map_option f (List.find P xs))"
  using assms by (auto simp: picks_admitted_def find_Some_iff)

lemma picks_None [simp]: "picks_admitted m None"
  by (simp add: picks_admitted_def)

lemma journalDisks_set: "x \<in> set (journalDisks m) \<Longrightarrow> x \<in> set (m_disks m) \<and> disk_Kind x = JournalDisk"
  by (simp add: journalDisks_def)

lemma takers_set: "p \<in> set (takers m hosts) \<Longrightarrow> p \<in> set (m_members m) \<and> member_State p \<noteq> Draining"
  by (simp add: takers_def)

lemma foldl_chosen_mem: "foldl (\<lambda>chosen member. if P member chosen then member else chosen) a xs \<in> insert a (set xs)"
  by (induction xs arbitrary: a) (auto split: if_splits)

lemma least_of_mem: "members \<noteq> [] \<Longrightarrow> least_of load members \<in> set members"
  unfolding least_of_def using foldl_chosen_mem [of "\<lambda>member chosen. load member < load chosen" "hd members" "tl members"]
  by (cases members) auto

text \<open>
  What the controller relies on of what it is given: a host reports a disk the membership lists as
  the kind it is listed as, and names no entry that no membership may list.
\<close>

definition kinds_agree :: "Membership \<Rightarrow> Want \<Rightarrow> bool" where
  "kinds_agree m want \<longleftrightarrow> (\<forall>host \<in> set (want_Hosts want). \<forall>d \<in> set (host_Disks host). \<forall>found \<in> set (m_disks m).
     disk_ID found = disk_ID d \<longrightarrow> disk_Kind found = disk_Kind d)"

definition host_ok :: "Host \<Rightarrow> bool" where
  "host_ok host \<longleftrightarrow> host_ID host \<noteq> 0 \<and> host_Address host \<noteq> []
     \<and> (\<forall>d \<in> set (host_Disks host). disk_Kind d = CacheDisk \<longrightarrow> entry_ok d)"

definition want_ok :: "Membership \<Rightarrow> Want \<Rightarrow> bool" where
  "want_ok m want \<longleftrightarrow> kinds_agree m want \<and> (\<forall>host \<in> set (want_Hosts want). host_ok host)
     \<and> (Validate (want_Code want) = Inr () \<longrightarrow> codes_ok (want_Code want) (want_Earlier want))
     \<and> (\<forall>shard \<in> set (want_Shards want). disk_Kind (shard_Disk shard) = CacheDisk \<and> entry_ok (shard_Disk shard))
     \<and> (\<forall>journal \<in> set (want_Journals want). shard_ID journal \<noteq> 0)"

lemma hosts_of_set:
  assumes "hosts_of hosts who = Some host"
  shows "host \<in> set hosts"
proof -
  have "foldl (\<lambda>f host. f(host_ID host \<mapsto> host)) f hosts who = Some host \<Longrightarrow> host \<in> set hosts \<or> f who = Some host" for f
    by (induction hosts arbitrary: f) (fastforce split: if_splits)+
  from this [of "\<lambda>_. None"] show ?thesis using assms by (simp add: hosts_of_def)
qed

lemma sortedHosts_set [simp]: "set (sortedHosts hosts) = set hosts"
  by (simp add: sortedHosts_def)

lemma picks_members:
  assumes ready: "ready m" and want: "want_ok m want" and hosts: "\<And>who host. hosts who = Some host \<Longrightarrow> host \<in> set (want_Hosts want)"
  shows "picks_admitted m (next_recode m want)" "picks_admitted m (next_drain m hosts)" "picks_admitted m (next_leave m)"
    "picks_admitted m (next_move m hosts)"
proof -
  show "picks_admitted m (next_recode m want)"
    using admitted_Recode [OF ready] want by (auto simp: next_recode_def picks_admitted_def want_ok_def)
  show "picks_admitted m (next_drain m hosts)"
    unfolding next_drain_def by (rule picks_find) (simp add: admitted_Drain ready)
  show "picks_admitted m (next_leave m)"
    unfolding next_leave_def by (rule picks_find) (simp add: admitted_Leave ready)
  show "picks_admitted m (next_move m hosts)"
    unfolding next_move_def
  proof (rule picks_find)
    fix p assume p: "p \<in> set (m_members m)" "(case hosts (member_ID p) of None \<Rightarrow> False | Some host \<Rightarrow> host_Address host \<noteq> member_Address p)
        \<and> member_State p \<noteq> Draining"
    then obtain host where host: "hosts (member_ID p) = Some host" "host_Address host \<noteq> member_Address p" by (auto split: option.splits)
    have "host_ok host" using hosts [OF host(1)] want by (simp add: want_ok_def)
    then have "host_Address host \<noteq> []" by (simp add: host_ok_def)
    then show "admitted m (run_change (ChangeMove (member_ID p) (host_Address (or_no_host (hosts (member_ID p))))) m)"
      using admitted_Move [OF ready p(1)] host by (simp add: or_no_host_def)
  qed
qed

lemma picks_disks:
  assumes ready: "ready m" and want: "want_ok m want"
  shows "picks_admitted m (next_let m hosts shards)" "picks_admitted m (next_remove m reported shards)"
    "picks_admitted m (next_add m want)" "picks_admitted m (next_serve m reported)"
    "picks_admitted m (next_weigh m want reported shards)" "picks_admitted m (next_weigh_shard m want)"
proof -
  show "picks_admitted m (next_let m hosts shards)"
    unfolding next_let_def by (rule picks_find) (simp add: admitted_Let ready)
  show "picks_admitted m (next_remove m reported shards)"
    unfolding next_remove_def by (rule picks_find) (simp add: admitted_Remove ready)
  show "picks_admitted m (next_add m want)"
    unfolding next_add_def by (rule picks_find) (use want in \<open>auto simp: want_ok_def intro: admitted_Add [OF ready]\<close>)
  show "picks_admitted m (next_serve m reported)"
    unfolding next_serve_def by (rule picks_find) (simp add: admitted_Serve ready)
  show "picks_admitted m (next_weigh m want reported shards)"
    unfolding next_weigh_def
  proof (rule picks_find, clarify)
    fix host disk
    assume "(host, disk) \<in> set (concat (map (\<lambda>host. map (Pair host) (host_Disks host)) (sortedHosts (want_Hosts want))))"
      and disk: "disk_Kind disk = CacheDisk"
        "case Membership_Disk m (disk_ID disk) of None \<Rightarrow> False | Some found \<Rightarrow> disk_Weight found \<noteq> disk_Weight disk"
    then have "host_ok host" "disk \<in> set (host_Disks host)" using want by (auto simp: want_ok_def)
    then have "disk_Weight disk \<noteq> 0" using disk(1) by (auto simp: host_ok_def entry_ok_def)
    then show "admitted m (run_change (ChangeWeigh (disk_ID disk) (disk_Weight disk)) m)"
      using disk(2) admitted_Weigh [OF ready] by (auto split: option.splits)
  qed
  show "picks_admitted m (next_weigh_shard m want)"
    unfolding next_weigh_shard_def
    by (rule picks_find) (use want in \<open>auto simp: want_ok_def entry_ok_def split: option.splits intro: admitted_Weigh [OF ready]\<close>)
qed

lemma picks_join:
  assumes ready: "ready m" and want: "want_ok m want"
  shows "picks_admitted m (next_join m want reported shards)"
  unfolding next_join_def
proof (rule picks_find)
  fix host
  assume host: "host \<in> set (sortedHosts (want_Hosts want))" "Membership_Member m (host_ID host) = None \<and> \<not> host_Leaving host"
  have "admitted m (Membership_Join m \<lparr> member_ID = host_ID host, member_Address = host_Address host, member_State = NoMemberState \<rparr>
      (joining_disks m reported shards host))"
  proof (rule admitted_Join [OF ready])
    have good: "host_ok host" using want host(1) by (simp add: want_ok_def)
    then show "member_ID \<lparr> member_ID = host_ID host, member_Address = host_Address host, member_State = NoMemberState \<rparr> \<noteq> 0"
      "member_Address \<lparr> member_ID = host_ID host, member_Address = host_Address host, member_State = NoMemberState \<rparr> \<noteq> []"
      by (simp_all add: host_ok_def)
    show "disk_Kind d = CacheDisk \<and> entry_ok d" if "d \<in> set (joining_disks m reported shards host)" for d
      using that good by (auto simp: joining_disks_def host_ok_def)
    fix d found
    assume d: "d \<in> set (joining_disks m reported shards host)" "Membership_Disk m (disk_ID d) = Some found"
    then have "d \<in> set (host_Disks host)" "disk_State found = Released" by (auto simp: joining_disks_def)
    moreover have "found \<in> set (m_disks m)" "disk_ID found = disk_ID d" using membership_okD(1) [OF ready_ok [OF ready]] d(2) by blast+
    ultimately show "disk_State found = Released \<and> disk_Kind found = disk_Kind d"
      using want host(1) unfolding want_ok_def kinds_agree_def by simp
  qed (use host(2) in simp)
  then show "admitted m (run_change (ChangeJoin \<lparr> member_ID = host_ID host, member_Address = host_Address host, member_State = NoMemberState \<rparr>
      (joining_disks m reported shards host)) m)" by simp
qed

lemma picks_journals:
  assumes ready: "ready m" and want: "want_ok m want"
  shows "picks_admitted m (nextJournalStep m hosts want)"
  unfolding nextJournalStep_def
proof (intro picks_or_else)
  show "picks_admitted m (journal_add m want)"
    unfolding journal_add_def by (rule picks_find) (use want in \<open>simp add: want_ok_def admitted_Add [OF ready] entry_ok_def\<close>)
  show "picks_admitted m (journal_remove m want)"
    unfolding journal_remove_def by (rule picks_find) (auto dest!: journalDisks_set intro: admitted_Remove [OF ready])
  show "picks_admitted m (journal_delete m want)"
    unfolding journal_delete_def by (rule picks_find) (auto simp: Disk_free_def dest!: journalDisks_set intro: admitted_Delete [OF ready])
  show "picks_admitted m (journal_mark m hosts)"
    unfolding journal_mark_def
  proof (rule picks_find)
    fix x assume x: "x \<in> set (journalDisks m)" "mark_of hosts x \<noteq> None"
    then obtain e where e: "mark_of hosts x = Some e" by auto
    then have "disk_State x \<in> {Serving, Releasing}" "disk_Empty x \<noteq> e"
      by (auto simp: mark_of_def Let_def split: option.splits if_splits)
    then show "admitted m (run_change (ChangeMarkEmpty (disk_ID x) (the (mark_of hosts x))) m)"
      using admitted_MarkEmpty [OF ready] journalDisks_set [OF x(1)] e by simp
  qed
  show "picks_admitted m (journal_release m hosts)"
    unfolding journal_release_def by (rule picks_find) (auto dest!: journalDisks_set intro: admitted_Release [OF ready])
  show "picks_admitted m (journal_unreserve m want)"
    unfolding journal_unreserve_def by (rule picks_find) (auto dest!: journalDisks_set intro: admitted_Reserve [OF ready])
  show "picks_admitted m (journal_reserve m want)"
    unfolding journal_reserve_def
  proof (rule picks_find, clarify)
    fix machine disk
    assume "(machine, disk) \<in> set (concat (map (\<lambda>machine. map (Pair machine) (journalDisks m)) (sort (want_Pool want))))"
      and other: "\<not> list_ex (\<lambda>other. disk_Machine other = machine) (journalDisks m)" and free: "Disk_free disk"
    then have disk: "disk \<in> set (journalDisks m)" by auto
    then have "disk_Machine disk \<noteq> machine" using other by (auto simp: list_ex_iff)
    then show "admitted m (run_change (ChangeReserve (disk_ID disk) machine) m)"
      using admitted_Reserve [OF ready] journalDisks_set [OF disk] free by (simp add: Disk_free_def)
  qed
  show "picks_admitted m (journal_own m hosts)"
    unfolding journal_own_def
    by (rule picks_find) (auto simp: Let_def dest!: journalDisks_set takers_set intro: admitted_Assign [OF ready])
  show "picks_admitted m (journal_reader m hosts)"
  proof (cases "takers m hosts = []")
    case False
    then obtain p where p: "p \<in> set (takers m hosts)" "least_of (readers m) (map member_ID (takers m hosts)) = member_ID p"
      using least_of_mem [of "map member_ID (takers m hosts)" "readers m"] by auto
    show ?thesis unfolding journal_reader_def if_not_P [OF False] p(2)
      by (rule picks_find) (use p(1) in \<open>auto dest!: journalDisks_set takers_set intro: admitted_Assign [OF ready]\<close>)
  qed (simp add: journal_reader_def)
qed

lemma picks_shards:
  assumes ready: "ready m"
  shows "picks_admitted m (nextShardMove m hosts shards)"
proof (cases "takers m hosts = []")
  case False
  let ?members = "map member_ID (takers m hosts)"
  obtain p where p: "p \<in> set (takers m hosts)" "least_of (shard_load m shards) ?members = member_ID p"
    using least_of_mem [of ?members "shard_load m shards"] False by auto
  show ?thesis
  proof (cases "List.find (\<lambda>disk. shards (disk_ID disk) \<noteq> None \<and> disk_State disk = Released) (m_disks m)")
    case (Some x)
    then have "x \<in> set (m_disks m)" "disk_State x = Released" by (auto simp: find_Some_iff)
    then have "admitted m (Membership_Assign m (disk_ID x) (member_ID p))" using admitted_Assign [OF ready] takers_set [OF p(1)] by blast
    then show ?thesis using Some False by (simp add: nextShardMove_def Let_def p(2) picks_admitted_def)
  next
    case None
    have "picks_admitted m (map_option (\<lambda>disk. ChangeRelease (disk_ID disk))
        (List.find (\<lambda>disk. shards (disk_ID disk) \<noteq> None \<and> disk_Member disk = most \<and> disk_State disk = Serving) (m_disks m)))" for most
      by (rule picks_find) (simp add: admitted_Release ready)
    then show ?thesis using None False by (simp add: nextShardMove_def Let_def)
  qed
qed (simp add: nextShardMove_def)

lemma picks_Next:
  assumes "ready m" "want_ok m want"
  shows "picks_admitted m (Next m want)"
proof -
  have "\<And>who host. hosts_of (sortedHosts (want_Hosts want)) who = Some host \<Longrightarrow> host \<in> set (want_Hosts want)"
    using hosts_of_set [of "sortedHosts (want_Hosts want)"] by simp
  then show ?thesis
    unfolding Next_def Let_def
    by (intro picks_or_else picks_members [OF assms] picks_disks [OF assms] picks_join [OF assms] picks_journals [OF assms]
        picks_shards [OF assms(1)])
qed

end
