(* ===== verification/Membership_Controller.thy ===== *)
theory Membership_Controller
  imports Membership_Theorems Membership_Admit
begin

text \<open>
  The controller and the step rule agree, and a small cluster on which the theorems about histories
  and about the controller are evaluated: one member and one journal disk.
\<close>

section \<open>The steps of the controller\<close>

text \<open>
  C8. The controller only picks changes that can be made: for a well-formed membership with a
  generation left, and a want that names no entry a membership may not list and reports each disk as
  the kind it is listed as, the change it picks builds a well-formed membership, and the rule of what
  may follow what admits it. It never picks one that changes nothing or that is refused.
\<close>

theorem controller_steps_are_admitted:
  assumes "ready m" "want_ok m want" "Next m want = Some change"
  shows "\<exists>after. run_change change m = Inr after \<and> Step m after = Inr () \<and> membership_ok after"
  using picks_Next [OF assms(1,2)] assms(3) by (simp add: picks_admitted_def admitted_def)

section \<open>A cluster of one member\<close>

definition made :: "error + Membership \<Rightarrow> Membership" where
  "made r = (case r of Inr m \<Rightarrow> m | Inl _ \<Rightarrow> no_membership)"

definition one_journal :: Disk where
  "one_journal = \<lparr> disk_ID = 7, disk_Volume = ''j'', disk_Weight = 0, disk_Member = 0, disk_State = Released,
     disk_Assigned = 0, disk_Kind = JournalDisk, disk_Machine = [], disk_Empty = True \<rparr>"

definition one_member :: Member where
  "one_member = \<lparr> member_ID = 5, member_Address = ''a'', member_State = Joining \<rparr>"

definition run_changes :: "Change list \<Rightarrow> Membership list" where
  "run_changes changes = foldl (\<lambda>ms change. ms @ [made (run_change change (last ms))]) [Membership_Empty] changes"

text \<open>The disk is held, let go and held again; and added, held, found empty, let go and deleted.\<close>

definition held_again :: "Membership list" where
  "held_again = run_changes [ChangeJoin one_member [one_journal], ChangeRelease 7, ChangeLet 7 5, ChangeAssign 7 5]"

definition deleted_disk :: "Membership list" where
  "deleted_disk = run_changes [ChangeAdd one_journal, ChangeJoin one_member [], ChangeAssign 7 5, ChangeServe 7 5,
     ChangeRelease 7, ChangeMarkEmpty 7 True, ChangeLet 7 5, ChangeDelete 7]"


lemma run_change_ok: "run_change change m = Inr after \<Longrightarrow> membership_ok after"
  by (cases change) (auto simp: Membership_Join_def Membership_Add_def Membership_Serve_def Membership_Move_def
      Membership_Weigh_def Membership_Drain_def Membership_Release_def Membership_Let_def Membership_Assign_def
      Membership_Reserve_def Membership_MarkEmpty_def Membership_Delete_def Membership_Remove_def Membership_Leave_def
      Recode_def Membership_next_def Let_def intro: New_ok(1) split: option.splits if_splits)

primrec all_step :: "Membership \<Rightarrow> Change list \<Rightarrow> bool" where
  "all_step m [] = True"
| "all_step m (change # changes) =
     (case run_change change m of
        Inl _ \<Rightarrow> False
      | Inr after \<Rightarrow> Step m after = Inr () \<and> all_step after changes)"

lemma history_run:
  assumes "history ms" "all_step (last ms) changes"
  shows "history (foldl (\<lambda>ms change. ms @ [made (run_change change (last ms))]) ms changes)"
  using assms
proof (induction changes arbitrary: ms)
  case (Cons change changes)
  obtain after where after: "run_change change (last ms) = Inr after" "Step (last ms) after = Inr ()" "all_step after changes"
    using Cons.prems(2) by (auto split: sum.splits)
  have "history (ms @ [after])" using Cons.prems(1) after(2) run_change_ok [OF after(1)] by (rule history_step)
  then show ?case using Cons.IH [of "ms @ [after]"] after by (simp add: made_def)
qed simp

lemma history_run_changes: "all_step Membership_Empty changes \<Longrightarrow> history (run_changes changes)"
  unfolding run_changes_def by (rule history_run) (simp_all add: history_start)

lemma held_again_history: "history held_again"
  unfolding held_again_def by (rule history_run_changes) code_simp

lemma deleted_disk_history: "history deleted_disk"
  unfolding deleted_disk_def by (rule history_run_changes) code_simp

definition disk_at :: "Membership list \<Rightarrow> nat \<Rightarrow> Disk" where
  "disk_at ms i = (case Membership_Disk (ms ! i) 7 of Some disk \<Rightarrow> disk | None \<Rightarrow> one_journal)"

lemma held_again_disks:
  "length held_again = 5" "Membership_Disk (held_again ! 1) 7 = Some (disk_at held_again 1)" "assigned (disk_at held_again 1)"
  "Membership_Disk (held_again ! 4) 7 = Some (disk_at held_again 4)" "assigned (disk_at held_again 4)"
  "disk_Assigned (disk_at held_again 1) = 1" "disk_Assigned (disk_at held_again 4) = 4"
  by code_simp+

theorem a_disk_has_one_holder_witness:
  "assignment_follows held_again 7 1 4 (disk_at held_again 1) (disk_at held_again 4)
   \<and> disk_Assigned (disk_at held_again 1) = 1 \<and> disk_Assigned (disk_at held_again 4) = 4"
  using a_disk_has_one_holder [of held_again 1 4 7 "disk_at held_again 1" "disk_at held_again 4"] held_again_history
  by (simp add: held_again_disks del: One_nat_def)

lemma deleted_disk_disks:
  "length deleted_disk = 9" "Membership_Disk (deleted_disk ! 3) 7 = Some (disk_at deleted_disk 3)"
  "disk_Kind (disk_at deleted_disk 3) = JournalDisk" "disk_State (disk_at deleted_disk 3) = Attaching"
  "Membership_Disk (deleted_disk ! 8) 7 = Some (disk_at deleted_disk 8)" "disk_State (disk_at deleted_disk 8) = Deleting"
  by code_simp+

theorem deleted_journals_were_empty_witness:
  "found_empty deleted_disk 7 3 8 \<and> disk_State (disk_at deleted_disk 3) = Attaching \<and> disk_State (disk_at deleted_disk 8) = Deleting"
  using deleted_journals_were_empty [of deleted_disk 3 8 7 "disk_at deleted_disk 3"] deleted_disk_history
  by (simp add: deleted_disk_disks)

text \<open>A host that wants to join an empty cluster.\<close>

definition one_host :: Want where
  "one_host = \<lparr> want_Code = CodeFor 1, want_Earlier = [],
     want_Hosts = [\<lparr> host_ID = 5, host_Address = ''a'', host_Disks = [], host_Held = 0, host_Machine = ''m'', host_Leaving = False \<rparr>],
     want_Shards = [], want_Journals = [], want_JournalsKnown = True, want_Pool = [''m''], want_Expired = [],
     want_JournalsAfter = 0 \<rparr>"

lemma one_host_joins: "Next Membership_Empty one_host = Some (ChangeJoin (one_member\<lparr> member_State := NoMemberState \<rparr>) [])"
  by code_simp

lemma one_host_ok: "want_ok Membership_Empty one_host"
proof -
  have "codes_ok (CodeFor 1) []" using Empty_New by (auto simp: codes_ok_def New_def split: sum.splits)
  then show ?thesis by (simp add: want_ok_def kinds_agree_def host_ok_def one_host_def)
qed

theorem controller_steps_are_admitted_witness:
  "\<exists>after. Membership_Join Membership_Empty (one_member\<lparr> member_State := NoMemberState \<rparr>) [] = Inr after
     \<and> Step Membership_Empty after = Inr () \<and> membership_ok after"
  using controller_steps_are_admitted [OF _ one_host_ok one_host_joins] Empty_ok(1,2) by (simp add: ready_def)

end
