(* ===== verification/Spec2Isabelle.thy ===== *)
theory Spec2Isabelle
  imports Control_Theorems Control_Findings Journal_Theorems Rank_Theorems Stripe_Theorems
    Rank_Text Membership_Controller
begin

text \<open>
  A verification of the storage core of sproutfs, a system that keeps the memory and disks of
  virtual machines in an object store, with cache and journal disks in front of it.

  \<^bold>\<open>The program.\<close> A VM's durable state is one small object, its control record, changed only by
  compare-and-set (\<^verbatim>\<open>src/control\<close> over \<^verbatim>\<open>src/platform/object_store.go\<close>). Between checkpoints a host
  appends what a VM writes to a journal disk (\<^verbatim>\<open>src/journal\<close>). Cache disks hold stripes of
  checkpoints: \<^verbatim>\<open>src/rank\<close> says which disk holds which stripe and \<^verbatim>\<open>src/stripe\<close> cuts and rebuilds
  them. Which hosts and disks there are is the membership (\<^verbatim>\<open>src/membership\<close>), one object again, which
  a controller moves towards what is wanted one step at a time.

  \<^bold>\<open>Conventions\<close> (Prelude). A Go \<^verbatim>\<open>uint64\<close> is a 64-bit word, a byte an 8-bit word, a string a list of
  characters, an identity of 16 bytes a 128-bit word, a Go \<^verbatim>\<open>int\<close> an integer with its wrap-around
  written out where it can happen. An error is the list of the sentinels \<^verbatim>\<open>errors.Is\<close> finds in it, and
  a call that can fail returns a sum, the error on the left. Structs are records, enumerations
  datatypes, constructors and operations named as in the source; a method whose name another type
  has too, or HOL, carries its type's name. The locales \<open>invariant_system\<close> and \<open>relative_invariant\<close>
  turn an invariant of the steps of a system into one of its runs.

  \<^bold>\<open>The object store\<close> (Object_Store, Cas_System). The locale \<open>object_store\<close> is the contract of
  conditional puts, gets and deletes, and the store of the simulator (\<^verbatim>\<open>src/platform/sim/object_store.go\<close>)
  is an interpretation of it. An operation of a client is a program of requests. Cas_System runs any number of
  clients in any interleaving over a store that answers any request with an error, loses replies, and
  applies writes late or twice; all it is trusted for is that a validator names one value of a key.
  The locale \<open>cas_clients\<close> says what a kind of client has to show of its programs, and proves of the
  whole system that every stored object is good and changes only as specified.

  \<^bold>\<open>The control plane.\<close> Control_Identity has sequences, VM identities and tenants (\<^verbatim>\<open>control.go\<close>,
  \<^verbatim>\<open>tenant.go\<close>, \<^verbatim>\<open>lineage.go\<close>); Control_Record the record and its format (\<^verbatim>\<open>record.go\<close>) over a protobuf
  codec that is a parameter with one law, that what is marshalled parses back; Control_Client every
  operation of \<^verbatim>\<open>client.go\<close>. Control_System and Control_Deployment state what may happen to a record
  and interpret \<open>cas_clients\<close> on the operations; Control_Safety and Control_Theorems have the
  properties: the record is refined by six kinds of change, an epoch has one owner, a superseded
  writer never selects, what was answered was stored, pins stay. Control_Example is the run they are
  applied to, and Control_Findings one in which a removal reports a record it did not remove.

  \<^bold>\<open>The journal.\<close> Journal_Format (\<^verbatim>\<open>format.go\<close>) has slots and entries as bytes, with the checksum a
  parameter; Journal_Ring (\<^verbatim>\<open>readBack\<close> and the window it reads through); Journal_State (the index, trims,
  \<^verbatim>\<open>trim.go\<close>); Journal_Writer and Journal_Layout (batches, \<^verbatim>\<open>writer.go\<close>); Journal_Open (opening, leases,
  reads, closing, \<^verbatim>\<open>journal.go\<close> and \<^verbatim>\<open>read.go\<close>). Journal_Inv, Journal_Keep and Journal_Recover have the
  invariant of an open journal and its disk, that each operation keeps it, and that opening a disk a
  crash left restores it. Journal_System is the transition system of a disk's whole life, with failed
  writes, torn writes and crashes; Journal_Fence and Journal_Progress what a fence keeps out and that
  the writer gets on. Journal_Theorems has the properties, applied to the run of Journal_Example: what
  was answered is served, a new holder stops the old one, reopening finds what is owed, batches stay
  inside the ring, failed ranges are padded over.

  \<^bold>\<open>Caches.\<close> Rank (\<^verbatim>\<open>rank.go\<close>, \<^verbatim>\<open>window.go\<close>) has codes, lists and the ranking, with SHA-256 (Sha256),
  \<^verbatim>\<open>slices.SortFunc\<close> (Sort_Func) and \<^verbatim>\<open>slices.BinarySearchFunc\<close> (Binary_Search) defined; Rank_Order that the
  ranking is an order, Rank_Theorems that ranks are the best caches and that a leaving cache moves its
  own windows only, Rank_Text identities and codes as text. Stripe and Stripe_Theorems cut and join
  envelopes; Reed-Solomon coding is a parameter, with the law that k right shards give all of them.

  \<^bold>\<open>The membership.\<close> Membership has the entries, the changes and the rule of what may follow what
  (\<^verbatim>\<open>membership.go\<close>, \<^verbatim>\<open>change.go\<close>); Membership_Step what \<open>New\<close> takes and makes and what \<open>Step\<close> admits;
  Membership_Theorems what follows for histories of memberships, lists in which each may follow the
  one before; Membership_Control the controller (\<^verbatim>\<open>controller.go\<close>, \<^verbatim>\<open>journals.go\<close>, \<^verbatim>\<open>attach.go\<close>,
  \<^verbatim>\<open>shardcontrol.go\<close>); Membership_Admit and Membership_Controller that every change it picks is made and
  admitted. A closure the controller returns is a value of the datatype \<open>Change\<close>, and \<open>run_change\<close> runs it.

  \<^bold>\<open>Bounds and fuel.\<close> The compare-and-set loops of the control client may run for ever against other
  writers, so they take the number of rounds as fuel. What holds in every interleaving holds for any
  fuel, one that runs out being a caller whose context ended; what an undisturbed operation returns is
  shown for any positive fuel. All other loops are total functions. Positions of the journal are natural
  numbers and the steps of its system keep them, and the counters of its headers, below 2 to the 64.

  \<^bold>\<open>Not modelled.\<close> Reads of ranges and listings of the object store; probes, injected faults and the
  planted bugs of the simulation, which are off; timing other than the clock the journal reads; the
  goroutine and channel plumbing around the journal's writer, whose steps are those of Journal_System;
  the store, view and wire format of the membership; the checkpoint index, the volume overlay, the
  pager, the host supervisor, the peer protocol and everything that is I/O on real disks and networks.
\<close>

end
